(* ===== verification/RDM_Prelude.thy ===== *)
theory RDM_Prelude
  imports Main "HOL-Library.Monad_Syntax" "HOL-Library.Code_Target_Numeral"
begin

text \<open>
  Shared vocabulary of the development.

  An operation of the C++ code is a function into \<open>'a option\<close>. \<open>Some r\<close> is a normal return with
  result \<open>r\<close>; \<open>None\<close> stands for every way of not returning normally: a failed \<open>log_assert\<close> (which
  calls \<open>std::abort\<close>, src/core/Log.h), an array access outside its bounds, or a loop that does not
  end. Hence a lemma that an operation yields \<open>Some\<close> states at once that no assertion fires, that
  every access is in bounds and that its loops terminate. Status codes the code returns to its
  caller are ordinary values inside \<open>Some\<close>.

  \<open>size_t\<close> values are naturals below \<open>2 ^ 64\<close>; the additions and subtractions the code performs on
  counters wrap around at that width. \<open>off_t\<close> values are integers.
\<close>

named_theorems chain_simps \<open>rewrite rules for linked chains inside arrays\<close>
named_theorems frame_rules \<open>updates of one array cell leave other structures alone\<close>

definition log_assert :: "bool \<Rightarrow> unit option" where
  "log_assert b = (if b then Some () else None)"

definition rd :: "'a list \<Rightarrow> nat \<Rightarrow> 'a option" where
  "rd xs i = (if i < length xs then Some (xs ! i) else None)"

definition wr :: "'a list \<Rightarrow> nat \<Rightarrow> 'a \<Rightarrow> 'a list option" where
  "wr xs i v = (if i < length xs then Some (xs[i := v]) else None)"

definition SIZE_NONE :: nat where
  "SIZE_NONE = 2 ^ 64 - 1"

definition sz_add :: "nat \<Rightarrow> nat \<Rightarrow> nat" where
  "sz_add a b = (a + b) mod 2 ^ 64"

definition sz_sub :: "nat \<Rightarrow> nat \<Rightarrow> nat" where
  "sz_sub a b = (a + (2 ^ 64 - b mod 2 ^ 64)) mod 2 ^ 64"

abbreviation sz_inc :: "nat \<Rightarrow> nat" where
  "sz_inc n \<equiv> sz_add n 1"

abbreviation sz_dec :: "nat \<Rightarrow> nat" where
  "sz_dec n \<equiv> sz_sub n 1"

text \<open>
  \<open>chain nx p xs\<close>: following \<open>nx\<close> from \<open>p\<close> visits exactly \<open>xs\<close> and then meets \<open>SIZE_NONE\<close>, the
  null index of the singly linked lists the code threads through its arrays.
  \<open>links nx xs\<close>: each element of \<open>xs\<close> is linked by \<open>nx\<close> to the one after it.
\<close>

primrec chain :: "(nat \<Rightarrow> nat) \<Rightarrow> nat \<Rightarrow> nat list \<Rightarrow> bool" where
  "chain nx p [] \<longleftrightarrow> p = SIZE_NONE"
| "chain nx p (x # xs) \<longleftrightarrow> p = x \<and> p \<noteq> SIZE_NONE \<and> chain nx (nx x) xs"

fun links :: "(nat \<Rightarrow> nat) \<Rightarrow> nat list \<Rightarrow> bool" where
  "links nx [] = True"
| "links nx [x] = True"
| "links nx (x # y # ys) = (nx x = y \<and> links nx (y # ys))"

subsection \<open>Conversions\<close>

text \<open>The conversions between \<open>size_t\<close> and the signed \<open>off_t\<close>.\<close>

abbreviation to_size :: "int \<Rightarrow> nat" where
  "to_size x \<equiv> nat (x mod 2 ^ 64)"

definition to_off :: "nat \<Rightarrow> int" where
  "to_off n = (if n < 2 ^ 63 then int n else int n - 2 ^ 64)"

subsection \<open>Error numbers\<close>

text \<open>The values of \<open>errno.h\<close> on Linux that the code returns as a status.\<close>

definition EINTR :: int where "EINTR = 4"

definition EIO :: int where "EIO = 5"

definition EAGAIN :: int where "EAGAIN = 11"
definition ENOMEM :: int where "ENOMEM = 12"
definition EACCES :: int where "EACCES = 13"
definition EINVAL :: int where "EINVAL = 22"
definition ENOSPC :: int where "ENOSPC = 28"
definition EDEADLK :: int where "EDEADLK = 35"

subsection \<open>Arrays and assertions\<close>

lemma log_assert_True [simp]: "log_assert True = Some ()"
  by (simp add: log_assert_def)

lemma log_assert_Some [simp]: "log_assert b = Some u \<longleftrightarrow> b"
  by (simp add: log_assert_def)

lemma log_assert_bind [simp]: "b \<Longrightarrow> log_assert b \<bind> f = f ()"
  by (simp add: log_assert_def)

lemma rd_in [simp]: "i < length xs \<Longrightarrow> rd xs i = Some (xs ! i)"
  by (simp add: rd_def)

lemma rd_Some: "rd xs i = Some v \<longleftrightarrow> i < length xs \<and> v = xs ! i"
  by (auto simp: rd_def)

lemma wr_in [simp]: "i < length xs \<Longrightarrow> wr xs i v = Some (xs[i := v])"
  by (simp add: wr_def)

lemma wr_Some: "wr xs i v = Some ys \<longleftrightarrow> i < length xs \<and> ys = xs[i := v]"
  by (auto simp: wr_def)

subsection \<open>Width-64 counters\<close>

lemma sz_add_small [simp]: "a + b < 2 ^ 64 \<Longrightarrow> sz_add a b = a + b"
  by (simp add: sz_add_def)

lemma sz_sub_small [simp]:
  assumes "b \<le> a" "a < 2 ^ 64"
  shows "sz_sub a b = a - b"
proof -
  have "b mod 2 ^ 64 = b" using assms by simp
  moreover have "a + (2 ^ 64 - b) = (a - b) + 2 ^ 64" using assms by simp
  ultimately have "sz_sub a b = ((a - b) + 2 ^ 64) mod 2 ^ 64" by (simp only: sz_sub_def)
  also have "\<dots> = a - b" using assms by (simp only: mod_add_self2) simp
  finally show ?thesis .
qed

lemma sz_add_bound: "sz_add a b < 2 ^ 64"
  by (simp add: sz_add_def)

lemma sz_sub_bound: "sz_sub a b < 2 ^ 64"
  by (simp add: sz_sub_def)

subsection \<open>Chains\<close>

lemma chain_nonNone: "chain nx p xs \<Longrightarrow> SIZE_NONE \<notin> set xs"
  by (induction xs arbitrary: p) auto

lemma chain_NoneD [simp]: "chain nx SIZE_NONE xs \<longleftrightarrow> xs = []"
  by (cases xs) auto

lemma chain_hd: "chain nx p xs \<Longrightarrow> p \<noteq> SIZE_NONE \<Longrightarrow> \<exists>ys. xs = p # ys \<and> chain nx (nx p) ys"
  by (cases xs) auto

lemma chain_unique: "chain nx p xs \<Longrightarrow> chain nx p ys \<Longrightarrow> xs = ys"
proof (induction xs arbitrary: p ys)
  case Nil
  then show ?case by simp
next
  case (Cons x xs)
  then show ?case by (cases ys) auto
qed

lemma chain_append:
  "chain nx p (xs @ y # ys) \<longleftrightarrow>
     y \<noteq> SIZE_NONE \<and> chain nx (nx y) ys \<and>
     (if xs = [] then p = y else p = hd xs \<and> SIZE_NONE \<notin> set xs \<and> links nx (xs @ [y]))"
proof (induction xs arbitrary: p)
  case Nil
  then show ?case by auto
next
  case (Cons x xs)
  then show ?case by (cases xs) auto
qed

lemma chain_distinct: "chain nx p xs \<Longrightarrow> distinct xs"
proof (induction xs arbitrary: p)
  case Nil
  then show ?case by simp
next
  case (Cons x xs)
  have "x \<notin> set xs"
  proof
    assume "x \<in> set xs"
    then obtain us vs where xs: "xs = us @ x # vs" by (meson split_list)
    with Cons.prems have "chain nx x vs'" if "vs' = x # vs" for vs'
      using that chain_append [of nx "nx x" us x vs] by auto
    then have "chain nx x (x # vs)" by simp
    moreover have "chain nx x (x # xs)" using Cons.prems by simp
    ultimately have "x # vs = x # xs" by (rule chain_unique)
    with xs show False by simp
  qed
  with Cons show ?case by auto
qed

lemma chain_cong: "chain f p xs \<Longrightarrow> (\<And>x. x \<in> set xs \<Longrightarrow> g x = f x) \<Longrightarrow> chain g p xs"
  by (induction xs arbitrary: p) auto

lemma links_cong: "links f xs \<Longrightarrow> (\<And>x. x \<in> set (butlast xs) \<Longrightarrow> g x = f x) \<Longrightarrow> links g xs"
proof (induction f xs rule: links.induct)
  case (3 nx x y ys)
  then show ?case by auto
qed simp_all

lemma links_append:
  "links nx (xs @ y # ys) \<longleftrightarrow> links nx (xs @ [y]) \<and> links nx (y # ys)"
proof (induction xs)
  case (Cons x xs)
  then show ?case by (cases xs) auto
qed simp

lemma links_step: "links nx (xs @ x # y # ys) \<Longrightarrow> nx x = y"
  using links_append [of nx xs x "y # ys"] by simp

lemma links_Cons: "links nx (x # xs) \<longleftrightarrow> xs = [] \<or> (nx x = hd xs \<and> links nx xs)"
  by (cases xs) auto

subsection \<open>Options and lists\<close>

lemma bind_Some_iff: "m \<bind> f = Some y \<longleftrightarrow> (\<exists>x. m = Some x \<and> f x = Some y)"
  by (cases m) auto

lemma last_filter_Cons: "last (x # filter P xs) \<in> insert x (set xs)"
  by (induction xs rule: rev_induct) auto

lemma find_skip: "(\<And>x. x \<in> set xs \<Longrightarrow> \<not> P x) \<Longrightarrow> find P (xs @ ys) = find P ys"
  by (induction xs) auto

lemma find_none: "(\<And>x. x \<in> set xs \<Longrightarrow> \<not> P x) \<Longrightarrow> find P xs = None"
  by (induction xs) auto

end
