(* ===== verification/Math_Util.thy ===== *)
theory Math_Util
  imports RDM_Prelude Complex_Main
begin

text \<open>
  src/core/MathUtil.h and the rounding helper of src/core/FileUtil.h: primality by trial division,
  the greatest prime below a bound, the base-4 logarithm that sizes the skip lists, and rounding up
  to a multiple. \<open>unsigned long\<close> is 64 bits wide; the square \<open>d * d\<close> of the trial loop wraps.

  The code computes \<open>log4\<close> and the square root of the arena size in floating point and truncates.
  The model uses exact integer functions; \<open>log4_floor\<close> and \<open>isqrt_floor\<close> tie them to the real
  expressions of the source.
\<close>

subsection \<open>Definitions\<close>

function isPrime_loop :: "nat \<Rightarrow> nat \<Rightarrow> bool" where
  "isPrime_loop n d =
     (if (d * d) mod 2 ^ 64 \<le> n then
        if n mod d = 0 then False
        else if d + 2 < 2 ^ 64 then isPrime_loop n (d + 2)
        else False \<comment> \<open>\<open>d\<close> wraps to 1, which divides \<open>n\<close>\<close>
      else True)"
  by pat_completeness auto
termination
  by (relation "measure (\<lambda>(n, d). 2 ^ 64 - d)") auto

definition isPrime :: "nat \<Rightarrow> bool" where
  "isPrime n =
     (if n \<le> 1 then False
      else if n \<le> 19 then
        n = 2 \<or> n = 3 \<or> n = 5 \<or> n = 7 \<or> n = 11 \<or> n = 13 \<or> n = 17 \<or> n = 19
      else if n mod 2 = 0 \<or> n mod 3 = 0 \<or> n mod 5 = 0 \<or> n mod 7 = 0 \<or>
              n mod 11 = 0 \<or> n mod 13 = 0 \<or> n mod 17 = 0 \<or> n mod 19 = 0 then False
      else isPrime_loop n 23)"

partial_function (option) prevPrime_loop :: "nat \<Rightarrow> nat option" where
  "prevPrime_loop n =
     (if n > 0 then if isPrime n then Some n else prevPrime_loop (sz_sub n 2) else Some 0)"

definition prevPrime :: "nat \<Rightarrow> nat option" where
  "prevPrime n = (if n \<le> 2 then Some 2 else prevPrime_loop (if n mod 2 = 0 then n - 1 else n))"

fun log4 :: "nat \<Rightarrow> nat" where
  "log4 n = (if n < 4 then 0 else Suc (log4 (n div 4)))"

definition roundUp :: "nat \<Rightarrow> nat \<Rightarrow> nat option" where
  "roundUp x unit =
     (if unit = 0 then None
      else Some (sz_sub (sz_add x unit) 1 div unit * unit mod 2 ^ 64))"

fun isqrt :: "nat \<Rightarrow> nat" where
  "isqrt n =
     (if n = 0 then 0
      else let r = 2 * isqrt (n div 4) in if (r + 1) * (r + 1) \<le> n then r + 1 else r)"

definition is_prime :: "nat \<Rightarrow> bool" where
  "is_prime n \<longleftrightarrow> 1 < n \<and> (\<forall>d. d dvd n \<longrightarrow> d = 1 \<or> d = n)"

declare isPrime_loop.simps [simp del] log4.simps [simp del] isqrt.simps [simp del]

subsection \<open>Primality\<close>

lemma is_prime_iff_no_small_divisor:
  assumes "1 < n"
  shows "is_prime n \<longleftrightarrow> (\<forall>d. 1 < d \<and> d * d \<le> n \<longrightarrow> \<not> d dvd n)"
proof
  assume P: "is_prime n"
  have "\<not> d dvd n" if "1 < d" "d * d \<le> n" for d
  proof
    assume "d dvd n"
    with P that(1) have "d = n" by (auto simp: is_prime_def)
    with that show False by simp
  qed
  then show "\<forall>d. 1 < d \<and> d * d \<le> n \<longrightarrow> \<not> d dvd n" by blast
next
  assume R: "\<forall>d. 1 < d \<and> d * d \<le> n \<longrightarrow> \<not> d dvd n"
  have "d = 1 \<or> d = n" if "d dvd n" for d
  proof (rule ccontr)
    assume neq: "\<not> (d = 1 \<or> d = n)"
    from that obtain e where e: "n = d * e" by auto
    with assms neq have de: "1 < d" "1 < e"
      by (cases d; cases e; auto)+
    show False
    proof (cases "d \<le> e")
      case True
      then have "d * d \<le> n" by (simp add: e)
      with R de \<open>d dvd n\<close> show False by blast
    next
      case False
      then have "e * e \<le> n" by (simp add: e)
      moreover have "e dvd n" by (simp add: e)
      ultimately show False using R de by blast
    qed
  qed
  with assms show "is_prime n" by (simp add: is_prime_def)
qed

lemma square_no_wrap: "d \<le> 2 ^ 32 - 1 \<Longrightarrow> (d * d) mod 2 ^ 64 = d * (d::nat)"
proof -
  assume "d \<le> 2 ^ 32 - 1"
  then have "d * d \<le> (2 ^ 32 - 1) * (2 ^ 32 - 1)" by (intro mult_le_mono)
  then show ?thesis by simp
qed

lemma isPrime_loop_odd:
  assumes "n < (2 ^ 32 - 1) * (2 ^ 32 - 1)" "odd d" "d \<le> 2 ^ 32 - 1" "1 < d"
  shows "isPrime_loop n d \<longleftrightarrow> (\<forall>e. odd e \<and> d \<le> e \<and> e * e \<le> n \<longrightarrow> \<not> e dvd n)"
  using assms
proof (induction n d rule: isPrime_loop.induct)
  case (1 n d)
  have sq: "(d * d) mod 2 ^ 64 = d * d" using "1.prems"(3) by (rule square_no_wrap)
  show ?case
  proof (cases "d * d \<le> n")
    case False
    then have "\<not> e * e \<le> n" if "d \<le> e" for e
      using mult_le_mono [OF that that] by linarith
    with False sq show ?thesis by (subst isPrime_loop.simps) auto
  next
    case True
    show ?thesis
    proof (cases "n mod d = 0")
      case d: True
      then show ?thesis
        using True sq "1.prems"(2) by (subst isPrime_loop.simps) auto
    next
      case False
      have lt: "d < 2 ^ 32 - 1"
      proof (rule ccontr)
        assume "\<not> d < 2 ^ 32 - 1"
        then have "d = 2 ^ 32 - 1" using "1.prems"(3) by simp
        with True "1.prems"(1) show False by simp
      qed
      then have le: "d + 2 \<le> 2 ^ 32 - 1" using "1.prems"(2) by (auto elim!: oddE)
      then have "isPrime_loop n d = isPrime_loop n (d + 2)"
        using True sq False by (subst isPrime_loop.simps) auto
      also have "\<dots> \<longleftrightarrow> (\<forall>e. odd e \<and> d + 2 \<le> e \<and> e * e \<le> n \<longrightarrow> \<not> e dvd n)"
        using "1.IH" True sq False "1.prems" le by simp
      also have "\<dots> \<longleftrightarrow> (\<forall>e. odd e \<and> d \<le> e \<and> e * e \<le> n \<longrightarrow> \<not> e dvd n)"
      proof -
        have "e = d \<or> d + 2 \<le> e" if "odd e" "d \<le> e" for e
          using that "1.prems"(2) by (auto elim!: oddE)
        moreover have "\<not> d dvd n" using False by (simp add: dvd_eq_mod_eq_0)
        ultimately have "\<not> e dvd n"
          if "\<forall>e. odd e \<and> d + 2 \<le> e \<and> e * e \<le> n \<longrightarrow> \<not> e dvd n" "odd e" "d \<le> e" "e * e \<le> n" for e
          using that by blast
        then show ?thesis by auto
      qed
      finally show ?thesis .
    qed
  qed
qed

lemma is_prime_le_19:
  assumes "1 < n" "n \<le> 19"
  shows "is_prime n \<longleftrightarrow> \<not> (4 \<le> n \<and> 2 dvd n) \<and> \<not> (9 \<le> n \<and> 3 dvd n) \<and> \<not> (16 \<le> n \<and> 4 dvd n)"
proof -
  have small: "d = 2 \<or> d = 3 \<or> d = 4" if "1 < d" "d * d \<le> n" for d
  proof -
    have "d \<le> 4"
    proof (rule ccontr)
      assume "\<not> d \<le> 4"
      then have "5 * 5 \<le> d * d" by (intro mult_le_mono) simp_all
      with that assms show False by simp
    qed
    with that show ?thesis by linarith
  qed
  show ?thesis unfolding is_prime_iff_no_small_divisor [OF assms(1)]
  proof (intro iffI)
    assume A: "\<forall>d. 1 < d \<and> d * d \<le> n \<longrightarrow> \<not> d dvd n"
    from A [rule_format, of 2] A [rule_format, of 3] A [rule_format, of 4]
    show "\<not> (4 \<le> n \<and> 2 dvd n) \<and> \<not> (9 \<le> n \<and> 3 dvd n) \<and> \<not> (16 \<le> n \<and> 4 dvd n)" by auto
  next
    assume B: "\<not> (4 \<le> n \<and> 2 dvd n) \<and> \<not> (9 \<le> n \<and> 3 dvd n) \<and> \<not> (16 \<le> n \<and> 4 dvd n)"
    have "\<not> d dvd n" if "1 < d" "d * d \<le> n" for d
      using small [OF that] that(2) B by auto
    then show "\<forall>d. 1 < d \<and> d * d \<le> n \<longrightarrow> \<not> d dvd n" by blast
  qed
qed

lemma no_divisor_from_primes:
  assumes np: "n mod 2 \<noteq> 0" "n mod 3 \<noteq> 0" "n mod 5 \<noteq> 0" "n mod 7 \<noteq> 0"
      "n mod 11 \<noteq> 0" "n mod 13 \<noteq> 0" "n mod 17 \<noteq> 0" "n mod 19 \<noteq> (0::nat)"
    and big: "\<forall>e. odd e \<and> 23 \<le> e \<and> e * e \<le> n \<longrightarrow> \<not> e dvd n"
    and d: "1 < d" "d * d \<le> n"
  shows "\<not> d dvd n"
proof
  assume dn: "d dvd n"
  have tr: "c dvd d \<Longrightarrow> n mod c = 0" for c
    using dn by (auto intro: dvd_trans simp: mod_eq_0_iff_dvd)
  have "odd d" using tr [of 2] np(1) by auto
  moreover have "d < 23" using big d dn \<open>odd d\<close> by (meson not_less)
  ultimately have "d = 3 \<or> d = 5 \<or> d = 7 \<or> d = 9 \<or> d = 11 \<or> d = 13 \<or> d = 15 \<or> d = 17 \<or> d = 19 \<or> d = 21"
    using d(1) by presburger
  then have "3 dvd d \<or> 5 dvd d \<or> 7 dvd d \<or> 11 dvd d \<or> 13 dvd d \<or> 17 dvd d \<or> 19 dvd d"
    by auto
  moreover have "\<not> 3 dvd d" "\<not> 5 dvd d" "\<not> 7 dvd d" "\<not> 11 dvd d" "\<not> 13 dvd d" "\<not> 17 dvd d" "\<not> 19 dvd d"
    using tr np by (metis (no_types))+
  ultimately show False by (elim disjE) (erule (1) notE)+
qed

lemma isPrime_iff_is_prime:
  assumes "n < (2 ^ 32 - 1) * (2 ^ 32 - 1)"
  shows "isPrime n \<longleftrightarrow> is_prime n"
proof -
  consider "n \<le> 1" | "1 < n" "n \<le> 19" | "19 < n" by linarith
  then show ?thesis
  proof cases
    case 1
    then show ?thesis by (auto simp: isPrime_def is_prime_def)
  next
    case 2
    then have "n \<in> {2, 3, 5, 7, 11, 13, 17, 19} \<union> {4, 6, 8, 9, 10, 12, 14, 15, 16, 18}"
      by simp presburger
    then show ?thesis unfolding is_prime_le_19 [OF 2]
      by (elim UnE insertE emptyE) (simp_all add: isPrime_def)
  next
    case 3
    define small where "small \<longleftrightarrow> n mod 2 = 0 \<or> n mod 3 = 0 \<or> n mod 5 = 0 \<or> n mod 7 = 0 \<or>
              n mod 11 = 0 \<or> n mod 13 = 0 \<or> n mod 17 = 0 \<or> n mod 19 = 0"
    have loop: "isPrime_loop n 23 \<longleftrightarrow> (\<forall>e. odd e \<and> 23 \<le> e \<and> e * e \<le> n \<longrightarrow> \<not> e dvd n)"
      by (rule isPrime_loop_odd [OF assms]) auto
    have unf: "isPrime n \<longleftrightarrow> \<not> small \<and> isPrime_loop n 23"
      using 3 by (auto simp: isPrime_def small_def)
    have not_prime: "\<not> is_prime n" if "c dvd n" "1 < c" "c < n" for c
      using that by (auto simp: is_prime_def)
    show ?thesis
    proof
      assume "isPrime n"
      with unf loop have S: "\<not> small" and big: "\<forall>e. odd e \<and> 23 \<le> e \<and> e * e \<le> n \<longrightarrow> \<not> e dvd n"
        by auto
      have "\<not> d dvd n" if "1 < d" "d * d \<le> n" for d
        by (rule no_divisor_from_primes [OF _ _ _ _ _ _ _ _ big that]) (use S in \<open>auto simp: small_def\<close>)
      with 3 show "is_prime n" by (simp add: is_prime_iff_no_small_divisor)
    next
      assume P: "is_prime n"
      have "\<not> small"
        using P 3 not_prime [of 2] not_prime [of 3] not_prime [of 5] not_prime [of 7]
          not_prime [of 11] not_prime [of 13] not_prime [of 17] not_prime [of 19]
        by (auto simp: small_def mod_eq_0_iff_dvd)
      moreover have "isPrime_loop n 23"
        using P 3 loop by (simp add: is_prime_iff_no_small_divisor)
      ultimately show "isPrime n" by (simp add: unf)
    qed
  qed
qed

lemma is_prime_3: "is_prime 3"
  using is_prime_le_19 [of 3] by simp

lemma is_prime_2: "is_prime 2"
  using is_prime_le_19 [of 2] by simp

lemma prevPrime_loop_spec:
  assumes "odd n" "3 \<le> n" "n < (2 ^ 32 - 1) * (2 ^ 32 - 1)"
  shows "\<exists>p. prevPrime_loop n = Some p \<and> is_prime p \<and> 3 \<le> p \<and> p \<le> n \<and>
             (\<forall>q. is_prime q \<and> q \<le> n \<longrightarrow> q \<le> p)"
  using assms
proof (induction n rule: less_induct)
  case (less n)
  show ?case
  proof (cases "isPrime n")
    case True
    then show ?thesis
      using less.prems by (subst prevPrime_loop.simps) (auto simp: isPrime_iff_is_prime)
  next
    case False
    then have np: "\<not> is_prime n" using less.prems by (simp add: isPrime_iff_is_prime)
    then have "n \<noteq> 3" using is_prime_3 by auto
    with less.prems(1,2) have n5: "5 \<le> n" by (auto elim!: oddE)
    have sub: "sz_sub n 2 = n - 2" using less.prems by simp
    have "n - 2 < n" "odd (n - 2)" "3 \<le> n - 2" "n - 2 < (2 ^ 32 - 1) * (2 ^ 32 - 1)"
      using n5 less.prems by (auto simp: less_imp_diff_less)
    from less.IH [OF this]
    obtain p where p: "prevPrime_loop (n - 2) = Some p" "is_prime p" "3 \<le> p" "p \<le> n - 2"
      "\<forall>q. is_prime q \<and> q \<le> n - 2 \<longrightarrow> q \<le> p" by auto
    have "q \<le> p" if "is_prime q" "q \<le> n" for q
    proof (cases "q \<le> n - 2")
      case True
      with p(5) that show ?thesis by blast
    next
      case False
      moreover have "q \<noteq> n" using that np by auto
      ultimately have q: "q = n - 1" using that(2) by linarith
      with less.prems(1) n5 have "2 dvd q" "2 < q" by auto
      with that(1) show ?thesis by (auto simp: is_prime_def)
    qed
    with p False sub n5 show ?thesis
      by (subst prevPrime_loop.simps) auto
  qed
qed

lemma prevPrime_spec:
  assumes "n < (2 ^ 32 - 1) * (2 ^ 32 - 1)"
  shows "\<exists>p. prevPrime n = Some p \<and> is_prime p \<and>
             (2 \<le> n \<longrightarrow> p \<le> n \<and> (\<forall>q. is_prime q \<and> q \<le> n \<longrightarrow> q \<le> p))"
proof (cases "n \<le> 2")
  case True
  then show ?thesis using is_prime_2 by (auto simp: prevPrime_def)
next
  case False
  define m where "m = (if n mod 2 = 0 then n - 1 else n)"
  have m: "odd m" "3 \<le> m" "m < (2 ^ 32 - 1) * (2 ^ 32 - 1)" "m \<le> n"
    using False assms by (auto simp: m_def mod_2_eq_odd less_imp_diff_less elim!: evenE)
  obtain p where p: "prevPrime_loop m = Some p" "is_prime p" "3 \<le> p" "p \<le> m"
      "\<forall>q. is_prime q \<and> q \<le> m \<longrightarrow> q \<le> p"
    using prevPrime_loop_spec [OF m(1-3)] by blast
  have "q \<le> p" if q: "is_prime q" "q \<le> n" for q
  proof (cases "q \<le> m")
    case True
    with p(5) q show ?thesis by blast
  next
    case f: False
    with q(2) have "q = n" "even n" by (auto simp: m_def mod_2_eq_odd split: if_splits)
    with q(1) False have "2 dvd q \<and> 2 < q" by simp
    with q(1) show ?thesis by (auto simp: is_prime_def)
  qed
  with p m False show ?thesis by (auto simp: prevPrime_def m_def [symmetric])
qed

text \<open>
  C16. The hash tables of the queue take their number of chains from \<open>prevPrime\<close>. For every
  argument below \<open>(2 ^ 32 - 1) ^ 2\<close> the search loop ends; its result is a prime, and from 2 on it is
  the greatest prime not above the argument. (Beyond that bound the square in the trial loop can
  wrap; the callers pass \<open>nelems / 4\<close>, which stays below it.)
\<close>

theorem prevPrime_greatest_prime:
  assumes "n < (2 ^ 32 - 1) * (2 ^ 32 - 1)"
  shows "\<exists>p. prevPrime n = Some p \<and> is_prime p \<and>
             (2 \<le> n \<longrightarrow> p \<le> n \<and> (\<forall>q. is_prime q \<and> q \<le> n \<longrightarrow> q \<le> p))"
  using assms by (rule prevPrime_spec)

theorem prevPrime_greatest_prime_witness:
  "\<exists>p. prevPrime 25 = Some p \<and> is_prime p \<and>
       (2 \<le> (25::nat) \<longrightarrow> p \<le> 25 \<and> (\<forall>q. is_prime q \<and> q \<le> 25 \<longrightarrow> q \<le> p))"
  by (rule prevPrime_greatest_prime) simp

subsection \<open>Logarithm, square root and rounding\<close>

lemma log4_bounds: "0 < n \<Longrightarrow> 4 ^ log4 n \<le> n \<and> n < 4 ^ Suc (log4 n)"
proof (induction n rule: log4.induct)
  case (1 n)
  show ?case
  proof (cases "n < 4")
    case True
    then show ?thesis using "1.prems" by (simp add: log4.simps [of n])
  next
    case False
    then have "4 ^ log4 (n div 4) \<le> n div 4 \<and> n div 4 < 4 ^ Suc (log4 (n div 4))"
      using "1.IH" by simp
    moreover have "log4 n = Suc (log4 (n div 4))" using False by (subst log4.simps) simp
    ultimately show ?thesis by (auto simp: less_mult_imp_div_less)
  qed
qed

lemma log4_floor:
  assumes "0 < n"
  shows "\<lfloor>ln (real n + 0.5) / ln 4\<rfloor> = int (log4 n)"
proof -
  define k where "k = log4 n"
  have lo: "4 ^ k \<le> n" and hi: "n + 1 \<le> 4 ^ Suc k"
    using log4_bounds [OF assms] by (auto simp: k_def)
  have "real (4 ^ k) \<le> real n" using lo by (simp only: of_nat_le_iff)
  then have "4 ^ k \<le> real n" by (simp only: of_nat_power of_nat_numeral)
  then have a: "4 ^ k < real n + 0.5" by linarith
  have "real n + 1 \<le> real (4 ^ Suc k)" 
    using hi by (simp only: of_nat_le_iff [symmetric] of_nat_add of_nat_1)
  then have "real n + 1 \<le> 4 ^ Suc k" by (simp only: of_nat_power of_nat_numeral)
  then have b: "real n + 0.5 < 4 ^ Suc k" by linarith
  have pos: "0 < real n + 0.5" by simp
  have "real k * ln 4 = ln (4 ^ k)" by (simp add: ln_realpow)
  also have "\<dots> < ln (real n + 0.5)" using a by (subst ln_less_cancel_iff) auto
  finally have l: "real k * ln 4 < ln (real n + 0.5)" .
  have "ln (real n + 0.5) < ln (4 ^ Suc k)" using b pos by (subst ln_less_cancel_iff) auto
  also have "\<dots> = real (Suc k) * ln 4" by (simp only: ln_realpow)
  finally have h: "ln (real n + 0.5) < real (Suc k) * ln 4" .
  have "real k \<le> ln (real n + 0.5) / ln 4" using l by (simp add: field_simps)
  moreover have "ln (real n + 0.5) / ln 4 < real k + 1" using h by (simp add: field_simps)
  ultimately show ?thesis unfolding k_def [symmetric] by (intro floor_unique) simp_all
qed

lemma log4_4: "4 \<le> n \<Longrightarrow> 1 \<le> log4 n"
  by (subst log4.simps) simp

lemma isqrt_bounds: "isqrt n * isqrt n \<le> n \<and> n < Suc (isqrt n) * Suc (isqrt n)"
proof (induction n rule: isqrt.induct)
  case (1 n)
  show ?case
  proof (cases "n = 0")
    case True
    then show ?thesis by (simp add: isqrt.simps [of 0])
  next
    case False
    define s where "s = isqrt (n div 4)"
    have IH: "s * s \<le> n div 4" "n div 4 < Suc s * Suc s"
      using "1.IH" False by (auto simp: s_def)
    have i: "isqrt n = (if (2 * s + 1) * (2 * s + 1) \<le> n then 2 * s + 1 else 2 * s)"
      using False by (subst isqrt.simps) (simp add: s_def [symmetric] Let_def)
    have lo: "(2 * s) * (2 * s) \<le> n" using IH(1) by simp
    have "n < 4 * (Suc s * Suc s)" using IH(2) by (simp add: less_mult_imp_div_less div_less_iff_less_mult mult.commute)
    then have hi: "n < Suc (2 * s + 1) * Suc (2 * s + 1)" by (simp add: algebra_simps)
    show ?thesis using i lo hi by simp
  qed
qed

lemma isqrt_unique:
  assumes "k * k \<le> n" "n < Suc k * Suc k"
  shows "isqrt n = k"
proof (rule antisym)
  show "isqrt n \<le> k"
  proof (rule ccontr)
    assume "\<not> isqrt n \<le> k"
    then have "Suc k * Suc k \<le> isqrt n * isqrt n" by (intro mult_le_mono) simp_all
    with isqrt_bounds [of n] assms show False by linarith
  qed
  show "k \<le> isqrt n"
  proof (rule ccontr)
    assume "\<not> k \<le> isqrt n"
    then have "Suc (isqrt n) * Suc (isqrt n) \<le> k * k" by (intro mult_le_mono) simp_all
    with isqrt_bounds [of n] assms show False by linarith
  qed
qed

lemma isqrt_floor: "\<lfloor>sqrt (real n)\<rfloor> = int (isqrt n)"
proof (rule floor_unique)
  define k where "k = isqrt n"
  have "k * k \<le> n" "n < Suc k * Suc k" using isqrt_bounds [of n] by (auto simp: k_def)
  then have r: "real (k * k) \<le> real n" "real n < real (Suc k * Suc k)"
    by (simp_all only: of_nat_le_iff of_nat_less_iff)
  show "of_int (int k) \<le> sqrt (real n)"
    using r(1) by (intro real_le_rsqrt) (simp add: power2_eq_square)
  show "sqrt (real n) < of_int (int k) + 1"
    using r(2) by (intro real_less_lsqrt) (simp_all add: power2_eq_square algebra_simps)
qed

lemma isqrt_mult_square:
  assumes "0 < m"
  shows "isqrt a * m \<le> isqrt (a * (m * m))" "isqrt (a * (m * m)) < isqrt a * m + m"
proof -
  define k where "k = isqrt a"
  define j where "j = isqrt (a * (m * m))"
  have k: "k * k \<le> a" "a < Suc k * Suc k" using isqrt_bounds [of a] by (auto simp: k_def)
  have j: "j * j \<le> a * (m * m)" "a * (m * m) < Suc j * Suc j"
    using isqrt_bounds [of "a * (m * m)"] by (auto simp: j_def)
  show "k * m \<le> j"
  proof (rule ccontr)
    assume "\<not> k * m \<le> j"
    then have "Suc j * Suc j \<le> (k * m) * (k * m)" by (intro mult_le_mono) simp_all
    also have "\<dots> = (k * k) * (m * m)" by (simp add: algebra_simps)
    also have "\<dots> \<le> a * (m * m)" using k(1) by (rule mult_le_mono1)
    finally show False using j(2) by simp
  qed
  show "j < k * m + m"
  proof (rule ccontr)
    assume "\<not> j < k * m + m"
    then have "(Suc k * m) * (Suc k * m) \<le> j * j" by (intro mult_le_mono) simp_all
    also have "\<dots> \<le> a * (m * m)" by (rule j(1))
    finally have "(Suc k * Suc k) * (m * m) \<le> a * (m * m)" by (simp add: algebra_simps)
    then have "Suc k * Suc k \<le> a" using assms by (simp only: mult_le_cancel2) simp
    with k(2) show False by simp
  qed
qed

lemma roundUp_spec:
  assumes "0 < u" "x + u < 2 ^ 64"
  shows "\<exists>r. roundUp x u = Some r \<and> u dvd r \<and> x \<le> r \<and> r < x + u"
proof -
  define t where "t = x + u - 1"
  have t: "sz_sub (sz_add x u) 1 = t" using assms by (simp add: t_def)
  have tb: "t < 2 ^ 64" using assms by (simp add: t_def)
  have le: "t div u * u \<le> t" by simp
  have eq: "t = t div u * u + t mod u" by simp
  have md: "t mod u < u" using assms by simp
  have "x \<le> t div u * u" "t div u * u < x + u"
    using eq md assms unfolding t_def by linarith+
  moreover have "t div u * u mod 2 ^ 64 = t div u * u"
    using le tb by (intro mod_less) linarith
  ultimately have "roundUp x u = Some (t div u * u) \<and> u dvd t div u * u \<and> x \<le> t div u * u \<and>
      t div u * u < x + u"
    using assms(1) by (simp only: roundUp_def t) simp
  then show ?thesis by blast
qed

end
