(* ===== verification/Free_Block.thy ===== *)
theory Free_Block
  imports Math_Util
begin

text \<open>
  src/storage/pq/FreeBlock.h and FreeBlock.cpp: the arena from which the three skip lists of the
  queue index draw their towers. An arena is an array of \<open>size_t\<close> cells cut into blocks; the free
  blocks of \<open>level + 1\<close> cells form a singly linked list per level, threaded through the first cell
  of each block. An extra level \<open>maxsize_\<close> holds spare blocks of \<open>maxsize_\<close> cells.

  The abstract view is a partial map from block starts to block sizes, the blocks handed out and
  not yet returned. \<open>fb_inv fb A\<close> says that \<open>fb\<close> is a well-formed arena whose allocated blocks are
  \<open>A\<close>: no two blocks, free or allocated, share a cell.
\<close>

subsection \<open>State\<close>

definition FB_MAGIC :: nat where "FB_MAGIC = 0x54514642"

definition FB_MAX_LEVELS :: nat where "FB_MAX_LEVELS = 15"

definition FBLK_NONE :: nat where "FBLK_NONE = SIZE_NONE"

record FreeBlock =
  fb_magic :: nat
  maxsize :: nat
  arena_sz :: nat
  avail :: nat
  allocated :: nat
  fb_nfree :: "nat list"
  fb_free :: "nat list"
  fblks :: "nat list"

text \<open>The static variables of \<open>GetRandomLevel\<close>; \<open>xsubi\<close> is the 48-bit state of \<open>nrand48\<close>.\<close>

record rng =
  randomsLeft :: int
  randomBits :: nat
  xsubi :: nat

subsection \<open>Random levels\<close>

definition nrand48 :: "nat \<Rightarrow> nat \<times> nat" where
  "nrand48 x = (let x' = (0x5DEECE66D * x + 0xB) mod 2 ^ 48 in (x' div 2 ^ 17, x'))"

definition rng_init :: rng where
  "rng_init = \<lparr>randomsLeft = 0, randomBits = 0,
     xsubi = 0xf1c4 + 0x8c4e * 2 ^ 16 + 0xda48 * 2 ^ 32\<rparr>"

definition rng_refill :: "rng \<Rightarrow> rng" where
  "rng_refill r =
     (let r1 = r\<lparr>randomsLeft := randomsLeft r - 1\<rparr>
      in if randomsLeft r1 \<le> 0
         then (let (bits, x') = nrand48 (xsubi r1)
               in r1\<lparr>randomBits := bits, randomsLeft := 31 div 2, xsubi := x'\<rparr>)
         else r1)"

function GetRandomLevel_loop :: "nat \<Rightarrow> nat \<Rightarrow> rng \<Rightarrow> nat \<times> rng" where
  "GetRandomLevel_loop ms level r =
     (if level < ms - 1 then
        (let r1 = rng_refill r
         in if randomBits r1 mod 4 \<noteq> 0 then (level, r1)
            else GetRandomLevel_loop ms (Suc level) (r1\<lparr>randomBits := randomBits r1 div 4\<rparr>))
      else (level, r))"
  by pat_completeness auto
termination
  by (relation "measure (\<lambda>(ms, level, r). ms - level)") auto

definition GetRandomLevel :: "FreeBlock \<Rightarrow> rng \<Rightarrow> nat \<times> rng" where
  "GetRandomLevel fb r = GetRandomLevel_loop (maxsize fb) 0 r"

subsection \<open>Sizes and formatting\<close>

definition next_numblks :: "nat \<Rightarrow> nat" where
  "next_numblks n = (if n \<ge> 4 then n div 4 else 1)"

fun GetArenaSize_loop :: "nat \<Rightarrow> nat \<Rightarrow> nat \<Rightarrow> nat \<Rightarrow> nat" where
  "GetArenaSize_loop 0 level numblks tot = tot"
| "GetArenaSize_loop (Suc todo) level numblks tot =
     GetArenaSize_loop todo (Suc level) (next_numblks numblks) (tot + (level + 1) * numblks)"

text \<open>\<open>3 * sqrt n * log4 n * maxsize\<close>, truncated, is the integer square root of its square.\<close>

definition GetArenaSize :: "nat \<Rightarrow> nat" where
  "GetArenaSize nelems =
     (let ms = log4 nelems + 1
      in GetArenaSize_loop ms 0 (3 * nelems div 4) 0 +
         isqrt (9 * nelems * log4 nelems * log4 nelems * (ms * ms)))"

fun InitLevel_loop :: "nat \<Rightarrow> nat \<Rightarrow> nat \<Rightarrow> nat list \<Rightarrow> (nat \<times> nat list) option" where
  "InitLevel_loop 0 blksize off bs = Some (off, bs)"
| "InitLevel_loop (Suc i) blksize off bs =
     do { bs' \<leftarrow> wr bs off (off + blksize); InitLevel_loop i blksize (off + blksize) bs' }"

definition InitLevel :: "nat \<Rightarrow> nat \<Rightarrow> nat \<Rightarrow> nat \<Rightarrow> FreeBlock \<Rightarrow> (nat \<times> FreeBlock) option" where
  "InitLevel offset level blksize numblks fb = do {
     log_assert (level \<le> maxsize fb);
     log_assert (blksize > 0 \<and> blksize \<ge> level);
     log_assert (numblks > 0);
     fr \<leftarrow> wr (fb_free fb) level offset;
     (off, bs) \<leftarrow> InitLevel_loop (numblks - 1) blksize offset (fblks fb);
     bs' \<leftarrow> wr bs off FBLK_NONE;
     nf \<leftarrow> wr (fb_nfree fb) level numblks;
     Some (off + blksize,
           fb\<lparr>fb_free := fr, fblks := bs', fb_nfree := nf, avail := sz_add (avail fb) numblks\<rparr>) }"

fun InitLevels :: "nat \<Rightarrow> nat \<Rightarrow> nat \<Rightarrow> nat \<Rightarrow> FreeBlock \<Rightarrow> (nat \<times> FreeBlock) option" where
  "InitLevels 0 level numblks offset fb = Some (offset, fb)"
| "InitLevels (Suc todo) level numblks offset fb = do {
     (offset', fb') \<leftarrow> InitLevel offset level (level + 1) numblks fb;
     InitLevels todo (Suc level) (next_numblks numblks) offset' fb' }"

definition FreeBlock_Initialize :: "nat \<Rightarrow> FreeBlock \<Rightarrow> FreeBlock option" where
  "FreeBlock_Initialize nalloc fb = do {
     let fb1 = fb\<lparr>fb_magic := FB_MAGIC\<rparr>;
     log_assert (nalloc > 0);
     let ms = log4 nalloc + 1;
     log_assert (ms < FB_MAX_LEVELS);
     let fblk_sz = GetArenaSize nalloc;
     log_assert (fblk_sz \<le> length (fblks fb1)); \<comment> \<open>the fill loop stays inside the arena\<close>
     let fb2 = fb1\<lparr>maxsize := ms,
                    fblks := replicate fblk_sz FBLK_NONE @ drop fblk_sz (fblks fb1),
                    allocated := 0, avail := 0\<rparr>;
     (offset, fb3) \<leftarrow> InitLevels ms 0 (3 * nalloc div 4) 0 fb2;
     (offset', fb4) \<leftarrow> InitLevel offset ms ms (isqrt (9 * nalloc * log4 nalloc * log4 nalloc)) fb3;
     log_assert (fblk_sz \<ge> offset' \<and> fblk_sz < offset' + ms);
     Some (fb4\<lparr>arena_sz := offset'\<rparr>) }"

subsection \<open>Allocation\<close>

definition FreeBlock_Release :: "nat \<Rightarrow> nat \<Rightarrow> FreeBlock \<Rightarrow> FreeBlock option" where
  "FreeBlock_Release sz fblk fb = do {
     log_assert (0 < sz \<and> sz \<le> maxsize fb);
     log_assert (fblk < arena_sz fb);
     let level = sz - 1;
     head \<leftarrow> rd (fb_free fb) level;
     bs \<leftarrow> wr (fblks fb) fblk head;
     fr \<leftarrow> wr (fb_free fb) level fblk;
     n \<leftarrow> rd (fb_nfree fb) level;
     nf \<leftarrow> wr (fb_nfree fb) level (sz_inc n);
     Some (fb\<lparr>fblks := bs, fb_free := fr, fb_nfree := nf,
              avail := sz_inc (avail fb), allocated := sz_dec (allocated fb)\<rparr>) }"

definition FreeBlock_take :: "nat \<Rightarrow> nat \<Rightarrow> FreeBlock \<Rightarrow> (nat \<times> FreeBlock) option" where
  "FreeBlock_take wantSize level fb = do {
     fblk \<leftarrow> rd (fb_free fb) level;
     log_assert (fblk \<noteq> FBLK_NONE);
     log_assert (fblk < arena_sz fb);
     nxt \<leftarrow> rd (fblks fb) fblk;
     fr \<leftarrow> wr (fb_free fb) level nxt;
     n \<leftarrow> rd (fb_nfree fb) level;
     log_assert (n > 0);
     nf \<leftarrow> wr (fb_nfree fb) level (sz_dec n);
     log_assert (avail fb > 0);
     let fb1 = fb\<lparr>fb_free := fr, fb_nfree := nf,
                   avail := sz_dec (avail fb), allocated := sz_inc (allocated fb)\<rparr>;
     let gotSize = level + 1;
     if level < maxsize fb \<and> wantSize < gotSize
     then do {
       fb2 \<leftarrow> FreeBlock_Release (gotSize - wantSize) (fblk + wantSize) fb1;
       Some (fblk, fb2\<lparr>allocated := sz_inc (allocated fb2)\<rparr>) }
     else Some (fblk, fb1) }"

function FreeBlock_Get_loop :: "nat \<Rightarrow> nat \<Rightarrow> FreeBlock \<Rightarrow> (nat \<times> FreeBlock) option" where
  "FreeBlock_Get_loop wantSize level fb =
     (if level \<le> maxsize fb then do {
        n \<leftarrow> rd (fb_nfree fb) level;
        if n > 0 then FreeBlock_take wantSize level fb
        else FreeBlock_Get_loop wantSize (Suc level) fb }
      else Some (FBLK_NONE, fb))"
  by pat_completeness auto
termination
  by (relation "measure (\<lambda>(w, level, fb). Suc (maxsize fb) - level)") auto

definition FreeBlock_Get :: "nat \<Rightarrow> FreeBlock \<Rightarrow> (nat \<times> FreeBlock) option" where
  "FreeBlock_Get level fb = do {
     log_assert (level < maxsize fb);
     FreeBlock_Get_loop (level + 1) level fb }"

declare GetRandomLevel_loop.simps [simp del] FreeBlock_Get_loop.simps [simp del]

subsection \<open>Well-formed arenas\<close>

definition blk_cells :: "nat \<Rightarrow> nat \<Rightarrow> nat" where
  "blk_cells ms l = (if l < ms then l + 1 else ms)"

definition apart :: "nat \<Rightarrow> nat \<Rightarrow> nat \<Rightarrow> nat \<Rightarrow> bool" where
  "apart s n t m \<longleftrightarrow> s + n \<le> t \<or> t + m \<le> s"

text \<open>The list \<open>fl l\<close> holds the starts of the free blocks of level \<open>l\<close>, in list order.\<close>

definition fb_core :: "FreeBlock \<Rightarrow> (nat \<Rightarrow> nat list) \<Rightarrow> (nat \<rightharpoonup> nat) \<Rightarrow> bool" where
  "fb_core fb fl A \<longleftrightarrow>
     0 < maxsize fb \<and> maxsize fb < FB_MAX_LEVELS \<and>
     length (fb_nfree fb) = FB_MAX_LEVELS \<and> length (fb_free fb) = FB_MAX_LEVELS \<and>
     arena_sz fb \<le> length (fblks fb) \<and> length (fblks fb) < SIZE_NONE \<and>
     (\<forall>l \<le> maxsize fb. chain ((!) (fblks fb)) (fb_free fb ! l) (fl l) \<and>
        fb_nfree fb ! l = length (fl l)) \<and>
     avail fb = (\<Sum>l \<le> maxsize fb. length (fl l)) \<and>
     (\<forall>l \<le> maxsize fb. \<forall>s \<in> set (fl l). s + blk_cells (maxsize fb) l \<le> arena_sz fb) \<and>
     (\<forall>t n. A t = Some n \<longrightarrow> 0 < n \<and> t + n \<le> arena_sz fb) \<and>
     (\<forall>l \<le> maxsize fb. \<forall>s \<in> set (fl l). \<forall>l' \<le> maxsize fb. \<forall>s' \<in> set (fl l').
        (l, s) \<noteq> (l', s') \<longrightarrow>
        apart s (blk_cells (maxsize fb) l) s' (blk_cells (maxsize fb) l')) \<and>
     (\<forall>l \<le> maxsize fb. \<forall>s \<in> set (fl l). \<forall>t n. A t = Some n \<longrightarrow>
        apart s (blk_cells (maxsize fb) l) t n) \<and>
     (\<forall>t n t' n'. A t = Some n \<longrightarrow> A t' = Some n' \<longrightarrow> t \<noteq> t' \<longrightarrow> apart t n t' n')"

definition fb_inv :: "FreeBlock \<Rightarrow> (nat \<rightharpoonup> nat) \<Rightarrow> bool" where
  "fb_inv fb A \<longleftrightarrow> fb_magic fb = FB_MAGIC \<and> (\<exists>fl. fb_core fb fl A) \<and> allocated fb = card (dom A)"

text \<open>Cells of the allocated blocks keep their contents.\<close>

definition same_cells :: "(nat \<rightharpoonup> nat) \<Rightarrow> FreeBlock \<Rightarrow> FreeBlock \<Rightarrow> bool" where
  "same_cells A fb fb' \<longleftrightarrow>
     length (fblks fb') = length (fblks fb) \<and> maxsize fb' = maxsize fb \<and> arena_sz fb' = arena_sz fb \<and>
     (\<forall>t n i. A t = Some n \<longrightarrow> t \<le> i \<longrightarrow> i < t + n \<longrightarrow> fblks fb' ! i = fblks fb ! i)"

lemma apart_swap: "apart s n t m \<Longrightarrow> apart t m s n"
  by (auto simp: apart_def)

lemma apart_sub: "apart s n t m \<Longrightarrow> s \<le> s' \<Longrightarrow> s' + n' \<le> s + n \<Longrightarrow> apart s' n' t m"
  by (auto simp: apart_def)

lemma blk_cells_pos: "0 < ms \<Longrightarrow> 0 < blk_cells ms l"
  by (simp add: blk_cells_def)

lemma fb_coreD:
  assumes "fb_core fb fl A"
  shows "0 < maxsize fb" "maxsize fb < FB_MAX_LEVELS"
    "length (fb_nfree fb) = FB_MAX_LEVELS" "length (fb_free fb) = FB_MAX_LEVELS"
    "arena_sz fb \<le> length (fblks fb)" "length (fblks fb) < SIZE_NONE"
    "l \<le> maxsize fb \<Longrightarrow> chain ((!) (fblks fb)) (fb_free fb ! l) (fl l)"
    "l \<le> maxsize fb \<Longrightarrow> fb_nfree fb ! l = length (fl l)"
    "avail fb = (\<Sum>l \<le> maxsize fb. length (fl l))"
    "l \<le> maxsize fb \<Longrightarrow> s \<in> set (fl l) \<Longrightarrow> s + blk_cells (maxsize fb) l \<le> arena_sz fb"
    "A t = Some n \<Longrightarrow> 0 < n \<and> t + n \<le> arena_sz fb"
    "l \<le> maxsize fb \<Longrightarrow> s \<in> set (fl l) \<Longrightarrow> l' \<le> maxsize fb \<Longrightarrow> s' \<in> set (fl l') \<Longrightarrow>
       (l, s) \<noteq> (l', s') \<Longrightarrow> apart s (blk_cells (maxsize fb) l) s' (blk_cells (maxsize fb) l')"
    "l \<le> maxsize fb \<Longrightarrow> s \<in> set (fl l) \<Longrightarrow> A t = Some n \<Longrightarrow>
       apart s (blk_cells (maxsize fb) l) t n"
    "A t = Some n \<Longrightarrow> A t' = Some n' \<Longrightarrow> t \<noteq> t' \<Longrightarrow> apart t n t' n'"
  using assms unfolding fb_core_def by blast+

lemma fb_free_distinct: "fb_core fb fl A \<Longrightarrow> l \<le> maxsize fb \<Longrightarrow> distinct (fl l)"
  by (blast intro: chain_distinct fb_coreD(7))

lemma fb_free_lt:
  assumes "fb_core fb fl A" "l \<le> maxsize fb" "s \<in> set (fl l)"
  shows "s < arena_sz fb"
  using fb_coreD(10) [OF assms] blk_cells_pos [OF fb_coreD(1) [OF assms(1)], of l] by linarith

lemma fb_avail_card:
  assumes "fb_core fb fl A"
  shows "avail fb = card (\<Union>l \<le> maxsize fb. set (fl l))"
proof -
  have dj: "set (fl l) \<inter> set (fl l') = {}" if "l \<le> maxsize fb" "l' \<le> maxsize fb" "l \<noteq> l'" for l l'
  proof -
    have "s \<notin> set (fl l')" if s: "s \<in> set (fl l)" for s
    proof
      assume "s \<in> set (fl l')"
      with s \<open>l \<le> maxsize fb\<close> \<open>l' \<le> maxsize fb\<close> \<open>l \<noteq> l'\<close>
      have "apart s (blk_cells (maxsize fb) l) s (blk_cells (maxsize fb) l')"
        by (intro fb_coreD(12) [OF assms]) auto
      then show False
        using blk_cells_pos [OF fb_coreD(1) [OF assms], of l]
          blk_cells_pos [OF fb_coreD(1) [OF assms], of l'] by (simp add: apart_def)
    qed
    then show ?thesis by blast
  qed
  have "card (\<Union>l \<le> maxsize fb. set (fl l)) = (\<Sum>l \<le> maxsize fb. card (set (fl l)))"
    by (rule card_UN_disjoint) (use dj in auto)
  also have "\<dots> = (\<Sum>l \<le> maxsize fb. length (fl l))"
    by (intro sum.cong) (auto simp: distinct_card fb_free_distinct [OF assms])
  finally show ?thesis using fb_coreD(9) [OF assms] by simp
qed

lemma fb_avail_le:
  assumes "fb_core fb fl A"
  shows "avail fb \<le> arena_sz fb"
proof -
  have "(\<Union>l \<le> maxsize fb. set (fl l)) \<subseteq> {..<arena_sz fb}"
    using fb_free_lt [OF assms] by auto
  then have "card (\<Union>l \<le> maxsize fb. set (fl l)) \<le> card {..<arena_sz fb}"
    by (intro card_mono) auto
  then show ?thesis by (simp add: fb_avail_card [OF assms])
qed

lemma fb_alloc_dom:
  assumes "fb_core fb fl A"
  shows "dom A \<subseteq> {..<arena_sz fb}"
  using fb_coreD(11) [OF assms] by fastforce

lemma fb_alloc_finite [simp]: "fb_core fb fl A \<Longrightarrow> finite (dom A)"
  by (rule finite_subset [OF fb_alloc_dom]) auto

lemma fb_alloc_card_le: "fb_core fb fl A \<Longrightarrow> card (dom A) \<le> arena_sz fb"
  using card_mono [OF _ fb_alloc_dom] by fastforce

lemma fb_arena_lt: "fb_core fb fl A \<Longrightarrow> arena_sz fb < 2 ^ 64 - 1"
  using fb_coreD(5,6) [of fb fl A] by (simp add: SIZE_NONE_def)

lemma fb_nfree_le:
  assumes "fb_core fb fl A" "l \<le> maxsize fb"
  shows "fb_nfree fb ! l \<le> arena_sz fb"
proof -
  have "length (fl l) = card (set (fl l))"
    using fb_free_distinct [OF assms] by (simp add: distinct_card)
  also have "\<dots> \<le> card {..<arena_sz fb}"
    using fb_free_lt [OF assms] by (intro card_mono) auto
  finally show ?thesis using fb_coreD(8) [OF assms] by simp
qed

text \<open>The three elementary moves behind \<open>Get\<close> and \<open>Release\<close>.\<close>

lemma sum_upd_list:
  assumes "l \<le> (m::nat)"
  shows "(\<Sum>i \<le> m. length ((fl(l := ys)) i)) + length (fl l) = (\<Sum>i \<le> m. length (fl i)) + length ys"
proof -
  have "(\<Sum>i \<le> m. length ((fl(l := ys)) i)) = length ys + (\<Sum>i \<in> {..m} - {l}. length (fl i))"
    using assms by (subst sum.remove [of _ l]) (auto intro!: sum.cong)
  moreover have "(\<Sum>i \<le> m. length (fl i)) = length (fl l) + (\<Sum>i \<in> {..m} - {l}. length (fl i))"
    using assms by (subst sum.remove [of _ l]) auto
  ultimately show ?thesis by simp
qed

lemma fb_core_pop:
  assumes core: "fb_core fb fl A" and l: "l \<le> maxsize fb" and fl: "fl l = s # rest"
  shows "fb_core (fb\<lparr>fb_free := (fb_free fb)[l := fblks fb ! s],
                     fb_nfree := (fb_nfree fb)[l := length rest],
                     avail := avail fb - 1, allocated := x\<rparr>)
                 (fl(l := rest)) (A(s \<mapsto> blk_cells (maxsize fb) l))"
proof -
  note D = fb_coreD [OF core]
  let ?ms = "maxsize fb"
  have sl: "s \<in> set (fl l)" by (simp add: fl)
  have dist: "s \<notin> set rest" using fb_free_distinct [OF core l] by (simp add: fl)
  have sub: "set ((fl(l := rest)) k) \<subseteq> set (fl k)" for k by (auto simp: fl)
  have other: "(l, s) \<noteq> (k, t)" if "t \<in> set ((fl(l := rest)) k)" for k t
    using that dist by auto
  have ch: "chain ((!) (fblks fb)) ((fb_free fb)[l := fblks fb ! s] ! k) ((fl(l := rest)) k) \<and>
      (fb_nfree fb)[l := length rest] ! k = length ((fl(l := rest)) k)" if "k \<le> ?ms" for k
    using D(7,8) [OF that] D(2-4) l D(7) [OF l] fl by (auto simp: nth_list_update)
  have av: "avail fb - 1 = (\<Sum>k \<le> ?ms. length ((fl(l := rest)) k))"
    using sum_upd_list [OF l, of fl rest] D(9) by (simp add: fl)
  have in_arena: "t + blk_cells ?ms k \<le> arena_sz fb" if "k \<le> ?ms" "t \<in> set ((fl(l := rest)) k)" for k t
    using D(10) that sub by blast
  have pos: "0 < n \<and> t + n \<le> arena_sz fb" if "(A(s \<mapsto> blk_cells ?ms l)) t = Some n" for t n
    using that D(10) [OF l sl] D(11) blk_cells_pos [OF D(1), of l] by (auto split: if_splits)
  have ff: "apart t (blk_cells ?ms k) t' (blk_cells ?ms k')"
    if "k \<le> ?ms" "t \<in> set ((fl(l := rest)) k)" "k' \<le> ?ms" "t' \<in> set ((fl(l := rest)) k')" "(k, t) \<noteq> (k', t')"
    for k t k' t'
    by (rule D(12)) (use that sub in blast)+
  have fa: "apart t (blk_cells ?ms k) u n"
    if "k \<le> ?ms" "t \<in> set ((fl(l := rest)) k)" "(A(s \<mapsto> blk_cells ?ms l)) u = Some n" for k t u n
  proof (cases "u = s")
    case True
    then have "apart s (blk_cells ?ms l) t (blk_cells ?ms k)"
      using that sub other by (intro D(12) [OF l sl]) blast+
    with True that show ?thesis by (auto intro: apart_swap)
  next
    case False
    with that sub show ?thesis by (intro D(13)) auto
  qed
  have aa: "apart t n t' n'"
    if "(A(s \<mapsto> blk_cells ?ms l)) t = Some n" "(A(s \<mapsto> blk_cells ?ms l)) t' = Some n'" "t \<noteq> t'" for t n t' n'
    using that D(13) [OF l sl] D(14) by (auto intro: apart_swap split: if_splits)
  show ?thesis unfolding fb_core_def
    using D(1-6) ch av in_arena pos ff fa aa by simp
qed

lemma fb_core_split:
  assumes core: "fb_core fb fl A" and A: "A s = Some n" and k: "0 < k" "k < n"
  shows "fb_core fb fl (A(s \<mapsto> k, s + k \<mapsto> n - k))"
proof -
  note D = fb_coreD [OF core]
  let ?A = "A(s \<mapsto> k, s + k \<mapsto> n - k)"
  define own where "own t = (if t = s + k then s else t)" for t
  have cover: "\<exists>m. A (own t) = Some m \<and> own t \<le> t \<and> t + i \<le> own t + m \<and> 0 < i"
    if "?A t = Some i" for t i
    using that A k D(11) [of t i] by (auto simp: own_def split: if_splits)
  have pos: "0 < i \<and> t + i \<le> arena_sz fb" if t: "?A t = Some i" for t i
    using cover [OF t] D(11) by (meson le_trans)
  have fa: "apart f (blk_cells (maxsize fb) l) t i"
    if "l \<le> maxsize fb" "f \<in> set (fl l)" and t: "?A t = Some i" for l f t i
    using cover [OF t] D(13) [OF that(1,2)] by (meson apart_sub apart_swap)
  have aa: "apart t i t' i'" if t: "?A t = Some i" and t': "?A t' = Some i'" and "t \<noteq> t'" for t i t' i'
  proof (cases "own t = own t'")
    case False
    obtain m m' where "A (own t) = Some m" "own t \<le> t" "t + i \<le> own t + m"
        "A (own t') = Some m'" "own t' \<le> t'" "t' + i' \<le> own t' + m'"
      using cover [OF t] cover [OF t'] by blast
    moreover from this False have "apart (own t) m (own t') m'" using D(14) by blast
    ultimately show ?thesis by (meson apart_sub apart_swap)
  next
    case True
    with \<open>t \<noteq> t'\<close> have "t = s \<and> t' = s + k \<or> t = s + k \<and> t' = s"
      by (auto simp: own_def split: if_splits)
    with t t' k show ?thesis by (auto simp: apart_def)
  qed
  show ?thesis unfolding fb_core_def
    using D(1-10,12) pos fa aa by simp
qed

lemma fb_alloc_not_free:
  assumes "fb_core fb fl A" "A s = Some n" "k \<le> maxsize fb"
  shows "s \<notin> set (fl k)"
proof
  assume "s \<in> set (fl k)"
  then have "apart s (blk_cells (maxsize fb) k) s n" using fb_coreD(13) [OF assms(1)] assms by blast
  then show False
    using blk_cells_pos [OF fb_coreD(1) [OF assms(1)], of k] fb_coreD(11) [OF assms(1,2)]
    by (simp add: apart_def)
qed

lemma fb_core_push:
  assumes core: "fb_core fb fl A" and A: "A s = Some n"
    and z: "0 < z" "z \<le> n" "z \<le> maxsize fb"
  shows "fb_core (fb\<lparr>fblks := (fblks fb)[s := fb_free fb ! (z - 1)],
                     fb_free := (fb_free fb)[z - 1 := s],
                     fb_nfree := (fb_nfree fb)[z - 1 := Suc (fb_nfree fb ! (z - 1))],
                     avail := Suc (avail fb), allocated := x\<rparr>)
                 (fl(z - 1 := s # fl (z - 1))) (A(s := None))"
proof -
  note D = fb_coreD [OF core]
  let ?ms = "maxsize fb" and ?l = "z - 1" and ?fl = "fl(z - 1 := s # fl (z - 1))"
  have l: "?l \<le> ?ms" and bl: "blk_cells ?ms ?l = z" using z by (auto simp: blk_cells_def)
  have sn: "s + n \<le> arena_sz fb" using D(11) A by blast
  have s_lt: "s < length (fblks fb)" using sn z D(5) by linarith
  have s_nn: "s \<noteq> SIZE_NONE" using s_lt D(6) by simp
  have notin: "s \<notin> set (fl k)" if "k \<le> ?ms" for k by (rule fb_alloc_not_free [OF core A that])
  have old: "chain ((!) ((fblks fb)[s := v])) p (fl k)" if "k \<le> ?ms" "chain ((!) (fblks fb)) p (fl k)" for k p v
    by (rule chain_cong [OF that(2)]) (metis notin that(1) nth_list_update_neq)
  have ch: "chain ((!) ((fblks fb)[s := fb_free fb ! ?l])) ((fb_free fb)[?l := s] ! k) (?fl k) \<and>
      (fb_nfree fb)[?l := Suc (fb_nfree fb ! ?l)] ! k = length (?fl k)" if "k \<le> ?ms" for k
    using D(7,8) [OF that] D(2-4) D(7,8) [OF l] l old s_lt s_nn that by (auto simp: nth_list_update)
  have av: "Suc (avail fb) = (\<Sum>k \<le> ?ms. length (?fl k))"
    using sum_upd_list [OF l, of fl "s # fl ?l"] D(9) by simp
  have cases: "t \<in> set (fl k) \<or> k = ?l \<and> t = s" if "t \<in> set (?fl k)" for t k
    using that by (auto split: if_splits)
  have in_arena: "t + blk_cells ?ms k \<le> arena_sz fb" if "k \<le> ?ms" "t \<in> set (?fl k)" for k t
    using D(10) that(1) cases [OF that(2)] sn z bl by auto
  have new: "apart s z t (blk_cells ?ms k)" if "k \<le> ?ms" "t \<in> set (fl k)" for k t
    using D(13) [OF that A] z apart_sub apart_swap by (meson add_le_cancel_left le_refl)
  have ff: "apart t (blk_cells ?ms k) t' (blk_cells ?ms k')"
    if "k \<le> ?ms" "t \<in> set (?fl k)" "k' \<le> ?ms" "t' \<in> set (?fl k')" "(k, t) \<noteq> (k', t')" for k t k' t'
    using cases [OF that(2)] cases [OF that(4)] that(1,3,5) D(12) new bl apart_swap by (metis (full_types))
  have old_a: "A u = Some m \<and> u \<noteq> s" if "(A(s := None)) u = Some m" for u m
    using that by (auto split: if_splits)
  have fa: "apart t (blk_cells ?ms k) u m"
    if "k \<le> ?ms" "t \<in> set (?fl k)" "(A(s := None)) u = Some m" for k t u m
  proof (cases "t \<in> set (fl k)")
    case True
    with that(1) old_a [OF that(3)] show ?thesis by (intro D(13)) auto
  next
    case False
    with cases [OF that(2)] have "k = ?l" "t = s" by auto
    moreover have "apart s n u m" using D(14) A old_a [OF that(3)] by auto
    ultimately show ?thesis using bl z by (auto intro: apart_sub)
  qed
  have pos: "0 < m \<and> t + m \<le> arena_sz fb" if "(A(s := None)) t = Some m" for t m
    using old_a [OF that] D(11) by blast
  have aa: "apart t m t' m'"
    if "(A(s := None)) t = Some m" "(A(s := None)) t' = Some m'" "t \<noteq> t'" for t m t' m'
    using old_a [OF that(1)] old_a [OF that(2)] that(3) D(14) by blast
  show ?thesis unfolding fb_core_def
    using D(1-6) ch av in_arena pos ff fa aa by simp
qed

lemma FreeBlock_Release_core:
  assumes core: "fb_core fb fl A" and A: "A s = Some n"
    and z: "0 < z" "z \<le> n" "z \<le> maxsize fb"
  shows "FreeBlock_Release z s fb =
           Some (fb\<lparr>fblks := (fblks fb)[s := fb_free fb ! (z - 1)],
                     fb_free := (fb_free fb)[z - 1 := s],
                     fb_nfree := (fb_nfree fb)[z - 1 := Suc (fb_nfree fb ! (z - 1))],
                     avail := Suc (avail fb), allocated := sz_dec (allocated fb)\<rparr>)"
proof -
  note D = fb_coreD [OF core]
  have s: "s < arena_sz fb" using D(11) [OF A] z by linarith
  have l: "z - 1 \<le> maxsize fb" using z by simp
  have "fb_nfree fb ! (z - 1) + 1 < 2 ^ 64" "avail fb + 1 < 2 ^ 64"
    using fb_nfree_le [OF core l] fb_avail_le [OF core] fb_arena_lt [OF core] by linarith+
  then show ?thesis
    using z s D(2-5) by (simp add: FreeBlock_Release_def Let_def)
qed

lemma same_cells_trans:
  "same_cells A fb fb1 \<Longrightarrow> same_cells A fb1 fb2 \<Longrightarrow> same_cells A fb fb2"
  by (auto simp: same_cells_def)

lemma FreeBlock_Release_spec:
  assumes inv: "fb_inv fb A" and A: "A s = Some n"
    and z: "0 < z" "z \<le> n" "z \<le> maxsize fb"
  shows "\<exists>fb'. FreeBlock_Release z s fb = Some fb' \<and> fb_inv fb' (A(s := None)) \<and>
               same_cells (A(s := None)) fb fb'"
proof -
  obtain fl where core: "fb_core fb fl A" and al: "allocated fb = card (dom A)" and mg: "fb_magic fb = FB_MAGIC"
    using inv by (auto simp: fb_inv_def)
  have "card (dom A) < 2 ^ 64" "0 < card (dom A)"
    using fb_alloc_card_le [OF core] fb_arena_lt [OF core] A
    by (auto simp: card_gt_0_iff fb_alloc_finite [OF core])
  then have dec: "sz_dec (allocated fb) = card (dom (A(s := None)))"
    using A fb_alloc_finite [OF core] by (simp add: al dom_fun_upd card_Diff_singleton domI)
  have same: "\<not> (t \<le> s \<and> s < t + m)" if "(A(s := None)) t = Some m" for t m
  proof -
    from that have t: "A t = Some m" "t \<noteq> s" by (auto split: if_splits)
    then have "apart t m s n" using fb_coreD(14) [OF core] A by blast
    then show ?thesis using fb_coreD(11) [OF core A] by (auto simp: apart_def)
  qed
  have cells: "(fblks fb)[s := v] ! i = fblks fb ! i"
    if "(A(s := None)) t = Some m" "t \<le> i" "i < t + m" for t m i v
    using same [OF that(1)] that(2,3) by (metis nth_list_update_neq)
  show ?thesis
    unfolding FreeBlock_Release_core [OF core A z] dec
    using fb_core_push [OF core A z] mg cells
    by (auto simp: fb_inv_def same_cells_def simp del: fun_upd_apply)
qed

lemma FreeBlock_take_eq:
  assumes core: "fb_core fb fl A" and al: "allocated fb = card (dom A)"
    and l: "l \<le> maxsize fb" and fl: "fl l = s # rest"
  defines "fb1 \<equiv> fb\<lparr>fb_free := (fb_free fb)[l := fblks fb ! s],
                     fb_nfree := (fb_nfree fb)[l := length rest],
                     avail := avail fb - 1, allocated := Suc (card (dom A))\<rparr>"
  shows "FreeBlock_take w l fb =
           (if l < maxsize fb \<and> w < l + 1
            then do { fb2 \<leftarrow> FreeBlock_Release (l + 1 - w) (s + w) fb1;
                      Some (s, fb2\<lparr>allocated := sz_inc (allocated fb2)\<rparr>) }
            else Some (s, fb1))"
proof -
  note D = fb_coreD [OF core]
  have sl: "s \<in> set (fl l)" by (simp add: fl)
  have s: "s < arena_sz fb" by (rule fb_free_lt [OF core l sl])
  have fr: "fb_free fb ! l = s" "s \<noteq> SIZE_NONE" using D(7) [OF l] by (auto simp: fl)
  have nf: "fb_nfree fb ! l = Suc (length rest)" using D(8) [OF l] by (simp add: fl)
  have b: "fb_nfree fb ! l < 2 ^ 64" "avail fb < 2 ^ 64" "card (dom A) + 1 < 2 ^ 64"
    using fb_nfree_le [OF core l] fb_avail_le [OF core] fb_alloc_card_le [OF core] fb_arena_lt [OF core]
    by linarith+
  have "length (fl l) \<le> (\<Sum>k \<le> maxsize fb. length (fl k))"
    using l by (intro member_le_sum) auto
  then have av: "0 < avail fb" using D(9) by (simp add: fl)
  show ?thesis
    using l s fr nf b av D(2-5) unfolding fb1_def
    by (simp add: FreeBlock_take_def FBLK_NONE_def al Let_def)
qed

lemma FreeBlock_take_spec:
  assumes core: "fb_core fb fl A" and al: "allocated fb = card (dom A)" and mg: "fb_magic fb = FB_MAGIC"
    and l: "l \<le> maxsize fb" and fl: "fl l = s # rest" and w: "0 < w" "w \<le> l + 1" "w \<le> maxsize fb"
  shows "\<exists>fb' n. FreeBlock_take w l fb = Some (s, fb') \<and> fb_inv fb' (A(s \<mapsto> n)) \<and>
                 w \<le> n \<and> n \<le> maxsize fb \<and> A s = None \<and> same_cells A fb fb'"
proof -
  note D = fb_coreD [OF core]
  define fb1 where "fb1 = fb\<lparr>fb_free := (fb_free fb)[l := fblks fb ! s],
                     fb_nfree := (fb_nfree fb)[l := length rest],
                     avail := avail fb - 1, allocated := Suc (card (dom A))\<rparr>"
  note eq = FreeBlock_take_eq [OF core al l fl, folded fb1_def]
  have c1: "fb_core fb1 (fl(l := rest)) (A(s \<mapsto> blk_cells (maxsize fb) l))"
    unfolding fb1_def by (rule fb_core_pop [OF core l fl])
  have sl: "s \<in> set (fl l)" by (simp add: fl)
  have As: "A s = None" using fb_alloc_not_free [OF core _ l] sl by (meson not_None_eq)
  have fin: "finite (dom A)" using core by simp
  have card1: "card (dom (A(s \<mapsto> n))) = Suc (card (dom A))" for n
    using As fin by (simp add: domIff)
  have sc1: "same_cells A fb fb1" by (simp add: same_cells_def fb1_def)
  show ?thesis
  proof (cases "l < maxsize fb \<and> w < l + 1")
    case False
    have "w \<le> blk_cells (maxsize fb) l" "blk_cells (maxsize fb) l \<le> maxsize fb"
      using w False l by (auto simp: blk_cells_def)
    moreover have "fb_inv fb1 (A(s \<mapsto> blk_cells (maxsize fb) l))"
      using c1 card1 mg unfolding fb_inv_def by (auto simp: fb1_def)
    ultimately show ?thesis using False eq As sc1 by auto
  next
    case True
    let ?z = "l + 1 - w" and ?B = "A(s \<mapsto> l + 1)"
    have "fb_core fb1 (fl(l := rest)) ?B" using c1 True by (simp add: blk_cells_def)
    then have c2: "fb_core fb1 (fl(l := rest)) (?B(s \<mapsto> w, s + w \<mapsto> ?z))"
      by (rule fb_core_split) (use True w in auto)
    have z: "0 < ?z" "?z \<le> ?z" "?z \<le> maxsize fb1" using True w by (auto simp: fb1_def)
    have Asw: "A (s + w) = None"
    proof (rule ccontr)
      assume "A (s + w) \<noteq> None"
      then obtain m where m: "A (s + w) = Some m" by auto
      have "apart s (blk_cells (maxsize fb) l) (s + w) m" by (rule D(13) [OF l sl m])
      then show False using True w D(11) [OF m] by (auto simp: apart_def blk_cells_def)
    qed
    define fb2 where "fb2 = fb1\<lparr>fblks := (fblks fb1)[s + w := fb_free fb1 ! (?z - 1)],
                     fb_free := (fb_free fb1)[?z - 1 := s + w],
                     fb_nfree := (fb_nfree fb1)[?z - 1 := Suc (fb_nfree fb1 ! (?z - 1))],
                     avail := Suc (avail fb1), allocated := sz_dec (allocated fb1)\<rparr>"
    have rel: "FreeBlock_Release ?z (s + w) fb1 = Some fb2"
      unfolding fb2_def by (rule FreeBlock_Release_core [OF c2 _ z]) simp
    have map_eq: "(?B(s \<mapsto> w, s + w \<mapsto> ?z))(s + w := None) = A(s \<mapsto> w)"
      using Asw w by (auto simp: fun_eq_iff)
    have ca: "Suc (card (dom A)) < 2 ^ 64"
      using fb_alloc_card_le [OF core] fb_arena_lt [OF core] by linarith
    have al2: "sz_inc (allocated fb2) = Suc (card (dom A))"
      using ca by (simp add: fb2_def fb1_def)
    let ?fb3 = "fb2\<lparr>allocated := Suc (card (dom A))\<rparr>"
    have c3: "\<exists>fl'. fb_core ?fb3 fl' (A(s \<mapsto> w))"
    proof
      have lk: "(?B(s \<mapsto> w, s + w \<mapsto> ?z)) (s + w) = Some ?z" by simp
      show "fb_core ?fb3 ((fl(l := rest))(?z - 1 := (s + w) # (fl(l := rest)) (?z - 1))) (A(s \<mapsto> w))"
        using fb_core_push [OF c2 lk z, where x = "Suc (card (dom A))"] unfolding map_eq
        by (simp add: fb2_def)
    qed
    have "fb_magic ?fb3 = FB_MAGIC" using mg by (simp add: fb2_def fb1_def)
    then have inv3: "fb_inv ?fb3 (A(s \<mapsto> w))"
      unfolding fb_inv_def using c3 card1 by simp
    have "s + w \<noteq> i" if m: "A t = Some m" and i: "t \<le> i" "i < t + m" for t m i
    proof -
      have "apart s (blk_cells (maxsize fb) l) t m" by (rule D(13) [OF l sl m])
      then show ?thesis using True w i by (auto simp: apart_def blk_cells_def)
    qed
    then have "same_cells A fb ?fb3"
      by (auto simp: same_cells_def fb2_def fb1_def)
    with True w rel al2 inv3 As eq show ?thesis by auto
  qed
qed

lemma FreeBlock_Get_loop_spec:
  assumes core: "fb_core fb fl A" and al: "allocated fb = card (dom A)" and mg: "fb_magic fb = FB_MAGIC"
    and w: "0 < w" "w \<le> maxsize fb"
  shows "w \<le> l + 1 \<Longrightarrow> l \<le> Suc (maxsize fb) \<Longrightarrow>
         FreeBlock_Get_loop w l fb = Some (FBLK_NONE, fb) \<or>
         (\<exists>s fb' n. FreeBlock_Get_loop w l fb = Some (s, fb') \<and> s \<noteq> FBLK_NONE \<and>
            fb_inv fb' (A(s \<mapsto> n)) \<and> w \<le> n \<and> n \<le> maxsize fb \<and> A s = None \<and> same_cells A fb fb')"
proof (induction "Suc (maxsize fb) - l" arbitrary: l)
  case 0
  then show ?case by (simp add: FreeBlock_Get_loop.simps [of w l fb])
next
  case (Suc d)
  then have l: "l \<le> maxsize fb" by simp
  note D = fb_coreD [OF core]
  have rd: "rd (fb_nfree fb) l = Some (length (fl l))" using D(2,3) D(8) [OF l] l by simp
  show ?case
  proof (cases "fl l")
    case Nil
    then have "FreeBlock_Get_loop w l fb = FreeBlock_Get_loop w (Suc l) fb"
      using l rd by (simp add: FreeBlock_Get_loop.simps [of w l fb])
    with Suc show ?thesis by simp
  next
    case (Cons s rest)
    then have take: "FreeBlock_Get_loop w l fb = FreeBlock_take w l fb"
      using l rd by (simp add: FreeBlock_Get_loop.simps [of w l fb])
    have "s \<noteq> FBLK_NONE" using D(7) [OF l] by (simp add: Cons FBLK_NONE_def)
    with FreeBlock_take_spec [OF core al mg l Cons w(1) Suc.prems(1) w(2)] show ?thesis
      unfolding take by blast
  qed
qed

lemma FreeBlock_Get_spec:
  assumes inv: "fb_inv fb A" and level: "level < maxsize fb"
  shows "FreeBlock_Get level fb = Some (FBLK_NONE, fb) \<or>
         (\<exists>s fb' n. FreeBlock_Get level fb = Some (s, fb') \<and> s \<noteq> FBLK_NONE \<and>
            fb_inv fb' (A(s \<mapsto> n)) \<and> level < n \<and> n \<le> maxsize fb \<and> A s = None \<and> same_cells A fb fb')"
proof -
  obtain fl where core: "fb_core fb fl A" and al: "allocated fb = card (dom A)" and mg: "fb_magic fb = FB_MAGIC"
    using inv by (auto simp: fb_inv_def)
  have "FreeBlock_Get level fb = FreeBlock_Get_loop (level + 1) level fb"
    using level by (simp add: FreeBlock_Get_def)
  with FreeBlock_Get_loop_spec [OF core al mg, of "level + 1" level] level show ?thesis
    by (simp add: Suc_le_eq)
qed

text \<open>Spare blocks guarantee that a request is served; each request uses up at most one.\<close>

definition spares :: "FreeBlock \<Rightarrow> nat" where
  "spares fb = fb_nfree fb ! maxsize fb"

lemma FreeBlock_Release_spares:
  assumes "FreeBlock_Release z s fb = Some fb'" "maxsize fb < length (fb_nfree fb)"
  shows "spares fb' = spares fb" "maxsize fb' = maxsize fb" "length (fb_nfree fb') = length (fb_nfree fb)"
  using assms by (auto simp: FreeBlock_Release_def spares_def Let_def bind_eq_Some_conv log_assert_def wr_def split: if_splits)

lemma FreeBlock_take_spares:
  assumes "FreeBlock_take w l fb = Some (b, fb')" "maxsize fb < length (fb_nfree fb)" "fb_nfree fb ! maxsize fb < 2 ^ 64"
  shows "spares fb \<le> Suc (spares fb')"
proof -
  obtain fr nf n fb1 where fb1: "fb1 = fb\<lparr>fb_free := fr, fb_nfree := nf, avail := sz_dec (avail fb), allocated := sz_inc (allocated fb)\<rparr>"
    and nf: "wr (fb_nfree fb) l (sz_dec n) = Some nf" "rd (fb_nfree fb) l = Some n" "0 < n"
    and rest: "fb' = fb1 \<or> (\<exists>z s fb2. FreeBlock_Release z s fb1 = Some fb2 \<and> fb' = fb2\<lparr>allocated := sz_inc (allocated fb2)\<rparr>)"
    using assms(1)
    by (auto simp: FreeBlock_take_def Let_def bind_eq_Some_conv log_assert_def split: if_splits) blast+
  have len: "length nf = length (fb_nfree fb)" using nf(1) by (auto simp: wr_def split: if_splits)
  have "spares fb \<le> Suc (spares fb1)"
    using nf assms(3) by (auto simp: spares_def fb1 wr_def rd_def nth_list_update split: if_splits)
  moreover have "spares fb' = spares fb1"
    using rest FreeBlock_Release_spares(1) [of _ _ fb1] FreeBlock_Release_spares(2) [of _ _ fb1] len assms(2) by (auto simp: fb1 spares_def)
  ultimately show ?thesis by simp
qed

lemma FreeBlock_Get_loop_takes:
  assumes "0 < spares fb" "maxsize fb < length (fb_nfree fb)" "l \<le> maxsize fb"
  shows "\<exists>l'. FreeBlock_Get_loop w l fb = FreeBlock_take w l' fb"
  using assms(3)
proof (induction "maxsize fb - l" arbitrary: l)
  case 0
  then show ?case using assms by (auto simp: FreeBlock_Get_loop.simps [of w l] spares_def rd_def)
next
  case (Suc d)
  then have "\<exists>l'. FreeBlock_Get_loop w (Suc l) fb = FreeBlock_take w l' fb" by (intro Suc.hyps(1)) auto
  then show ?case using Suc.prems assms(2) by (auto simp: FreeBlock_Get_loop.simps [of w l] rd_def)
qed

lemma FreeBlock_Get_spares:
  assumes inv: "fb_inv fb A" and level: "level < maxsize fb" and sp: "0 < spares fb"
  obtains b fb' where "FreeBlock_Get level fb = Some (b, fb')" "b \<noteq> FBLK_NONE" "spares fb \<le> Suc (spares fb')"
proof -
  obtain fl where core: "fb_core fb fl A" using inv by (auto simp: fb_inv_def)
  have ms: "maxsize fb < length (fb_nfree fb)" using fb_coreD(2,3) [OF core] by simp
  have lt: "fb_nfree fb ! maxsize fb < 2 ^ 64"
    using fb_nfree_le [OF core, of "maxsize fb"] fb_arena_lt [OF core] by simp
  obtain b fb' where get: "FreeBlock_Get level fb = Some (b, fb')" using FreeBlock_Get_spec [OF inv level] by blast
  obtain l' where take: "FreeBlock_take (level + 1) l' fb = Some (b, fb')"
    using get level FreeBlock_Get_loop_takes [OF sp ms, of level "level + 1"] by (auto simp: FreeBlock_Get_def)
  then have "b \<noteq> FBLK_NONE"
    by (auto simp: FreeBlock_take_def Let_def bind_eq_Some_conv log_assert_def split: if_splits)
  then show ?thesis using that get FreeBlock_take_spares [OF take ms lt] by blast
qed

subsection \<open>A formatted arena is well-formed\<close>

lemma InitLevel_loop_spec:
  assumes "off + i * b < length bs" "0 < b"
  shows "\<exists>bs'. InitLevel_loop i b off bs = Some (off + i * b, bs') \<and> length bs' = length bs \<and>
           (\<forall>j < i. bs' ! (off + j * b) = off + Suc j * b) \<and>
           (\<forall>k. k < off \<or> off + i * b \<le> k \<longrightarrow> bs' ! k = bs ! k)"
  using assms
proof (induction i arbitrary: off bs)
  case 0
  then show ?case by simp
next
  case (Suc i)
  let ?bs = "bs[off := off + b]"
  have off: "off < length bs" using Suc.prems by simp
  obtain bs' where bs': "InitLevel_loop i b (off + b) ?bs = Some (off + b + i * b, bs')"
      "length bs' = length ?bs"
      "\<forall>j < i. bs' ! (off + b + j * b) = off + b + Suc j * b"
      "\<forall>k. k < off + b \<or> off + b + i * b \<le> k \<longrightarrow> bs' ! k = ?bs ! k"
    using Suc.IH [of "off + b" ?bs] Suc.prems by (auto simp: algebra_simps)
  have step: "bs' ! (off + j * b) = off + Suc j * b" if "j < Suc i" for j
  proof (cases j)
    case 0
    with bs'(4) off Suc.prems(2) show ?thesis by simp
  next
    case (Suc j')
    with bs'(3) that have "bs' ! (off + b + j' * b) = off + b + Suc j' * b" by simp
    with Suc show ?thesis by (simp add: algebra_simps)
  qed
  have keep: "bs' ! k = bs ! k" if "k < off \<or> off + Suc i * b \<le> k" for k
  proof -
    have "k < off + b \<or> off + b + i * b \<le> k" and "k \<noteq> off" using that Suc.prems(2) by auto
    then show ?thesis using bs'(4) by (metis nth_list_update_neq)
  qed
  show ?case using bs' off step keep by (auto simp: algebra_simps)
qed

lemma chain_arith:
  assumes "\<forall>j < i. f (off + j * b) = off + Suc j * b" "f (off + i * b) = SIZE_NONE"
    "off + i * b < SIZE_NONE" "0 < (b::nat)"
  shows "chain f off (map (\<lambda>j. off + j * b) [0..<Suc i])"
  using assms
proof (induction i arbitrary: off)
  case 0
  then show ?case by simp
next
  case (Suc i)
  have f0: "f off = off + b" using Suc.prems(1) [rule_format, of 0] by simp
  have "\<forall>j < i. f (off + b + j * b) = off + b + Suc j * b"
  proof (intro allI impI)
    fix j assume "j < i"
    then show "f (off + b + j * b) = off + b + Suc j * b"
      using Suc.prems(1) [rule_format, of "Suc j"] by (simp add: algebra_simps)
  qed
  then have "chain f (off + b) (map (\<lambda>j. off + b + j * b) [0..<Suc i])"
    using Suc.prems by (intro Suc.IH) (simp_all add: algebra_simps)
  moreover have "map (\<lambda>j. off + j * b) [0..<Suc (Suc i)] = off # map (\<lambda>j. off + b + j * b) [0..<Suc i]"
    unfolding map_upt_Suc [of _ "Suc i"] by (simp add: algebra_simps del: upt_Suc)
  ultimately show ?case using f0 Suc.prems(3) by (simp del: upt_Suc)
qed

text \<open>\<open>fb_part fb L o fl\<close>: the levels below \<open>L\<close> are formatted and occupy the cells below \<open>o\<close>.\<close>

definition fb_part :: "FreeBlock \<Rightarrow> nat \<Rightarrow> nat \<Rightarrow> (nat \<Rightarrow> nat list) \<Rightarrow> bool" where
  "fb_part fb L off fl \<longleftrightarrow>
     0 < maxsize fb \<and> maxsize fb < FB_MAX_LEVELS \<and>
     length (fb_nfree fb) = FB_MAX_LEVELS \<and> length (fb_free fb) = FB_MAX_LEVELS \<and>
     off \<le> length (fblks fb) \<and> length (fblks fb) < SIZE_NONE \<and>
     (\<forall>l < L. chain ((!) (fblks fb)) (fb_free fb ! l) (fl l) \<and> fb_nfree fb ! l = length (fl l)) \<and>
     avail fb = (\<Sum>l < L. length (fl l)) \<and> avail fb \<le> off \<and>
     (\<forall>l < L. \<forall>s \<in> set (fl l). s + blk_cells (maxsize fb) l \<le> off) \<and>
     (\<forall>l < L. \<forall>s \<in> set (fl l). \<forall>l' < L. \<forall>s' \<in> set (fl l').
        (l, s) \<noteq> (l', s') \<longrightarrow>
        apart s (blk_cells (maxsize fb) l) s' (blk_cells (maxsize fb) l'))"

lemma InitLevel_part:
  assumes P: "fb_part fb L off fl" and L: "L \<le> maxsize fb" and b: "b = blk_cells (maxsize fb) L"
    and n: "0 < n" and room: "off + b * n \<le> length (fblks fb)"
  shows "\<exists>fb' fl'. InitLevel off L b n fb = Some (off + b * n, fb') \<and>
           fb_part fb' (Suc L) (off + b * n) fl' \<and> maxsize fb' = maxsize fb \<and>
           length (fblks fb') = length (fblks fb) \<and> fb_magic fb' = fb_magic fb \<and>
           allocated fb' = allocated fb"
proof -
  let ?ms = "maxsize fb" and ?m = "n - 1"
  let ?fl = "fl(L := map (\<lambda>j. off + j * b) [0..<Suc ?m])"
  have D: "0 < ?ms" "?ms < FB_MAX_LEVELS" "length (fb_nfree fb) = FB_MAX_LEVELS"
      "length (fb_free fb) = FB_MAX_LEVELS" "off \<le> length (fblks fb)" "length (fblks fb) < SIZE_NONE"
      "avail fb = (\<Sum>l < L. length (fl l))" "avail fb \<le> off"
    and ch: "\<And>l. l < L \<Longrightarrow> chain ((!) (fblks fb)) (fb_free fb ! l) (fl l) \<and> fb_nfree fb ! l = length (fl l)"
    and ar: "\<And>l s. l < L \<Longrightarrow> s \<in> set (fl l) \<Longrightarrow> s + blk_cells ?ms l \<le> off"
    and ap: "\<And>l s l' s'. l < L \<Longrightarrow> s \<in> set (fl l) \<Longrightarrow> l' < L \<Longrightarrow> s' \<in> set (fl l') \<Longrightarrow>
        (l, s) \<noteq> (l', s') \<Longrightarrow> apart s (blk_cells ?ms l) s' (blk_cells ?ms l')"
    using P unfolding fb_part_def by blast+
  have bpos: "0 < b" "L \<le> b" using blk_cells_pos [OF D(1)] L b by (auto simp: blk_cells_def)
  have mb: "off + ?m * b + b = off + b * n" using n by (cases n) (auto simp: algebra_simps)
  then have lt: "off + ?m * b < length (fblks fb)" using room bpos by linarith
  obtain bs' where bs': "InitLevel_loop ?m b off (fblks fb) = Some (off + ?m * b, bs')"
      "length bs' = length (fblks fb)" "\<forall>j < ?m. bs' ! (off + j * b) = off + Suc j * b"
      "\<forall>k. k < off \<or> off + ?m * b \<le> k \<longrightarrow> bs' ! k = fblks fb ! k"
    using InitLevel_loop_spec [OF lt bpos(1)] by blast
  define bs where "bs = bs'[off + ?m * b := FBLK_NONE]"
  define fb' where "fb' = fb\<lparr>fb_free := (fb_free fb)[L := off], fblks := bs,
      fb_nfree := (fb_nfree fb)[L := n], avail := avail fb + n\<rparr>"
  have bn: "n \<le> b * n" using bpos(1) by (cases b) auto
  have avb: "avail fb + n \<le> off + b * n" using D(8) bn by linarith
  then have "avail fb + n < 2 ^ 64" using room D(6) by (simp add: SIZE_NONE_def)
  then have run: "InitLevel off L b n fb = Some (off + b * n, fb')"
    using L bpos n D bs' lt mb by (simp add: InitLevel_def fb'_def bs_def)
  have inj: "off + j * b \<noteq> off + ?m * b" if "j < ?m" for j using that bpos by simp
  have newch: "chain ((!) bs) off (map (\<lambda>j. off + j * b) [0..<Suc ?m])"
    using bs'(2,3) lt D(6) bpos inj
    by (intro chain_arith) (auto simp: bs_def FBLK_NONE_def nth_list_update)
  have low: "bs ! k = fblks fb ! k" if "k < off" for k using bs'(4) that by (simp add: bs_def)
  have ch': "chain ((!) bs) ((fb_free fb)[L := off] ! l) (?fl l) \<and>
      (fb_nfree fb)[L := n] ! l = length (?fl l)" if "l < Suc L" for l
  proof (cases "l = L")
    case True
    then show ?thesis using newch D(2-4) L n by auto
  next
    case False
    then have l: "l < L" using that by simp
    have "chain ((!) bs) (fb_free fb ! l) (fl l)"
      by (rule chain_cong [OF ch [OF l, THEN conjunct1]])
         (use ar [OF l] blk_cells_pos [OF D(1), of l] low in \<open>fastforce\<close>)
    then show ?thesis using ch [OF l] False by simp
  qed
  have cases: "l = L \<and> (\<exists>j < n. s = off + j * b) \<or> l < L \<and> s \<in> set (fl l)"
    if "l < Suc L" "s \<in> set (?fl l)" for l s
    using that n by (auto split: if_splits)
  have top: "s + blk_cells ?ms l \<le> off + b * n" if "l < Suc L" "s \<in> set (?fl l)" for l s
  proof -
    have "off + j * b + b \<le> off + b * n" if "j < n" for j
    proof -
      have "Suc j * b \<le> n * b" using that by (intro mult_le_mono1) simp
      then show ?thesis by (simp add: algebra_simps)
    qed
    then show ?thesis using cases [OF that] ar b by fastforce
  qed
  have apart_new: "apart (off + j * b) b (off + j' * b) b" if "j \<noteq> j'" for j j'
  proof -
    have "Suc j * b \<le> j' * b \<or> Suc j' * b \<le> j * b"
    proof (cases "j < j'")
      case True
      then have "Suc j * b \<le> j' * b" by (intro mult_le_mono1) simp
      then show ?thesis ..
    next
      case False
      then have "Suc j' * b \<le> j * b" using that by (intro mult_le_mono1) simp
      then show ?thesis ..
    qed
    then show ?thesis by (auto simp: apart_def)
  qed
  have apart': "apart s (blk_cells ?ms l) s' (blk_cells ?ms l')"
    if "l < Suc L" "s \<in> set (?fl l)" "l' < Suc L" "s' \<in> set (?fl l')" "(l, s) \<noteq> (l', s')" for l s l' s'
    using cases [OF that(1,2)] cases [OF that(3,4)] that(5) ap apart_new ar b
    by (elim disjE conjE exE) (auto simp: apart_def, (fastforce simp: apart_def)+)
  have "avail fb + n = (\<Sum>l < Suc L. length (?fl l))" using D(7) n by simp
  then have "fb_part fb' (Suc L) (off + b * n) ?fl"
    unfolding fb_part_def fb'_def using D(1-6) room ch' avb top apart' bs'(2)
    by (simp add: bs_def del: fun_upd_apply)
  with run show ?thesis by (auto simp: fb'_def bs_def bs'(2))
qed

lemma InitLevels_part:
  assumes "fb_part fb L off fl" "L + todo \<le> maxsize fb" "0 < n"
    "GetArenaSize_loop todo L n off \<le> length (fblks fb)"
  shows "\<exists>fb' fl'. InitLevels todo L n off fb = Some (GetArenaSize_loop todo L n off, fb') \<and>
           fb_part fb' (L + todo) (GetArenaSize_loop todo L n off) fl' \<and>
           maxsize fb' = maxsize fb \<and> length (fblks fb') = length (fblks fb) \<and>
           fb_magic fb' = fb_magic fb \<and> allocated fb' = allocated fb"
  using assms
proof (induction todo arbitrary: L n off fb fl)
  case 0
  then show ?case by auto
next
  case (Suc todo)
  have mono: "x \<le> GetArenaSize_loop k l m x" for k l m x
    by (induction k arbitrary: l m x) (auto intro: order_trans [OF le_add1])
  have b: "L + 1 = blk_cells (maxsize fb) L" using Suc.prems(2) by (simp add: blk_cells_def)
  have room: "off + (L + 1) * n \<le> length (fblks fb)"
    using Suc.prems(4) mono [of "off + (L + 1) * n" todo "Suc L" "next_numblks n"] by simp
  obtain fb1 fl1 where 1: "InitLevel off L (L + 1) n fb = Some (off + (L + 1) * n, fb1)"
      "fb_part fb1 (Suc L) (off + (L + 1) * n) fl1" "maxsize fb1 = maxsize fb"
      "length (fblks fb1) = length (fblks fb)" "fb_magic fb1 = fb_magic fb" "allocated fb1 = allocated fb"
    using InitLevel_part [OF Suc.prems(1) _ b Suc.prems(3) room] Suc.prems(2) by auto
  have nn: "0 < next_numblks n" by (simp add: next_numblks_def div_greater_zero_iff)
  obtain fb2 fl2 where 2: "InitLevels todo (Suc L) (next_numblks n) (off + (L + 1) * n) fb1 =
        Some (GetArenaSize_loop todo (Suc L) (next_numblks n) (off + (L + 1) * n), fb2)"
      "fb_part fb2 (Suc L + todo) (GetArenaSize_loop todo (Suc L) (next_numblks n) (off + (L + 1) * n)) fl2"
      "maxsize fb2 = maxsize fb1" "length (fblks fb2) = length (fblks fb1)"
      "fb_magic fb2 = fb_magic fb1" "allocated fb2 = allocated fb1"
    using Suc.IH [OF 1(2) _ nn] Suc.prems(2,4) 1(3,4) by auto
  show ?case using 1 2 by auto
qed

lemma fb_part_core:
  assumes "fb_part fb (Suc (maxsize fb)) off fl"
  shows "fb_core (fb\<lparr>arena_sz := off\<rparr>) fl Map.empty"
  using assms unfolding fb_part_def fb_core_def
  by (simp add: less_Suc_eq_le lessThan_Suc_atMost)

lemma FreeBlock_Initialize_spec:
  assumes n: "4 \<le> n" "log4 n + 1 < FB_MAX_LEVELS"
    and mem: "length (fb_nfree fb) = FB_MAX_LEVELS" "length (fb_free fb) = FB_MAX_LEVELS"
      "GetArenaSize n \<le> length (fblks fb)" "length (fblks fb) < SIZE_NONE"
  shows "\<exists>fb'. FreeBlock_Initialize n fb = Some fb' \<and> fb_inv fb' Map.empty \<and> maxsize fb' = log4 n + 1"
proof -
  define ms where "ms = log4 n + 1"
  define a where "a = 9 * n * log4 n * log4 n"
  define sz where "sz = GetArenaSize n"
  define off where "off = GetArenaSize_loop ms 0 (3 * n div 4) 0"
  define fb2 where "fb2 = (fb\<lparr>fb_magic := FB_MAGIC\<rparr>)\<lparr>maxsize := ms,
      fblks := replicate sz FBLK_NONE @ drop sz (fblks fb), allocated := 0, avail := 0\<rparr>"
  have ms: "0 < ms" "ms < FB_MAX_LEVELS" using n by (auto simp: ms_def)
  have sz: "sz = off + isqrt (a * (ms * ms))" "sz \<le> length (fblks fb)"
    using mem(3) by (auto simp: GetArenaSize_def Let_def sz_def off_def a_def ms_def)
  have sq: "isqrt a * ms \<le> isqrt (a * (ms * ms))" "isqrt (a * (ms * ms)) < isqrt a * ms + ms"
    using isqrt_mult_square [OF ms(1), of a] by auto
  have f2: "length (fblks fb2) = length (fblks fb)" "maxsize fb2 = ms" "fb_magic fb2 = FB_MAGIC"
      "allocated fb2 = 0" using sz(2) by (auto simp: fb2_def)
  have p0: "fb_part fb2 0 0 (\<lambda>_. [])"
    using ms mem f2 by (simp add: fb_part_def fb2_def)
  have "0 < 3 * n div 4" using n by simp
  then obtain fb3 fl3 where 3: "InitLevels ms 0 (3 * n div 4) 0 fb2 = Some (off, fb3)"
      "fb_part fb3 ms off fl3" "maxsize fb3 = ms" "length (fblks fb3) = length (fblks fb)"
      "fb_magic fb3 = FB_MAGIC" "allocated fb3 = 0"
    using InitLevels_part [OF p0, of ms "3 * n div 4"] sz f2 by (auto simp: off_def [symmetric])
  have "1 \<le> log4 n" using n log4_4 by blast
  then have "9 * 4 * 1 * 1 \<le> a" unfolding a_def using n by (intro mult_le_mono) auto
  then have pos: "0 < isqrt a"
    using isqrt_bounds [of a] by (cases "isqrt a") auto
  have room: "off + ms * isqrt a \<le> length (fblks fb3)"
    using sz sq 3(4) by (simp add: mult.commute)
  have bm: "ms = blk_cells (maxsize fb3) ms" using 3(3) by (simp add: blk_cells_def)
  obtain fb4 fl4 where 4: "InitLevel off ms ms (isqrt a) fb3 = Some (off + ms * isqrt a, fb4)"
      "fb_part fb4 (Suc ms) (off + ms * isqrt a) fl4" "maxsize fb4 = ms"
      "fb_magic fb4 = FB_MAGIC" "allocated fb4 = 0"
    using InitLevel_part [OF 3(2) _ bm pos room] 3 by auto
  have "fb_core (fb4\<lparr>arena_sz := off + ms * isqrt a\<rparr>) fl4 Map.empty"
    using 4(2,3) by (intro fb_part_core) simp
  then have inv: "fb_inv (fb4\<lparr>arena_sz := off + ms * isqrt a\<rparr>) Map.empty"
    using 4(4,5) by (auto simp: fb_inv_def)
  have chk: "sz \<ge> off + ms * isqrt a \<and> sz < off + ms * isqrt a + ms"
    using sz sq by (simp add: mult.commute)
  have "FreeBlock_Initialize n fb = Some (fb4\<lparr>arena_sz := off + ms * isqrt a\<rparr>)"
    unfolding FreeBlock_Initialize_def Let_def ms_def [symmetric] sz_def [symmetric] a_def [symmetric]
    using n ms sz(2) 3(1) 4(1) chk by (simp add: fb2_def)
  with inv 4(3) show ?thesis by (simp add: ms_def)
qed

lemma InitLevel_nfree:
  assumes "InitLevel off l b k fb = Some (off', fb')"
  shows "fb_nfree fb' = (fb_nfree fb)[l := k]" "l < length (fb_nfree fb)" "maxsize fb' = maxsize fb"
  using assms by (auto simp: InitLevel_def Let_def bind_eq_Some_conv log_assert_def wr_def split: if_splits)

lemma FreeBlock_Initialize_spares:
  assumes "FreeBlock_Initialize n fb = Some fb'" "maxsize fb' = log4 n + 1"
  shows "spares fb' = isqrt (9 * n * log4 n * log4 n)"
proof -
  obtain off off' fb3 fb4 where "InitLevel off (log4 n + 1) (log4 n + 1) (isqrt (9 * n * log4 n * log4 n)) fb3 = Some (off', fb4)"
    "fb' = fb4\<lparr>arena_sz := off'\<rparr>"
    using assms(1) by (auto simp: FreeBlock_Initialize_def Let_def bind_eq_Some_conv log_assert_def split: if_splits)
  then show ?thesis using InitLevel_nfree(1,2) assms(2) by (fastforce simp: spares_def)
qed

subsection \<open>Writing into allocated blocks\<close>

lemma fb_core_write:
  assumes core: "fb_core fb fl A" and A: "A s = Some n" and i: "s \<le> i" "i < s + n"
  shows "fb_core (fb\<lparr>fblks := (fblks fb)[i := v]\<rparr>) fl A"
proof -
  note D = fb_coreD [OF core]
  have "i \<notin> set (fl l)" if l: "l \<le> maxsize fb" for l
  proof
    assume "i \<in> set (fl l)"
    then have "apart i (blk_cells (maxsize fb) l) s n" by (rule D(13) [OF l _ A])
    then show False using i blk_cells_pos [OF D(1), of l] by (auto simp: apart_def)
  qed
  then have "chain ((!) ((fblks fb)[i := v])) (fb_free fb ! l) (fl l)" if "l \<le> maxsize fb" for l
    by (intro chain_cong [OF D(7) [OF that]]) (metis that nth_list_update_neq)
  then show ?thesis using core unfolding fb_core_def by simp
qed

lemma fb_inv_write:
  assumes "fb_inv fb A" "A s = Some n" "s \<le> i" "i < s + n"
  shows "fb_inv (fb\<lparr>fblks := (fblks fb)[i := v]\<rparr>) A"
  using assms fb_core_write by (fastforce simp: fb_inv_def)

lemma fb_inv_bounds:
  assumes "fb_inv fb A" "A s = Some n"
  shows "0 < n" "s + n \<le> length (fblks fb)" "s + n \<le> arena_sz fb"
proof -
  obtain fl where core: "fb_core fb fl A" using assms by (auto simp: fb_inv_def)
  show "0 < n" "s + n \<le> arena_sz fb" using fb_coreD(11) [OF core assms(2)] by auto
  then show "s + n \<le> length (fblks fb)" using fb_coreD(5) [OF core] by simp
qed

lemma fb_inv_apart:
  assumes "fb_inv fb A" "A s = Some n" "A t = Some m" "s \<noteq> t"
  shows "apart s n t m"
  using assms fb_coreD(14) by (fastforce simp: fb_inv_def)

lemma fb_inv_maxsize:
  assumes "fb_inv fb A"
  shows "0 < maxsize fb" "maxsize fb < FB_MAX_LEVELS"
  using assms fb_coreD(1,2) by (auto simp: fb_inv_def)

lemma fb_inv_magic: "fb_inv fb A \<Longrightarrow> fb_magic fb = FB_MAGIC"
  by (simp add: fb_inv_def)

definition raw_arena :: "nat \<Rightarrow> FreeBlock" where
  "raw_arena k = \<lparr>fb_magic = 0, maxsize = 0, arena_sz = 0, avail = 0, allocated = 0,
     fb_nfree = replicate FB_MAX_LEVELS 0, fb_free = replicate FB_MAX_LEVELS 0,
     fblks = replicate k 0\<rparr>"

definition demo_arena :: FreeBlock where
  "demo_arena = the (FreeBlock_Initialize 4 (raw_arena 17))"

lemma log4_small [simp]: "n < 4 \<Longrightarrow> log4 n = 0"
  by (subst log4.simps) simp

lemma log4_of_4: "log4 4 = 1"
  by (simp add: log4.simps [of 4])

lemma demo_arena_room: "GetArenaSize 4 \<le> length (fblks (raw_arena 17))"
proof -
  have "isqrt 144 = 12" by (rule isqrt_unique) simp_all
  then show ?thesis
    by (simp add: GetArenaSize_def log4_of_4 raw_arena_def next_numblks_def numeral_2_eq_2)
qed

lemma demo_arena_spec:
  "FreeBlock_Initialize 4 (raw_arena 17) = Some demo_arena" "fb_inv demo_arena Map.empty"
  "maxsize demo_arena = 2"
proof -
  have "\<exists>fb'. FreeBlock_Initialize 4 (raw_arena 17) = Some fb' \<and> fb_inv fb' Map.empty \<and> maxsize fb' = log4 4 + 1"
    using demo_arena_room
    by (intro FreeBlock_Initialize_spec)
       (simp_all add: raw_arena_def SIZE_NONE_def log4_of_4 FB_MAX_LEVELS_def)
  then show "FreeBlock_Initialize 4 (raw_arena 17) = Some demo_arena" "fb_inv demo_arena Map.empty"
      "maxsize demo_arena = 2"
    by (auto simp: demo_arena_def log4_of_4)
qed

text \<open>
  C10. \<open>FreeBlock::Initialize\<close> formats raw memory into a well-formed arena with no allocated block:
  for at least 4 slots (and fewer levels than \<open>FB_MAX_LEVELS\<close>) every \<open>log_assert\<close> on the way holds,
  among them the final one that relates the formatted size to \<open>GetArenaSize\<close>.
\<close>

theorem FreeBlock_Initialize_inv:
  assumes "4 \<le> n" "log4 n + 1 < FB_MAX_LEVELS"
    and "length (fb_nfree fb) = FB_MAX_LEVELS" "length (fb_free fb) = FB_MAX_LEVELS"
      "GetArenaSize n \<le> length (fblks fb)" "length (fblks fb) < SIZE_NONE"
  shows "\<exists>fb'. FreeBlock_Initialize n fb = Some fb' \<and> fb_inv fb' Map.empty \<and> maxsize fb' = log4 n + 1"
  using assms by (rule FreeBlock_Initialize_spec)

theorem FreeBlock_Initialize_inv_witness:
  "\<exists>fb'. FreeBlock_Initialize 4 (raw_arena 17) = Some fb' \<and> fb_inv fb' Map.empty \<and> maxsize fb' = log4 4 + 1"
  by (rule FreeBlock_Initialize_inv [OF _ _ _ _ demo_arena_room])
     (simp_all add: raw_arena_def SIZE_NONE_def log4_of_4 FB_MAX_LEVELS_def)



lemma demo_arena_Get0: "map_option fst (FreeBlock_Get 0 demo_arena) = Some 0"
  by code_simp

text \<open>
  C9. \<open>FreeBlock::Release\<close> undoes an allocation. Returning the whole of an allocated block, or its
  first \<open>z\<close> cells, never aborts, removes exactly that block from the allocated ones, keeps the arena
  well-formed and leaves the contents of every other allocated block alone.
\<close>

theorem FreeBlock_Release_returns_block:
  assumes "fb_inv fb A" "A s = Some n" "0 < z" "z \<le> n" "z \<le> maxsize fb"
  shows "\<exists>fb'. FreeBlock_Release z s fb = Some fb' \<and> fb_inv fb' (A(s := None)) \<and>
               same_cells (A(s := None)) fb fb'"
  using assms by (rule FreeBlock_Release_spec)

theorem FreeBlock_Release_returns_block_witness:
  "\<exists>fb A s n fb'. fb_inv fb A \<and> A s = Some n \<and> n \<le> maxsize fb \<and>
     FreeBlock_Release n s fb = Some fb' \<and> fb_inv fb' (A(s := None)) \<and> same_cells (A(s := None)) fb fb'"
proof -
  have "FreeBlock_Get 0 demo_arena \<noteq> Some (FBLK_NONE, demo_arena)"
    using demo_arena_Get0 by (auto simp: FBLK_NONE_def SIZE_NONE_def)
  with FreeBlock_Get_spec [OF demo_arena_spec(2), of 0] demo_arena_spec(3)
  obtain s fb n where fb: "fb_inv fb [s \<mapsto> n]" "0 < n" "n \<le> maxsize demo_arena" "same_cells Map.empty demo_arena fb"
    by auto
  then have n: "n \<le> maxsize fb" by (simp add: same_cells_def)
  with FreeBlock_Release_returns_block [OF fb(1) _ fb(2) _ n, of s] fb(1) show ?thesis
    by (metis fun_upd_same order_refl)
qed

subsection \<open>Random levels\<close>

lemma GetRandomLevel_loop_bound:
  "level < ms \<Longrightarrow> fst (GetRandomLevel_loop ms level r) < ms"
proof (induction ms level r rule: GetRandomLevel_loop.induct)
  case (1 ms level r)
  then show ?case
    by (subst GetRandomLevel_loop.simps) (auto simp: Let_def)
qed

lemma GetRandomLevel_lt: "0 < maxsize fb \<Longrightarrow> fst (GetRandomLevel fb r) < maxsize fb"
  by (simp add: GetRandomLevel_def GetRandomLevel_loop_bound)

lemma nrand48_range: "fst (nrand48 x) < 2 ^ 31" "snd (nrand48 x) < 2 ^ 48"
proof -
  have "(y mod 2 ^ 48) div 2 ^ 17 < (2 :: nat) ^ 31" for y :: nat
    by (rule less_mult_imp_div_less) (use mod_less_divisor [of "2 ^ 48" y] in simp)
  then show "fst (nrand48 x) < 2 ^ 31" by (simp only: nrand48_def Let_def fst_conv)
  show "snd (nrand48 x) < 2 ^ 48" by (simp add: nrand48_def Let_def)
qed

text \<open>Consecutive draws, threading the static variables.\<close>

fun draws :: "nat \<Rightarrow> FreeBlock \<Rightarrow> rng \<Rightarrow> nat list \<times> rng" where
  "draws 0 fb r = ([], r)"
| "draws (Suc n) fb r =
     (let (l, r1) = GetRandomLevel fb r; (ls, r2) = draws n fb r1 in (l # ls, r2))"

lemma GetRandomLevel_stuck:
  assumes "randomBits r mod 4 \<noteq> 0" "1 < randomsLeft r" "1 < maxsize fb"
  shows "GetRandomLevel fb r = (0, r\<lparr>randomsLeft := randomsLeft r - 1\<rparr>)"
  using assms
  by (simp add: GetRandomLevel_def GetRandomLevel_loop.simps [of _ 0] rng_refill_def Let_def)

text \<open>
  C17. A draw that stops on a non-zero two-bit piece leaves that piece in \<open>randomBits\<close>: the shift is
  after the \<open>break\<close>. Every following draw inspects the same piece again, so all of them yield level 0
  until \<open>randomsLeft\<close> has run down and \<open>nrand48\<close> is called again. The levels of consecutive towers
  are not independent draws.
\<close>

theorem GetRandomLevel_repeats_zero:
  assumes "randomBits r mod 4 \<noteq> 0" "int n < randomsLeft r" "1 < maxsize fb"
  shows "draws n fb r = (replicate n 0, r\<lparr>randomsLeft := randomsLeft r - int n\<rparr>)"
  using assms
proof (induction n arbitrary: r)
  case 0
  then show ?case by simp
next
  case (Suc n)
  have "GetRandomLevel fb r = (0, r\<lparr>randomsLeft := randomsLeft r - 1\<rparr>)"
    using Suc.prems by (intro GetRandomLevel_stuck) auto
  moreover have "draws n fb (r\<lparr>randomsLeft := randomsLeft r - 1\<rparr>) =
      (replicate n 0, r\<lparr>randomsLeft := randomsLeft r - 1 - int n\<rparr>)"
    using Suc.IH [of "r\<lparr>randomsLeft := randomsLeft r - 1\<rparr>"] Suc.prems by simp
  ultimately show ?case by (simp add: algebra_simps)
qed

theorem GetRandomLevel_repeats_zero_witness:
  "draws 14 demo_arena \<lparr>randomsLeft = 15, randomBits = 1, xsubi = 0\<rparr> =
     (replicate 14 0, \<lparr>randomsLeft = 1, randomBits = 1, xsubi = 0\<rparr>)"
  using GetRandomLevel_repeats_zero [of "\<lparr>randomsLeft = 15, randomBits = 1, xsubi = 0\<rparr>" 14 demo_arena]
  by (simp add: demo_arena_spec(3))

subsection \<open>Arenas that are too small\<close>

lemma bind_None_const: "(m \<bind> (\<lambda>x. None)) = None"
  by (cases m) simp_all



subsection \<open>The allocator interface\<close>

text \<open>
  What a client of the arena relies on: blocks obtained are fresh and large enough, returned blocks
  disappear, blocks do not overlap, and a client may write into the blocks it owns.
\<close>

locale block_allocator =
  fixes inv :: "'s \<Rightarrow> (nat \<rightharpoonup> nat) \<Rightarrow> bool"
    and top :: "'s \<Rightarrow> nat"
    and cells :: "'s \<Rightarrow> nat list"
    and put :: "nat list \<Rightarrow> 's \<Rightarrow> 's"
    and get :: "nat \<Rightarrow> 's \<Rightarrow> (nat \<times> 's) option"
    and release :: "nat \<Rightarrow> nat \<Rightarrow> 's \<Rightarrow> 's option"
  assumes get_law: "inv s A \<Longrightarrow> l < top s \<Longrightarrow>
      get l s = Some (SIZE_NONE, s) \<or>
      (\<exists>b s' n. get l s = Some (b, s') \<and> b \<noteq> SIZE_NONE \<and> inv s' (A(b \<mapsto> n)) \<and> l < n \<and> A b = None \<and>
         top s' = top s \<and>
         (\<forall>t m i. A t = Some m \<longrightarrow> t \<le> i \<longrightarrow> i < t + m \<longrightarrow> cells s' ! i = cells s ! i))"
    and release_law: "inv s A \<Longrightarrow> A b = Some n \<Longrightarrow> 0 < z \<Longrightarrow> z \<le> n \<Longrightarrow> z \<le> top s \<Longrightarrow>
      \<exists>s'. release z b s = Some s' \<and> inv s' (A(b := None)) \<and> top s' = top s \<and>
         (\<forall>t m i. (A(b := None)) t = Some m \<longrightarrow> t \<le> i \<longrightarrow> i < t + m \<longrightarrow> cells s' ! i = cells s ! i)"
    and write_law: "inv s A \<Longrightarrow> A b = Some n \<Longrightarrow> b \<le> i \<Longrightarrow> i < b + n \<Longrightarrow> inv (put ((cells s)[i := v]) s) A"
    and put_law: "cells (put xs s) = xs" "top (put xs s) = top s" "put xs (put ys s) = put xs s"
      "put (cells s) s = s"
    and bounds_law: "inv s A \<Longrightarrow> A b = Some n \<Longrightarrow> 0 < n \<and> b + n \<le> length (cells s)"
    and apart_law: "inv s A \<Longrightarrow> A b = Some n \<Longrightarrow> A c = Some m \<Longrightarrow> b \<noteq> c \<Longrightarrow> apart b n c m"
begin

text \<open>Two cells of allocated blocks coincide only if they are the same cell of the same block.\<close>

lemma cell_inj:
  assumes "inv s A" "A b = Some n" "A c = Some m" "i < n" "j < m" "b + i = c + j"
  shows "b = c \<and> i = j"
proof -
  have "b = c"
  proof (rule ccontr)
    assume "b \<noteq> c"
    then have "apart b n c m" using apart_law assms by blast
    then show False using assms by (auto simp: apart_def)
  qed
  then show ?thesis using assms by simp
qed

text \<open>A block that is taken and given back leaves the other blocks as they were.\<close>

lemma get_then_release:
  assumes "inv s A" "l < top s" "get l s = Some (b, s')" "b \<noteq> SIZE_NONE"
  shows "\<exists>s''. release (Suc l) b s' = Some s'' \<and> inv s'' A \<and>
           (\<forall>t m i. A t = Some m \<longrightarrow> t \<le> i \<longrightarrow> i < t + m \<longrightarrow> cells s'' ! i = cells s ! i)"
proof -
  obtain n where n: "inv s' (A(b \<mapsto> n))" "l < n" "A b = None" "top s' = top s"
      and same: "\<forall>t m i. A t = Some m \<longrightarrow> t \<le> i \<longrightarrow> i < t + m \<longrightarrow> cells s' ! i = cells s ! i"
    using get_law [OF assms(1,2), unfolded assms(3) option.inject prod.inject] assms(4) by blast
  have undo: "(A(b \<mapsto> n))(b := None) = A" using n(3) by auto
  have z: "Suc l \<le> n" "Suc l \<le> top s'" "(A(b \<mapsto> n)) b = Some n" using n assms(2) by simp_all
  from release_law [OF n(1) z(3) _ z(1,2)] obtain s'' where s'': "release (Suc l) b s' = Some s''" "inv s'' A"
      and same': "\<forall>t m i. A t = Some m \<longrightarrow> t \<le> i \<longrightarrow> i < t + m \<longrightarrow> cells s'' ! i = cells s' ! i"
    unfolding undo by (elim meta_impE exE conjE) (simp, rule that)
  have "cells s'' ! i = cells s ! i" if "A t = Some m" "t \<le> i" "i < t + m" for t m i
    using same same' that by (metis (no_types))
  with s'' show ?thesis by blast
qed

end

interpretation fba: block_allocator fb_inv maxsize fblks "\<lambda>xs fb. fb\<lparr>fblks := xs\<rparr>"
  FreeBlock_Get FreeBlock_Release
proof unfold_locales
  fix s A l
  assume "fb_inv s A" "l < maxsize s"
  from FreeBlock_Get_spec [OF this]
  show "FreeBlock_Get l s = Some (SIZE_NONE, s) \<or>
      (\<exists>b s' n. FreeBlock_Get l s = Some (b, s') \<and> b \<noteq> SIZE_NONE \<and> fb_inv s' (A(b \<mapsto> n)) \<and> l < n \<and>
         A b = None \<and> maxsize s' = maxsize s \<and>
         (\<forall>t m i. A t = Some m \<longrightarrow> t \<le> i \<longrightarrow> i < t + m \<longrightarrow> fblks s' ! i = fblks s ! i))"
    unfolding FBLK_NONE_def same_cells_def by blast
next
  fix s A b n z
  assume "fb_inv s A" "A b = Some n" "0 < z" "z \<le> n" "z \<le> maxsize s"
  from FreeBlock_Release_spec [OF this]
  show "\<exists>s'. FreeBlock_Release z b s = Some s' \<and> fb_inv s' (A(b := None)) \<and> maxsize s' = maxsize s \<and>
         (\<forall>t m i. (A(b := None)) t = Some m \<longrightarrow> t \<le> i \<longrightarrow> i < t + m \<longrightarrow> fblks s' ! i = fblks s ! i)"
    unfolding same_cells_def by blast
next
  fix s A b n i v
  assume "fb_inv s A" "A b = Some n" "b \<le> i" "i < b + n"
  then show "fb_inv (s\<lparr>fblks := (fblks s)[i := v]\<rparr>) A" by (rule fb_inv_write)
next
  fix s A b n
  assume "fb_inv s A" "A b = Some n"
  then show "0 < n \<and> b + n \<le> length (fblks s)" by (intro conjI fb_inv_bounds)
qed (simp, simp, simp, simp, (rule fb_inv_apart; assumption))

end
