(* ===== verification/Skip_List.thy ===== *)
theory Skip_List
  imports Free_Block
begin

text \<open>
  The skip-list algorithms that src/storage/pq/TimeQueue.cpp and RegionList.cpp run over towers in a
  \<open>FreeBlock\<close> arena. The code writes them out once per list; the three lists differ in where a node
  keeps the address of its tower (\<open>TimeQueueElement::fblk\<close>, \<open>Region::next\<close>, \<open>Region::prev\<close>) and in the
  comparison that drives the search, so both are arguments here: \<open>tower n\<close> is the address stored in
  node \<open>n\<close> and \<open>lt n\<close> tells whether the search passes node \<open>n\<close>; either is \<open>None\<close> outside the array of
  nodes.

  A list is described by its nodes \<open>L\<close> in order and their heights \<open>h\<close>: the list of level \<open>k\<close> links the
  nodes of height at least \<open>k\<close>. The lemmas show that search, insertion, deletion and the lowering of
  the level do on the arena what they should do to \<open>L\<close>, and that they touch no cell of another
  list's towers.
\<close>

subsection \<open>The algorithms\<close>

type_synonym tower = "nat \<Rightarrow> nat option"

definition sl_next :: "nat list \<Rightarrow> tower \<Rightarrow> nat \<Rightarrow> nat \<Rightarrow> nat option" where
  "sl_next ar tower n k = do { t \<leftarrow> tower n; rd ar (sz_add t k) }"

partial_function (option) sl_walk ::
  "nat list \<Rightarrow> tower \<Rightarrow> (nat \<Rightarrow> bool option) \<Rightarrow> nat \<Rightarrow> nat \<Rightarrow> (nat \<times> nat) option" where
  "sl_walk ar tower lt k p = do {
     q \<leftarrow> sl_next ar tower p k;
     b \<leftarrow> lt q;
     if b then sl_walk ar tower lt k q else Some (p, q) }"

declare sl_walk.simps [code]

text \<open>The \<open>update\<close> array is optional, a null pointer in \<open>RegionList::FindExtent\<close>.\<close>

primrec put_upd :: "nat list option \<Rightarrow> nat \<Rightarrow> nat \<Rightarrow> nat list option option" where
  "put_upd None k p = Some None"
| "put_upd (Some u) k p = map_option Some (wr u k p)"

primrec sl_search :: "nat list \<Rightarrow> tower \<Rightarrow> (nat \<Rightarrow> bool option) \<Rightarrow> nat \<Rightarrow> nat \<Rightarrow> nat list option \<Rightarrow>
    (nat \<times> nat \<times> nat list option) option" where
  "sl_search ar tower lt 0 p upd = do {
     (p', q) \<leftarrow> sl_walk ar tower lt 0 p;
     upd' \<leftarrow> put_upd upd 0 p';
     Some (p', q, upd') }"
| "sl_search ar tower lt (Suc k) p upd = do {
     (p', q) \<leftarrow> sl_walk ar tower lt (Suc k) p;
     upd' \<leftarrow> put_upd upd (Suc k) p';
     sl_search ar tower lt k p' upd' }"

definition sl_link1 :: "nat \<Rightarrow> nat list \<Rightarrow> tower \<Rightarrow> nat \<Rightarrow> nat list \<Rightarrow> nat list option" where
  "sl_link1 k upd tower new ar = do {
     p \<leftarrow> rd upd k;
     v \<leftarrow> sl_next ar tower p k;
     t \<leftarrow> tower new;
     ar1 \<leftarrow> wr ar (sz_add t k) v;
     tp \<leftarrow> tower p;
     wr ar1 (sz_add tp k) new }"

primrec sl_link :: "nat \<Rightarrow> nat list \<Rightarrow> tower \<Rightarrow> nat \<Rightarrow> nat list \<Rightarrow> nat list option" where
  "sl_link 0 upd tower new ar = sl_link1 0 upd tower new ar"
| "sl_link (Suc k) upd tower new ar = do {
     ar' \<leftarrow> sl_link1 (Suc k) upd tower new ar;
     sl_link k upd tower new ar' }"

text \<open>The loop \<open>for (k = 0; k <= m; k++)\<close> with \<open>todo = m + 1 - k\<close> rounds left.\<close>

primrec sl_unlink :: "nat \<Rightarrow> nat \<Rightarrow> nat list \<Rightarrow> tower \<Rightarrow> nat \<Rightarrow> nat list \<Rightarrow> (nat \<times> nat list) option" where
  "sl_unlink 0 k upd tower q ar = Some (k, ar)"
| "sl_unlink (Suc todo) k upd tower q ar = do {
     p \<leftarrow> rd upd k;
     v \<leftarrow> sl_next ar tower p k;
     if v \<noteq> q then Some (k, ar)
     else do {
       v' \<leftarrow> sl_next ar tower q k;
       tp \<leftarrow> tower p;
       ar' \<leftarrow> wr ar (sz_add tp k) v';
       sl_unlink todo (Suc k) upd tower q ar' } }"

primrec sl_lower :: "nat list \<Rightarrow> tower \<Rightarrow> nat \<Rightarrow> nat \<Rightarrow> nat \<Rightarrow> nat option" where
  "sl_lower ar tower hn tn 0 = do { v \<leftarrow> sl_next ar tower hn 0; Some 0 }"
| "sl_lower ar tower hn tn (Suc m) = do {
     v \<leftarrow> sl_next ar tower hn (Suc m);
     if v = tn then sl_lower ar tower hn tn m else Some (Suc m) }"

text \<open>The loop that points every level of a fresh head at the tail.\<close>

primrec sl_fill :: "nat \<Rightarrow> nat \<Rightarrow> nat \<Rightarrow> nat \<Rightarrow> nat list \<Rightarrow> nat list option" where
  "sl_fill 0 i t tn ar = Some ar"
| "sl_fill (Suc todo) i t tn ar = do { ar' \<leftarrow> wr ar (sz_add t i) tn; sl_fill todo (Suc i) t tn ar' }"

text \<open>The size of the \<open>update\<close> arrays, and one that is uninitialised.\<close>

definition MAXLEVELS :: nat where "MAXLEVELS = 15"

definition fresh_update :: "nat list" where "fresh_update = replicate MAXLEVELS 0"

text \<open>A list grows by at most one level per insertion.\<close>

definition cap_level :: "nat \<Rightarrow> nat \<Rightarrow> nat" where
  "cap_level level k = (if k > level then level + 1 else k)"

text \<open>
  Insertion and deletion in the two free lists of \<open>RegionList\<close>. \<open>sl_add\<close> returns the address of the new
  tower, which the caller stores in the node, or \<open>FBLK_NONE\<close>; the list's level has grown in either case.
  \<open>sl_del\<close> unlinks the node that the search finds if it is the wanted one.
\<close>

definition sl_add :: "tower \<Rightarrow> (nat \<Rightarrow> bool option) \<Rightarrow> nat \<Rightarrow> nat \<Rightarrow> nat \<Rightarrow> FreeBlock \<Rightarrow> rng \<Rightarrow>
    (nat \<times> nat \<times> FreeBlock \<times> rng) option" where
  "sl_add tower lt level hn new fb r = do {
     (_, _, upd) \<leftarrow> sl_search (fblks fb) tower lt level hn (Some fresh_update);
     let (k0, r') = GetRandomLevel fb r;
     let k = cap_level level k0;
     upd' \<leftarrow> (if k > level then wr (the upd) k hn else Some (the upd));
     (b, fb1) \<leftarrow> FreeBlock_Get k fb;
     if b = FBLK_NONE then Some (b, max level k, fb1, r')
     else do {
       ar \<leftarrow> sl_link k upd' (tower(new := Some b)) new (fblks fb1);
       Some (b, max level k, fb1\<lparr>fblks := ar\<rparr>, r') } }"

definition sl_del :: "tower \<Rightarrow> (nat \<Rightarrow> bool option) \<Rightarrow> (nat \<Rightarrow> bool option) \<Rightarrow> nat \<Rightarrow> nat \<Rightarrow> nat \<Rightarrow> FreeBlock \<Rightarrow>
    (nat \<times> FreeBlock) option" where
  "sl_del tower lt found level hn tn fb = do {
     (_, q, upd) \<leftarrow> sl_search (fblks fb) tower lt level hn (Some fresh_update);
     hit \<leftarrow> found q;
     if hit then do {
       (k, ar) \<leftarrow> sl_unlink (Suc level) 0 (the upd) tower q (fblks fb);
       t \<leftarrow> tower q;
       fb' \<leftarrow> FreeBlock_Release k t (fb\<lparr>fblks := ar\<rparr>);
       m \<leftarrow> sl_lower (fblks fb') tower hn tn level;
       Some (m, fb') }
     else Some (level, fb) }"

subsection \<open>Well-formed lists\<close>

definition blocks_ok :: "(nat \<rightharpoonup> nat) \<Rightarrow> nat list \<Rightarrow> bool" where
  "blocks_ok A ar \<longleftrightarrow> length ar < SIZE_NONE \<and>
     (\<forall>b n. A b = Some n \<longrightarrow> 0 < n \<and> b + n \<le> length ar) \<and>
     (\<forall>b n c m. A b = Some n \<longrightarrow> A c = Some m \<longrightarrow> b \<noteq> c \<longrightarrow> apart b n c m)"

definition level_list :: "nat \<Rightarrow> (nat \<Rightarrow> nat) \<Rightarrow> nat list \<Rightarrow> nat list" where
  "level_list k h L = filter (\<lambda>x. k \<le> h x) L"

definition sl_ok :: "(nat \<rightharpoonup> nat) \<Rightarrow> nat list \<Rightarrow> (nat \<Rightarrow> nat) \<Rightarrow> nat \<Rightarrow> nat \<Rightarrow> nat \<Rightarrow> nat list \<Rightarrow>
    (nat \<Rightarrow> nat) \<Rightarrow> nat \<Rightarrow> bool" where
  "sl_ok A ar base ms hn tn L h lev \<longleftrightarrow>
     distinct (hn # tn # L) \<and> inj_on base (set (hn # tn # L)) \<and> lev < ms \<and>
     (\<forall>x \<in> set L. h x \<le> lev \<and> (\<exists>n. A (base x) = Some n \<and> h x < n)) \<and>
     (\<exists>n. A (base hn) = Some n \<and> ms \<le> n) \<and> (\<exists>n. A (base tn) = Some n) \<and>
     (\<forall>k < ms. links (\<lambda>x. ar ! (base x + k)) (hn # level_list k h L @ [tn]))"

lemma level_list_simps [simp]:
  "level_list k h [] = []"
  "level_list k h (xs @ ys) = level_list k h xs @ level_list k h ys"
  "level_list k h (x # xs) = (if k \<le> h x then x # level_list k h xs else level_list k h xs)"
  "level_list 0 h xs = xs"
  by (simp_all add: level_list_def)

lemma set_level_list [simp]: "set (level_list k h L) = {x \<in> set L. k \<le> h x}"
  by (auto simp: level_list_def)

lemma level_list_cong: "(\<And>x. x \<in> set L \<Longrightarrow> h x = h' x) \<Longrightarrow> level_list k h L = level_list k h' L"
  by (auto simp: level_list_def intro: filter_cong)

lemma level_list_empty: "(\<And>x. x \<in> set L \<Longrightarrow> h x < k) \<Longrightarrow> level_list k h L = []"
  by (auto simp: level_list_def filter_empty_conv not_le)

lemma blocks_okD:
  assumes "blocks_ok A ar"
  shows "length ar < SIZE_NONE" "A b = Some n \<Longrightarrow> b + n \<le> length ar" "A b = Some n \<Longrightarrow> 0 < n"
    "A b = Some n \<Longrightarrow> A c = Some m \<Longrightarrow> b \<noteq> c \<Longrightarrow> apart b n c m"
  using assms unfolding blocks_ok_def by blast+

lemma fb_inv_blocks_ok:
  assumes "fb_inv fb A"
  shows "blocks_ok A (fblks fb)"
proof -
  have "length (fblks fb) < SIZE_NONE" using assms fb_coreD(6) by (auto simp: fb_inv_def)
  then show ?thesis
    using fba.bounds_law [OF assms] fba.apart_law [OF assms] by (auto simp: blocks_ok_def)
qed

text \<open>Cells of no allocated block: the free ones and those past the arena.\<close>

definition outside :: "(nat \<rightharpoonup> nat) \<Rightarrow> nat \<Rightarrow> bool" where
  "outside A a \<longleftrightarrow> (\<forall>b n. A b = Some n \<longrightarrow> a < b \<or> b + n \<le> a)"

lemma outsideD: "outside A a \<Longrightarrow> A b = Some n \<Longrightarrow> i < n \<Longrightarrow> a \<noteq> b + i"
  by (fastforce simp: outside_def)

text \<open>Rewriting the contents of allocated blocks keeps the arena well-formed.\<close>

lemma fb_inv_cells:
  assumes inv: "fb_inv fb A" and len: "length ar = length (fblks fb)"
    and same: "\<And>a. outside A a \<Longrightarrow> ar ! a = fblks fb ! a"
  shows "fb_inv (fb\<lparr>fblks := ar\<rparr>) A"
proof -
  obtain fl where core: "fb_core fb fl A" using inv by (auto simp: fb_inv_def)
  note D = fb_coreD [OF core]
  have "outside A s" if "l \<le> maxsize fb" "s \<in> set (fl l)" for l s
    using D(13) [OF that] blk_cells_pos [OF D(1), of l] by (fastforce simp: outside_def apart_def)
  then have "chain ((!) ar) (fb_free fb ! l) (fl l)" if "l \<le> maxsize fb" for l
    using that same by (intro chain_cong [OF D(7) [OF that]]) blast
  then have "fb_core (fb\<lparr>fblks := ar\<rparr>) fl A" using core len unfolding fb_core_def by simp
  then show ?thesis using inv by (auto simp: fb_inv_def)
qed

lemma cell_neq:
  assumes "blocks_ok A ar" "A b = Some n" "A c = Some m" "i < n" "j < m" "b \<noteq> c \<or> i \<noteq> j"
  shows "b + i \<noteq> c + j"
proof (cases "b = c")
  case False
  then have "apart b n c m" using blocks_okD(4) [OF assms(1)] assms(2,3) by blast
  then show ?thesis using assms(4,5) by (auto simp: apart_def)
qed (use assms in simp)

lemma cell_bound:
  assumes "blocks_ok A ar" "A b = Some n" "i < n"
  shows "b + i < length ar" "sz_add b i = b + i"
proof -
  show "b + i < length ar" using blocks_okD(2) [OF assms(1,2)] assms(3) by simp
  then show "sz_add b i = b + i" using blocks_okD(1) [OF assms(1)] by (intro sz_add_small) (simp add: SIZE_NONE_def)
qed

lemma sl_okD:
  assumes "sl_ok A ar base ms hn tn L h lev"
  shows "distinct (hn # tn # L)" "inj_on base (set (hn # tn # L))" "lev < ms"
    "x \<in> set L \<Longrightarrow> h x \<le> lev" "x \<in> set L \<Longrightarrow> \<exists>n. A (base x) = Some n \<and> h x < n"
    "\<exists>n. A (base hn) = Some n \<and> ms \<le> n" "\<exists>n. A (base tn) = Some n"
    "k < ms \<Longrightarrow> links (\<lambda>x. ar ! (base x + k)) (hn # level_list k h L @ [tn])"
  using assms unfolding sl_ok_def by blast+

text \<open>The cells a list uses: all of the head's, and one per level of each node.\<close>

lemma sl_ok_cell:
  assumes "sl_ok A ar base ms hn tn L h lev" "k < ms" "x = hn \<or> x \<in> set L \<and> k \<le> h x"
  shows "\<exists>n. A (base x) = Some n \<and> k < n"
  using assms(3)
proof (elim disjE conjE)
  assume "x = hn"
  then show ?thesis using sl_okD(6) [OF assms(1)] assms(2) by fastforce
next
  assume "x \<in> set L" "k \<le> h x"
  then show ?thesis using sl_okD(5) [OF assms(1)] by (meson le_less_trans)
qed

lemma sl_ok_frame:
  assumes ok: "sl_ok A ar base ms hn tn L h lev"
    and A: "\<And>x n. x \<in> set (hn # tn # L) \<Longrightarrow> A (base x) = Some n \<Longrightarrow> A' (base x) = Some n"
    and base: "\<And>x. x \<in> set (hn # tn # L) \<Longrightarrow> base' x = base x"
    and same: "\<And>x n k. x \<in> set (hn # L) \<Longrightarrow> A (base x) = Some n \<Longrightarrow> k < n \<Longrightarrow>
                 ar' ! (base x + k) = ar ! (base x + k)"
  shows "sl_ok A' ar' base' ms hn tn L h lev"
proof -
  note D = sl_okD [OF ok]
  have "links (\<lambda>x. ar' ! (base' x + k)) (hn # level_list k h L @ [tn])" if k: "k < ms" for k
  proof (rule links_cong [OF D(8) [OF k]])
    fix x assume "x \<in> set (butlast (hn # level_list k h L @ [tn]))"
    then have x: "x = hn \<or> x \<in> set L \<and> k \<le> h x" by (auto simp: butlast_append split: if_splits)
    obtain n where n: "A (base x) = Some n" "k < n" using sl_ok_cell [OF ok k x] by blast
    have "ar' ! (base x + k) = ar ! (base x + k)" using x by (intro same [OF _ n]) auto
    then show "ar' ! (base' x + k) = ar ! (base x + k)" using base [of x] x by auto
  qed
  moreover have "inj_on base' (set (hn # tn # L))"
    using D(2) base by (simp only: inj_on_cong [of "set (hn # tn # L)" base' base])
  moreover have "\<exists>n. A' (base' x) = Some n \<and> h x < n" if "x \<in> set L" for x
    using D(5) [OF that] A [of x] base [of x] that by auto
  moreover have "\<exists>n. A' (base' hn) = Some n \<and> ms \<le> n" using D(6) A [of hn] base [of hn] by auto
  moreover have "\<exists>n. A' (base' tn) = Some n" using D(7) A [of tn] base [of tn] by auto
  ultimately show ?thesis using D(1,3,4) unfolding sl_ok_def by blast
qed


subsection \<open>Search\<close>

lemma sl_next_eq:
  assumes "blocks_ok A ar" "A (base x) = Some n" "k < n" "tower x = Some (base x)"
  shows "sl_next ar tower x k = Some (ar ! (base x + k))"
  using cell_bound [OF assms(1-3)] assms(4) by (simp add: sl_next_def)

lemma sl_walk_spec:
  assumes "links (\<lambda>x. ar ! (base x + k)) (p # us @ q # rest)"
    and "\<And>x. x \<in> set (p # us) \<Longrightarrow> sl_next ar tower x k = Some (ar ! (base x + k))"
    and "\<And>x. x \<in> set us \<Longrightarrow> lt x = Some True" and "lt q = Some False"
  shows "sl_walk ar tower lt k p = Some (last (p # us), q)"
  using assms
proof (induction us arbitrary: p)
  case Nil
  then show ?case by (simp add: sl_walk.simps [of ar tower lt k p])
next
  case (Cons u us)
  then have "sl_walk ar tower lt k u = Some (last (u # us), q)" by (intro Cons.IH) auto
  with Cons.prems show ?case by (simp add: sl_walk.simps [of ar tower lt k p])
qed

text \<open>
  Where a search for the boundary between \<open>xs\<close> and \<open>ys\<close> stands on level \<open>k\<close>: the last node of \<open>xs\<close>
  that reaches the level, or the head.
\<close>

definition sl_pred :: "nat \<Rightarrow> (nat \<Rightarrow> nat) \<Rightarrow> nat list \<Rightarrow> nat \<Rightarrow> nat" where
  "sl_pred hn h xs k = last (hn # level_list k h xs)"

lemma sl_pred_cases: "sl_pred hn h xs k = hn \<or> sl_pred hn h xs k \<in> set xs \<and> k \<le> h (sl_pred hn h xs k)"
proof (cases "level_list k h xs = []")
  case False
  then have "sl_pred hn h xs k \<in> set (level_list k h xs)"
    using last_in_set [OF False] by (simp add: sl_pred_def del: set_level_list)
  then show ?thesis by simp
qed (simp add: sl_pred_def)

lemma sl_pred_above: "(\<And>x. x \<in> set xs \<Longrightarrow> h x < k) \<Longrightarrow> sl_pred hn h xs k = hn"
  by (simp add: sl_pred_def level_list_empty)

lemma sl_pred_in: "sl_pred hn h xs k \<in> set (hn # xs)"
  using sl_pred_cases [of hn h xs k] by auto

lemma sl_pred_cell:
  assumes ok: "sl_ok A ar base ms hn tn (xs @ ys) h lev" and k: "k < ms"
  shows "\<exists>n. A (base (sl_pred hn h xs k)) = Some n \<and> k < n"
  using sl_pred_cases [of hn h xs k] by (intro sl_ok_cell [OF ok k]) auto

lemma sl_pred_cells_neq:
  assumes "blocks_ok A ar" "sl_ok A ar base ms hn tn (xs @ ys) h lev" "i < ms" "j < ms" "i \<noteq> j"
  shows "base (sl_pred hn h xs i) + i \<noteq> base (sl_pred hn h xs j) + j"
proof -
  obtain n m where "A (base (sl_pred hn h xs i)) = Some n" "i < n"
      "A (base (sl_pred hn h xs j)) = Some m" "j < m"
    using sl_pred_cell [OF assms(2)] assms(3,4) by meson
  then show ?thesis using assms(5) by (intro cell_neq [OF assms(1)]) auto
qed

text \<open>The cell of the predecessor on a level names the first node after the boundary on that level.\<close>

lemma sl_pred_next:
  assumes ok: "sl_ok A ar base ms hn tn (xs @ ys) h lev" and k: "k < ms"
  shows "ar ! (base (sl_pred hn h xs k) + k) = hd (level_list k h ys @ [tn])"
proof -
  obtain y ys' where y: "level_list k h ys @ [tn] = y # ys'" by (cases "level_list k h ys") auto
  define as where "as = butlast (hn # level_list k h xs)"
  have as: "hn # level_list k h xs = as @ [sl_pred hn h xs k]"
    unfolding sl_pred_def as_def by (rule append_butlast_last_id [symmetric]) simp
  have "links (\<lambda>x. ar ! (base x + k)) ((hn # level_list k h xs) @ (level_list k h ys @ [tn]))"
    using sl_okD(8) [OF ok k] by simp
  then have "links (\<lambda>x. ar ! (base x + k)) (as @ sl_pred hn h xs k # y # ys')" unfolding y as by simp
  then show ?thesis using links_step y by fastforce
qed

lemma sl_pred_level: "sl_pred hn h xs (Suc k) \<in> set (hn # level_list k h xs)"
  using sl_pred_cases [of hn h xs "Suc k"] by auto

lemma sl_pred_read:
  assumes blk: "blocks_ok A ar" and ok: "sl_ok A ar base ms hn tn (xs @ ys) h lev" and k: "k < ms"
    and tow: "tower (sl_pred hn h xs k) = Some (base (sl_pred hn h xs k))"
  shows "sz_add (base (sl_pred hn h xs k)) k = base (sl_pred hn h xs k) + k"
    "base (sl_pred hn h xs k) + k < length ar"
    "sl_next ar tower (sl_pred hn h xs k) k = Some (ar ! (base (sl_pred hn h xs k) + k))"
proof -
  obtain n where n: "A (base (sl_pred hn h xs k)) = Some n" "k < n" using sl_pred_cell [OF ok k] by blast
  show *: "sz_add (base (sl_pred hn h xs k)) k = base (sl_pred hn h xs k) + k"
    "base (sl_pred hn h xs k) + k < length ar"
    using cell_bound [OF blk n] by auto
  then show "sl_next ar tower (sl_pred hn h xs k) k = Some (ar ! (base (sl_pred hn h xs k) + k))"
    using tow by (simp add: sl_next_def)
qed

lemma sl_walk_level:
  assumes blk: "blocks_ok A ar" and ok: "sl_ok A ar base ms hn tn (xs @ ys) h lev" and k: "k < ms"
    and tow: "\<And>x. x \<in> set (hn # xs) \<Longrightarrow> tower x = Some (base x)"
    and lt: "\<And>x. x \<in> set xs \<Longrightarrow> lt x = Some True" "\<And>x. x \<in> set (ys @ [tn]) \<Longrightarrow> lt x = Some False"
    and p: "p \<in> set (hn # level_list k h xs)"
  shows "sl_walk ar tower lt k p = Some (sl_pred hn h xs k, hd (level_list k h ys @ [tn]))"
proof -
  obtain as us where split: "hn # level_list k h xs = as @ p # us" using p by (meson split_list)
  have us: "set us \<subseteq> set xs"
  proof (cases as)
    case Nil
    then show ?thesis using split by auto
  next
    case (Cons a as')
    then have "set us \<subseteq> set (level_list k h xs)" using split by auto
    then show ?thesis by auto
  qed
  obtain q rest where q: "level_list k h ys @ [tn] = q # rest" by (cases "level_list k h ys") auto
  have "links (\<lambda>x. ar ! (base x + k)) ((hn # level_list k h xs) @ (level_list k h ys @ [tn]))"
    using sl_okD(8) [OF ok k] by simp
  then have l: "links (\<lambda>x. ar ! (base x + k)) (p # us @ q # rest)"
    using links_append [of _ as p "us @ q # rest"] by (simp add: split q)
  have "sl_next ar tower x k = Some (ar ! (base x + k))" if "x \<in> set (p # us)" for x
  proof -
    have "x \<in> set (hn # level_list k h xs)" unfolding split using that by auto
    then have x: "x = hn \<or> x \<in> set (xs @ ys) \<and> k \<le> h x" "x \<in> set (hn # xs)" by auto
    then show ?thesis using sl_ok_cell [OF ok k x(1)] tow [OF x(2)] sl_next_eq [OF blk] by blast
  qed
  moreover have "q \<in> set (ys @ [tn])"
  proof -
    have "q \<in> set (level_list k h ys @ [tn])" by (simp add: q)
    then show ?thesis by auto
  qed
  ultimately have "sl_walk ar tower lt k p = Some (last (p # us), q)"
    using us by (intro sl_walk_spec [OF l]) (auto intro: lt)
  moreover have "last (p # us) = sl_pred hn h xs k" by (simp only: sl_pred_def split) simp
  ultimately show ?thesis by (simp add: q)
qed

primrec upd_ok :: "nat list option \<Rightarrow> nat \<Rightarrow> bool" where
  "upd_ok None k = True"
| "upd_ok (Some u) k = (k < length u)"

definition upd_fill :: "nat \<Rightarrow> (nat \<Rightarrow> nat) \<Rightarrow> nat list \<Rightarrow> nat \<Rightarrow> nat list \<Rightarrow> nat list" where
  "upd_fill hn h xs k u = map (\<lambda>j. if j \<le> k then sl_pred hn h xs j else u ! j) [0..<length u]"

lemma upd_fill_nth [simp]:
  "j < length u \<Longrightarrow> upd_fill hn h xs k u ! j = (if j \<le> k then sl_pred hn h xs j else u ! j)"
  by (simp add: upd_fill_def)

lemma upd_fill_length [simp]: "length (upd_fill hn h xs k u) = length u"
  by (simp add: upd_fill_def)

lemma upd_fill_0: "0 < length u \<Longrightarrow> u[0 := sl_pred hn h xs 0] = upd_fill hn h xs 0 u"
  by (rule nth_equalityI) (auto simp: nth_list_update)

lemma upd_fill_Suc:
  "Suc k < length u \<Longrightarrow> upd_fill hn h xs k (u[Suc k := sl_pred hn h xs (Suc k)]) = upd_fill hn h xs (Suc k) u"
  by (rule nth_equalityI) (auto simp: nth_list_update le_Suc_eq)

lemma sl_search_down:
  assumes blk: "blocks_ok A ar" and ok: "sl_ok A ar base ms hn tn (xs @ ys) h lev"
    and tow: "\<And>x. x \<in> set (hn # xs) \<Longrightarrow> tower x = Some (base x)"
    and lt: "\<And>x. x \<in> set xs \<Longrightarrow> lt x = Some True" "\<And>x. x \<in> set (ys @ [tn]) \<Longrightarrow> lt x = Some False"
    and "k < ms" "upd_ok u k"
  shows "sl_search ar tower lt k (sl_pred hn h xs (Suc k)) u =
           Some (last (hn # xs), hd (ys @ [tn]), map_option (upd_fill hn h xs k) u)"
  using assms(6,7)
proof (induction k arbitrary: u)
  case 0
  have "sl_walk ar tower lt 0 (sl_pred hn h xs (Suc 0)) =
      Some (sl_pred hn h xs 0, hd (level_list 0 h ys @ [tn]))"
    using 0 by (intro sl_walk_level [OF blk ok _ tow lt _] sl_pred_level) auto
  moreover have "sl_pred hn h xs 0 = last (hn # xs)" by (simp add: sl_pred_def)
  ultimately show ?case using 0 by (cases u) (auto simp: upd_fill_0 [symmetric])
next
  case (Suc k)
  have walk: "sl_walk ar tower lt (Suc k) (sl_pred hn h xs (Suc (Suc k))) =
      Some (sl_pred hn h xs (Suc k), hd (level_list (Suc k) h ys @ [tn]))"
    using Suc.prems by (intro sl_walk_level [OF blk ok _ tow lt _] sl_pred_level) auto
  show ?case
  proof (cases u)
    case None
    then show ?thesis using walk Suc.IH [of None] Suc.prems by simp
  next
    case (Some v)
    then show ?thesis
      using walk Suc.IH [of "Some (v[Suc k := sl_pred hn h xs (Suc k)])"] Suc.prems by (simp add: upd_fill_Suc)
  qed
qed

text \<open>
  A search from the head on the list's own level finds the boundary: the last passed node, the first
  node not passed, and in \<open>update\<close> the predecessors on every level.
\<close>

lemma sl_search_spec:
  assumes blk: "blocks_ok A ar" and ok: "sl_ok A ar base ms hn tn (xs @ ys) h lev"
    and tow: "\<And>x. x \<in> set (hn # xs) \<Longrightarrow> tower x = Some (base x)"
    and lt: "\<And>x. x \<in> set xs \<Longrightarrow> lt x = Some True" "\<And>x. x \<in> set (ys @ [tn]) \<Longrightarrow> lt x = Some False"
    and "upd_ok u lev"
  shows "sl_search ar tower lt lev hn u =
           Some (last (hn # xs), hd (ys @ [tn]), map_option (upd_fill hn h xs lev) u)"
proof -
  have "sl_pred hn h xs (Suc lev) = hn"
    using sl_okD(4) [OF ok] by (intro sl_pred_above) (simp add: le_imp_less_Suc)
  then show ?thesis using sl_search_down [OF blk ok tow lt sl_okD(3) [OF ok] assms(6)] by simp
qed


subsection \<open>Insertion\<close>

lemma links_insert:
  assumes "links nx (xs @ p # y # ys)" "nx' p = new" "nx' new = y"
    and "\<And>x. x \<in> set xs \<union> set (butlast (y # ys)) \<Longrightarrow> nx' x = nx x"
  shows "links nx' (xs @ p # new # y # ys)"
proof -
  have l: "links nx (xs @ [p])" "links nx (p # y # ys)"
    using assms(1) links_append [of nx xs p "y # ys"] by auto
  have "links nx' (xs @ [p])" by (rule links_cong [OF l(1)]) (use assms(4) in auto)
  moreover have "links nx' (y # ys)" by (rule links_cong [of nx]) (use l(2) assms(4) in auto)
  ultimately show ?thesis using assms(2,3) links_append [of nx' xs p "new # y # ys"] by simp
qed

lemma links_remove:
  assumes "links nx (xs @ p # q # y # ys)" "nx' p = y"
    and "\<And>x. x \<in> set xs \<union> set (butlast (y # ys)) \<Longrightarrow> nx' x = nx x"
  shows "links nx' (xs @ p # y # ys)"
proof -
  have l: "links nx (xs @ [p])" "links nx (p # q # y # ys)"
    using assms(1) links_append [of nx xs p "q # y # ys"] by auto
  have "links nx' (xs @ [p])" by (rule links_cong [OF l(1)]) (use assms(3) in auto)
  moreover have "links nx' (y # ys)" by (rule links_cong [of nx]) (use l(2) assms(3) in auto)
  ultimately show ?thesis using assms(2) links_append [of nx' xs p "y # ys"] by simp
qed

lemma links_insert_after:
  assumes l: "links nx (a # X @ Y @ [z])" and d: "distinct (a # X @ Y)"
    and p: "nx' (last (a # X)) = new" "nx' new = nx (last (a # X))"
    and same: "\<And>x. x \<in> set (a # X @ Y) \<Longrightarrow> x \<noteq> last (a # X) \<Longrightarrow> nx' x = nx x"
  shows "links nx' (a # X @ new # Y @ [z])"
proof -
  define as where "as = butlast (a # X)"
  define p where "p = last (a # X)"
  have as: "a # X = as @ [p]" unfolding as_def p_def by (rule append_butlast_last_id [symmetric]) simp
  obtain y ys where y: "Y @ [z] = y # ys" by (cases Y) auto
  have Y: "butlast (y # ys) = Y" by (simp only: y [symmetric] butlast_snoc)
  have all: "a # X @ W = as @ p # W" for W using as by simp
  have d': "distinct (as @ p # Y)" using d unfolding all .
  have l': "links nx (as @ p # y # ys)" using l unfolding y all .
  have "links nx' (as @ p # new # y # ys)"
  proof (rule links_insert [OF l'])
    show "nx' p = new" using p(1) by (simp add: p_def)
    show "nx' new = y" using p(2) links_step [OF l'] by (simp add: p_def)
    show "nx' x = nx x" if "x \<in> set as \<union> set (butlast (y # ys))" for x
      using that d' unfolding Y by (intro same) (auto simp: all p_def [symmetric] simp del: last.simps)
  qed
  then show ?thesis unfolding y all .
qed

lemma links_remove_after:
  assumes l: "links nx (a # X @ q # Y @ [z])" and d: "distinct (a # X @ Y)"
    and p: "nx' (last (a # X)) = nx q"
    and same: "\<And>x. x \<in> set (a # X @ Y) \<Longrightarrow> x \<noteq> last (a # X) \<Longrightarrow> nx' x = nx x"
  shows "links nx' (a # X @ Y @ [z])"
proof -
  define as where "as = butlast (a # X)"
  define p where "p = last (a # X)"
  have as: "a # X = as @ [p]" unfolding as_def p_def by (rule append_butlast_last_id [symmetric]) simp
  obtain y ys where y: "Y @ [z] = y # ys" by (cases Y) auto
  have Y: "butlast (y # ys) = Y" by (simp only: y [symmetric] butlast_snoc)
  have all: "a # X @ W = as @ p # W" for W using as by simp
  have d': "distinct (as @ p # Y)" using d unfolding all .
  have l': "links nx (as @ p # q # y # ys)" using l unfolding y all .
  have "links nx' (as @ p # y # ys)"
  proof (rule links_remove [OF l'])
    show "nx' p = y" using assms(3) links_step [of nx "as @ [p]" q y ys] l' by (simp add: p_def)
    show "nx' x = nx x" if "x \<in> set as \<union> set (butlast (y # ys))" for x
      using that d' unfolding Y by (intro same) (auto simp: all p_def [symmetric] simp del: last.simps)
  qed
  then show ?thesis unfolding y all .
qed

text \<open>The effect of the linking loop on the cells, for predecessors \<open>u\<close> with pairwise different cells.\<close>

lemma sl_link_cells:
  assumes "\<And>j. j \<le> k \<Longrightarrow> j < length u \<and> tower (u ! j) = Some (base (u ! j)) \<and>
              base (u ! j) + j < length ar \<and> base new + j < length ar"
    and "\<And>i j. i \<le> k \<Longrightarrow> j \<le> k \<Longrightarrow> base new + i \<noteq> base (u ! j) + j"
    and "\<And>i j. i \<le> k \<Longrightarrow> j \<le> k \<Longrightarrow> i \<noteq> j \<Longrightarrow> base (u ! i) + i \<noteq> base (u ! j) + j"
    and "tower new = Some (base new)" "length ar < SIZE_NONE"
  shows "\<exists>ar'. sl_link k u tower new ar = Some ar' \<and> length ar' = length ar \<and>
    (\<forall>j \<le> k. ar' ! (base (u ! j) + j) = new \<and> ar' ! (base new + j) = ar ! (base (u ! j) + j)) \<and>
    (\<forall>a. (\<forall>j \<le> k. a \<noteq> base new + j \<and> a \<noteq> base (u ! j) + j) \<longrightarrow> ar' ! a = ar ! a)"
  using assms
proof (induction k arbitrary: ar)
  case 0
  let ?p = "base (u ! 0)"
  have P: "0 < length u" "tower (u ! 0) = Some ?p" "?p < length ar" "base new < length ar"
    "base new \<noteq> ?p" using 0(1) [of 0] 0(2) [of 0 0] by auto
  then have "sz_add ?p 0 = ?p" "sz_add (base new) 0 = base new"
    using 0(5) by (auto simp: SIZE_NONE_def intro!: sz_add_small [of _ 0, simplified])
  then show ?case using P 0(4) by (auto simp: sl_link1_def sl_next_def nth_list_update)
next
  case (Suc k)
  let ?i = "Suc k" let ?p = "base (u ! Suc k)"
  have P: "?i < length u" "tower (u ! ?i) = Some ?p" "?p + ?i < length ar" "base new + ?i < length ar"
    using Suc.prems(1) [of ?i] by auto
  then have sz: "sz_add ?p ?i = ?p + ?i" "sz_add (base new) ?i = base new + ?i"
    using Suc.prems(5) by (auto simp: SIZE_NONE_def)
  define ar1 where "ar1 = ar[base new + ?i := ar ! (?p + ?i), ?p + ?i := new]"
  have step: "sl_link1 ?i u tower new ar = Some ar1"
    using P sz Suc.prems(4) by (simp add: sl_link1_def sl_next_def ar1_def)
  have ne: "base new + ?i \<noteq> ?p + ?i" using Suc.prems(2) [of ?i ?i] by simp
  have "\<exists>ar'. sl_link k u tower new ar1 = Some ar' \<and> length ar' = length ar1 \<and>
    (\<forall>j \<le> k. ar' ! (base (u ! j) + j) = new \<and> ar' ! (base new + j) = ar1 ! (base (u ! j) + j)) \<and>
    (\<forall>a. (\<forall>j \<le> k. a \<noteq> base new + j \<and> a \<noteq> base (u ! j) + j) \<longrightarrow> ar' ! a = ar1 ! a)"
    by (rule Suc.IH) (use Suc.prems in \<open>auto simp: ar1_def\<close>)
  then obtain ar' where ar': "sl_link k u tower new ar1 = Some ar'" "length ar' = length ar"
    and low: "\<And>j. j \<le> k \<Longrightarrow> ar' ! (base (u ! j) + j) = new \<and> ar' ! (base new + j) = ar1 ! (base (u ! j) + j)"
    and same: "\<And>a. (\<And>j. j \<le> k \<Longrightarrow> a \<noteq> base new + j \<and> a \<noteq> base (u ! j) + j) \<Longrightarrow> ar' ! a = ar1 ! a"
    by (auto simp: ar1_def)
  have "ar' ! (base (u ! j) + j) = new \<and> ar' ! (base new + j) = ar ! (base (u ! j) + j)" if j: "j \<le> ?i" for j
  proof (cases "j = ?i")
    case True
    have "ar' ! (?p + ?i) = ar1 ! (?p + ?i)"
    proof (rule same)
      fix l assume "l \<le> k"
      then show "?p + ?i \<noteq> base new + l \<and> ?p + ?i \<noteq> base (u ! l) + l"
        using Suc.prems(2) [of l ?i] Suc.prems(3) [of ?i l] by auto
    qed
    moreover have "ar' ! (base new + ?i) = ar1 ! (base new + ?i)"
    proof (rule same)
      fix l assume "l \<le> k"
      then show "base new + ?i \<noteq> base new + l \<and> base new + ?i \<noteq> base (u ! l) + l"
        using Suc.prems(2) [of ?i l] by auto
    qed
    ultimately show ?thesis using True P ne by (simp add: ar1_def nth_list_update)
  next
    case False
    then have jk: "j \<le> k" using j by simp
    have "ar1 ! (base (u ! j) + j) = ar ! (base (u ! j) + j)"
      using Suc.prems(2) [of ?i j] Suc.prems(3) [of ?i j] jk by (simp add: ar1_def nth_list_update)
    then show ?thesis using low [OF jk] by simp
  qed
  moreover have "ar' ! a = ar ! a" if a: "\<forall>j \<le> ?i. a \<noteq> base new + j \<and> a \<noteq> base (u ! j) + j" for a
  proof -
    have "ar' ! a = ar1 ! a" by (rule same) (use a in auto)
    also have "\<dots> = ar ! a" using spec [OF a, of ?i] by (simp add: ar1_def nth_list_update)
    finally show ?thesis .
  qed
  ultimately show ?case using step ar' by auto
qed

text \<open>
  Linking a node with a fresh tower of height \<open>k\<close> at the boundary between \<open>xs\<close> and \<open>ys\<close> writes only
  the predecessors' cells and the new tower.
\<close>

lemma sl_link_at:
  assumes blk: "blocks_ok A ar" and ok: "sl_ok A ar base ms hn tn (xs @ ys) h lev"
    and new: "base new \<notin> base ` set (hn # tn # xs @ ys)"
    and n: "A (base new) = Some n" "k < n" and k: "k < ms"
    and tow: "\<And>x. x \<in> set (new # hn # xs) \<Longrightarrow> tower x = Some (base x)"
    and u: "\<And>j. j \<le> k \<Longrightarrow> j < length u \<and> u ! j = sl_pred hn h xs j"
  shows "\<exists>ar'. sl_link k u tower new ar = Some ar' \<and> length ar' = length ar \<and>
    (\<forall>j \<le> k. ar' ! (base (sl_pred hn h xs j) + j) = new \<and>
       ar' ! (base new + j) = ar ! (base (sl_pred hn h xs j) + j)) \<and>
    (\<forall>b m i. A b = Some m \<longrightarrow> i < m \<longrightarrow> b \<noteq> base new \<longrightarrow>
       k < i \<or> b \<noteq> base (sl_pred hn h xs i) \<longrightarrow> ar' ! (b + i) = ar ! (b + i)) \<and>
    (\<forall>a. outside A a \<longrightarrow> ar' ! a = ar ! a)"
proof -
  let ?p = "\<lambda>j. sl_pred hn h xs j"
  have np: "base (?p j) \<noteq> base new" for j
  proof -
    have "base (?p j) \<in> base ` set (hn # tn # xs @ ys)" using sl_pred_in [of hn h xs j] by auto
    then show ?thesis using new by metis
  qed
  have cell: "\<exists>m. A (base (?p j)) = Some m \<and> j < m" if "j \<le> k" for j
    using sl_pred_cell [OF ok] that k by simp
  have tp: "tower (?p j) = Some (base (?p j))" for j using tow [of "?p j"] sl_pred_in [of hn h xs j] by auto
  have uj: "u ! j = ?p j" "j < length u" if "j \<le> k" for j using u that by auto
  have ne: "base new + i \<noteq> base (?p j) + j" if ij: "i \<le> k" "j \<le> k" for i j
  proof -
    obtain m where "A (base (?p j)) = Some m" "j < m" using cell ij by blast
    then show ?thesis using ij n np [of j, symmetric] by (intro cell_neq [OF blk n(1)]) auto
  qed
  have "\<exists>ar'. sl_link k u tower new ar = Some ar' \<and> length ar' = length ar \<and>
    (\<forall>j \<le> k. ar' ! (base (u ! j) + j) = new \<and> ar' ! (base new + j) = ar ! (base (u ! j) + j)) \<and>
    (\<forall>a. (\<forall>j \<le> k. a \<noteq> base new + j \<and> a \<noteq> base (u ! j) + j) \<longrightarrow> ar' ! a = ar ! a)"
  proof (rule sl_link_cells)
    fix j assume j: "j \<le> k"
    then show "j < length u \<and> tower (u ! j) = Some (base (u ! j)) \<and>
        base (u ! j) + j < length ar \<and> base new + j < length ar"
      using uj [OF j] tp sl_pred_read(2) [where tower = tower and k = j, OF blk ok] cell_bound [OF blk n(1)] n j k by auto
  qed (use ne sl_pred_cells_neq [OF blk ok] uj tow blocks_okD(1) [OF blk] k in auto)
  then obtain ar' where ar': "sl_link k u tower new ar = Some ar'" "length ar' = length ar"
    "\<forall>j \<le> k. ar' ! (base (u ! j) + j) = new \<and> ar' ! (base new + j) = ar ! (base (u ! j) + j)"
    "\<forall>a. (\<forall>j \<le> k. a \<noteq> base new + j \<and> a \<noteq> base (u ! j) + j) \<longrightarrow> ar' ! a = ar ! a"
    by blast
  have "ar' ! (b + i) = ar ! (b + i)"
    if b: "A b = Some m" "i < m" "b \<noteq> base new" "k < i \<or> b \<noteq> base (?p i)" for b m i
  proof -
    have "b + i \<noteq> base new + j \<and> b + i \<noteq> base (?p j) + j" if j: "j \<le> k" for j
    proof -
      obtain m' where m': "A (base (?p j)) = Some m'" "j < m'" using cell [OF j] by blast
      show ?thesis using b j n m'
        by (intro conjI cell_neq [OF blk b(1) n(1) b(2)] cell_neq [OF blk b(1) m'(1) b(2)]) auto
    qed
    then show ?thesis using ar'(4) uj by simp
  qed
  moreover have "ar' ! a = ar ! a" if "outside A a" for a
    using outsideD [OF that] cell n uj by (intro ar'(4) [rule_format]) (metis le_less_trans)
  ultimately show ?thesis using ar'(1-3) uj by auto
qed

text \<open>Hence the node is inserted there on all of its levels.\<close>

lemma sl_link_spec:
  assumes blk: "blocks_ok A ar" and ok: "sl_ok A ar base ms hn tn (xs @ ys) h lev"
    and new: "new \<notin> set (hn # tn # xs @ ys)" "base new \<notin> base ` set (hn # tn # xs @ ys)"
    and n: "A (base new) = Some n" "k < n" and k: "k < ms"
    and tow: "\<And>x. x \<in> set (new # hn # xs) \<Longrightarrow> tower x = Some (base x)"
    and u: "\<And>j. j \<le> k \<Longrightarrow> j < length u \<and> u ! j = sl_pred hn h xs j"
  shows "\<exists>ar'. sl_link k u tower new ar = Some ar' \<and> length ar' = length ar \<and>
    sl_ok A ar' base ms hn tn (xs @ new # ys) (h(new := k)) (max lev k) \<and>
    (\<forall>b m i. A b = Some m \<longrightarrow> b \<notin> base ` set (hn # new # xs) \<longrightarrow> i < m \<longrightarrow> ar' ! (b + i) = ar ! (b + i)) \<and>
    (\<forall>a. outside A a \<longrightarrow> ar' ! a = ar ! a)"
proof -
  note D = sl_okD [OF ok]
  obtain ar' where link: "sl_link k u tower new ar = Some ar'" and len: "length ar' = length ar"
    and on: "\<And>j. j \<le> k \<Longrightarrow> ar' ! (base (sl_pred hn h xs j) + j) = new"
      "\<And>j. j \<le> k \<Longrightarrow> ar' ! (base new + j) = ar ! (base (sl_pred hn h xs j) + j)"
    and off: "\<And>b m i. A b = Some m \<Longrightarrow> i < m \<Longrightarrow> b \<noteq> base new \<Longrightarrow>
       k < i \<or> b \<noteq> base (sl_pred hn h xs i) \<Longrightarrow> ar' ! (b + i) = ar ! (b + i)"
    and out: "\<And>a. outside A a \<Longrightarrow> ar' ! a = ar ! a"
    using sl_link_at [OF blk ok new(2) n k tow u] by blast
  have keep: "ar' ! (base x + j) = ar ! (base x + j)"
    if x: "x = hn \<or> x \<in> set (xs @ ys) \<and> j \<le> h x" "j < ms" and xp: "k < j \<or> x \<noteq> sl_pred hn h xs j" for x j
  proof -
    obtain m where m: "A (base x) = Some m" "j < m" using sl_ok_cell [OF ok x(2,1)] by blast
    have "base x \<in> base ` set (hn # tn # xs @ ys)" using x(1) by auto
    then have "base x \<noteq> base new" using new(2) by metis
    moreover have "base x \<noteq> base (sl_pred hn h xs j)" if "x \<noteq> sl_pred hn h xs j"
      using inj_onD [OF D(2), of x "sl_pred hn h xs j"] x(1) sl_pred_in [of hn h xs j] that by auto
    ultimately show ?thesis using xp by (intro off [OF m]) auto
  qed
  have lv: "level_list j (h(new := k)) xs = level_list j h xs" "level_list j (h(new := k)) ys = level_list j h ys" for j
    by (rule level_list_cong; use new(1) in auto)+
  have lk: "links (\<lambda>x. ar' ! (base x + j)) (hn # level_list j (h(new := k)) (xs @ new # ys) @ [tn])" if j: "j < ms" for j
  proof (cases "j \<le> k")
    case False
    have "links (\<lambda>x. ar' ! (base x + j)) (hn # level_list j h (xs @ ys) @ [tn])"
      using False by (intro links_cong [OF D(8) [OF j]] keep [OF _ j]) (auto simp: butlast_append split: if_splits)
    then show ?thesis using False lv by simp
  next
    case True
    have "links (\<lambda>x. ar' ! (base x + j)) (hn # level_list j h xs @ new # level_list j h ys @ [tn])"
      using D(8) [OF j] D(1) on [OF True]
      by (intro links_insert_after [of "\<lambda>x. ar ! (base x + j)"] keep [OF _ j])
         (auto simp: sl_pred_def level_list_def)
    then show ?thesis using True lv by simp
  qed
  have "sl_ok A ar' base ms hn tn (xs @ new # ys) (h(new := k)) (max lev k)"
    unfolding sl_ok_def
  proof (intro conjI ballI allI impI lk)
    show "distinct (hn # tn # xs @ new # ys)" using D(1) new(1) by auto
    have "set (hn # tn # xs @ new # ys) = insert new (set (hn # tn # xs @ ys))" by auto
    then show "inj_on base (set (hn # tn # xs @ new # ys))"
      using D(2) new(2) by (simp only: inj_on_insert) blast
    show "max lev k < ms" using D(3) k by simp
    show "(h(new := k)) x \<le> max lev k" if "x \<in> set (xs @ new # ys)" for x
      using that D(4) [of x] new(1) by auto
    show "\<exists>n. A (base x) = Some n \<and> (h(new := k)) x < n" if "x \<in> set (xs @ new # ys)" for x
      using that D(5) [of x] new(1) n by auto
  qed (use D(6,7) in auto)
  moreover have "ar' ! (b + i) = ar ! (b + i)"
    if "A b = Some m" "b \<notin> base ` set (hn # new # xs)" "i < m" for b m i
    using that sl_pred_in [of hn h xs i] by (intro off [OF that(1,3)]) auto
  ultimately show ?thesis using link len out by blast
qed

subsection \<open>Deletion\<close>

lemma sl_unlink_cells:
  assumes "k + todo = Suc lev" "k \<le> Suc hq" "hq \<le> lev"
    and "\<And>j. j \<le> lev \<Longrightarrow> j < length u"
    and "\<And>j. k \<le> j \<Longrightarrow> j \<le> hq \<Longrightarrow> sl_next ar tower (u ! j) j = Some q \<and> tower (u ! j) = Some (base (u ! j)) \<and>
            sz_add (base (u ! j)) j = base (u ! j) + j \<and> base (u ! j) + j < length ar \<and>
            tower q = Some (base q) \<and> sz_add (base q) j = base q + j \<and> base q + j < length ar"
    and "\<And>i j. k \<le> i \<Longrightarrow> i \<le> hq \<Longrightarrow> k \<le> j \<Longrightarrow> j \<le> hq \<Longrightarrow> base q + i \<noteq> base (u ! j) + j"
    and "\<And>i j. k \<le> i \<Longrightarrow> i \<le> hq \<Longrightarrow> k \<le> j \<Longrightarrow> j \<le> Suc hq \<Longrightarrow> j \<le> lev \<Longrightarrow> i \<noteq> j \<Longrightarrow>
            base (u ! i) + i \<noteq> base (u ! j) + j"
    and "hq < lev \<Longrightarrow> tower (u ! Suc hq) = Some (base (u ! Suc hq)) \<and>
           sz_add (base (u ! Suc hq)) (Suc hq) = base (u ! Suc hq) + Suc hq \<and>
           base (u ! Suc hq) + Suc hq < length ar \<and> ar ! (base (u ! Suc hq) + Suc hq) \<noteq> q"
  shows "\<exists>ar'. sl_unlink todo k u tower q ar = Some (Suc hq, ar') \<and> length ar' = length ar \<and>
    (\<forall>j. k \<le> j \<longrightarrow> j \<le> hq \<longrightarrow> ar' ! (base (u ! j) + j) = ar ! (base q + j)) \<and>
    (\<forall>a. (\<forall>j. k \<le> j \<longrightarrow> j \<le> hq \<longrightarrow> a \<noteq> base (u ! j) + j) \<longrightarrow> ar' ! a = ar ! a)"
  using assms
proof (induction todo arbitrary: k ar)
  case 0
  then show ?case by auto
next
  case (Suc todo)
  show ?case
  proof (cases "k = Suc hq")
    case True
    then have k: "k = Suc hq" "hq < lev" "k < length u" using Suc.prems(1,4) by auto
    then have "sl_next ar tower (u ! k) k = Some (ar ! (base (u ! k) + k))"
      using Suc.prems(8) by (simp add: sl_next_def)
    then show ?thesis using k Suc.prems(8) by auto
  next
    case False
    then have kh: "k \<le> hq" using Suc.prems(2) by simp
    let ?p = "base (u ! k)"
    have P: "sl_next ar tower (u ! k) k = Some q" "tower (u ! k) = Some ?p" "sz_add ?p k = ?p + k"
      "?p + k < length ar" "tower q = Some (base q)" "sz_add (base q) k = base q + k" "base q + k < length ar"
      using Suc.prems(5) [OF _ kh] by auto
    have ku: "k < length u" using kh Suc.prems(3,4) by simp
    define ar1 where "ar1 = ar[?p + k := ar ! (base q + k)]"
    have step: "sl_unlink (Suc todo) k u tower q ar = sl_unlink todo (Suc k) u tower q ar1"
      using P ku by (simp add: sl_next_def ar1_def)
    have ne: "?p + k \<noteq> base (u ! j) + j" if "Suc k \<le> j" "j \<le> Suc hq" "j \<le> lev" for j
      using Suc.prems(7) [of k j] kh that by simp
    have other: "ar1 ! (base (u ! j) + j) = ar ! (base (u ! j) + j)" if "Suc k \<le> j" "j \<le> Suc hq" "j \<le> lev" for j
      using ne [OF that] by (simp add: ar1_def nth_list_update)
    have "\<exists>ar'. sl_unlink todo (Suc k) u tower q ar1 = Some (Suc hq, ar') \<and> length ar' = length ar1 \<and>
      (\<forall>j. Suc k \<le> j \<longrightarrow> j \<le> hq \<longrightarrow> ar' ! (base (u ! j) + j) = ar1 ! (base q + j)) \<and>
      (\<forall>a. (\<forall>j. Suc k \<le> j \<longrightarrow> j \<le> hq \<longrightarrow> a \<noteq> base (u ! j) + j) \<longrightarrow> ar' ! a = ar1 ! a)"
    proof (rule Suc.IH)
      fix j assume j: "Suc k \<le> j" "j \<le> hq"
      then have "sl_next ar1 tower (u ! j) j = Some q"
        using Suc.prems(5) [of j] other [of j] Suc.prems(3) by (auto simp: sl_next_def ar1_def)
      then show "sl_next ar1 tower (u ! j) j = Some q \<and> tower (u ! j) = Some (base (u ! j)) \<and>
            sz_add (base (u ! j)) j = base (u ! j) + j \<and> base (u ! j) + j < length ar1 \<and>
            tower q = Some (base q) \<and> sz_add (base q) j = base q + j \<and> base q + j < length ar1"
        using Suc.prems(5) [of j] j by (simp add: ar1_def)
    next
      assume "hq < lev"
      then show "tower (u ! Suc hq) = Some (base (u ! Suc hq)) \<and>
           sz_add (base (u ! Suc hq)) (Suc hq) = base (u ! Suc hq) + Suc hq \<and>
           base (u ! Suc hq) + Suc hq < length ar1 \<and> ar1 ! (base (u ! Suc hq) + Suc hq) \<noteq> q"
        using Suc.prems(8) other [of "Suc hq"] kh by (simp add: ar1_def)
    qed (use Suc.prems kh in auto)
    then obtain ar' where ar': "sl_unlink todo (Suc k) u tower q ar1 = Some (Suc hq, ar')" "length ar' = length ar"
      and hi: "\<And>j. Suc k \<le> j \<Longrightarrow> j \<le> hq \<Longrightarrow> ar' ! (base (u ! j) + j) = ar1 ! (base q + j)"
      and off: "\<And>a. \<forall>j. Suc k \<le> j \<longrightarrow> j \<le> hq \<longrightarrow> a \<noteq> base (u ! j) + j \<Longrightarrow> ar' ! a = ar1 ! a"
      by (auto simp: ar1_def)
    have "ar' ! (base (u ! j) + j) = ar ! (base q + j)" if j: "k \<le> j" "j \<le> hq" for j
    proof (cases "j = k")
      case True
      have "ar' ! (?p + k) = ar1 ! (?p + k)" using ne Suc.prems(3) by (intro off) auto
      then show ?thesis using True P by (simp add: ar1_def)
    next
      case False
      then have "ar' ! (base (u ! j) + j) = ar1 ! (base q + j)" using j by (intro hi) auto
      also have "\<dots> = ar ! (base q + j)"
        using Suc.prems(6) [of j k] j kh by (simp add: ar1_def nth_list_update)
      finally show ?thesis .
    qed
    moreover have "ar' ! a = ar ! a" if "\<forall>j. k \<le> j \<longrightarrow> j \<le> hq \<longrightarrow> a \<noteq> base (u ! j) + j" for a
    proof -
      have "ar' ! a = ar1 ! a" using that by (intro off) auto
      then show ?thesis using that kh by (auto simp: ar1_def nth_list_update)
    qed
    ultimately show ?thesis unfolding step using ar' by auto
  qed
qed

text \<open>
  Unlinking the node after the boundary removes it from all of its levels; the loop's counter ends at
  the number of those levels, the size of the tower to give back.
\<close>

lemma sl_unlink_spec:
  assumes blk: "blocks_ok A ar" and ok: "sl_ok A ar base ms hn tn (xs @ q # ys) h lev"
    and tow: "\<And>x. x \<in> set (hn # q # xs) \<Longrightarrow> tower x = Some (base x)"
    and u: "\<And>j. j \<le> lev \<Longrightarrow> j < length u \<and> u ! j = sl_pred hn h xs j"
  shows "\<exists>ar'. sl_unlink (Suc lev) 0 u tower q ar = Some (Suc (h q), ar') \<and> length ar' = length ar \<and>
    sl_ok A ar' base ms hn tn (xs @ ys) h lev \<and>
    (\<forall>b m i. A b = Some m \<longrightarrow> b \<notin> base ` set (hn # xs) \<longrightarrow> i < m \<longrightarrow> ar' ! (b + i) = ar ! (b + i)) \<and>
    (\<forall>a. outside A a \<longrightarrow> ar' ! a = ar ! a)"
proof -
  note D = sl_okD [OF ok]
  let ?p = "\<lambda>j. sl_pred hn h xs j"
  have p: "?p j \<in> set (hn # xs)" for j by (rule sl_pred_in)
  have hq: "h q \<le> lev" "lev < ms" using D(3,4) by auto
  obtain n where n: "A (base q) = Some n" "h q < n" using D(5) [of q] by auto
  have tp: "tower (?p j) = Some (base (?p j))" for j using tow [of "?p j"] p [of j] by auto
  have uj: "u ! j = ?p j" "j < length u" if "j \<le> lev" for j using u that by auto
  have nq: "base q \<noteq> base (?p j)" for j
    using inj_onD [OF D(2), of q "?p j"] p [of j] D(1) by auto
  have ne: "base q + i \<noteq> base (?p j) + j" if ij: "i \<le> h q" "j \<le> lev" for i j
  proof -
    obtain m where "A (base (?p j)) = Some m" "j < m" using sl_pred_cell [OF ok, of j] ij hq by auto
    then show ?thesis using ij n nq [of j] by (intro cell_neq [OF blk n(1)]) auto
  qed
  note rd = sl_pred_read [where tower = tower, OF blk ok]
  have qfirst: "ar ! (base (?p j) + j) = q" if "j \<le> h q" for j
    using sl_pred_next [OF ok, of j] that hq by simp
  have qlast: "ar ! (base (?p (Suc (h q))) + Suc (h q)) \<noteq> q" if "h q < lev"
  proof -
    have "hd (level_list (Suc (h q)) h ys @ [tn]) \<in> set (level_list (Suc (h q)) h ys @ [tn])" by (rule hd_in_set) simp
    then show ?thesis using sl_pred_next [OF ok, of "Suc (h q)"] that hq D(1) by auto
  qed
  have "\<exists>ar'. sl_unlink (Suc lev) 0 u tower q ar = Some (Suc (h q), ar') \<and> length ar' = length ar \<and>
    (\<forall>j. 0 \<le> j \<longrightarrow> j \<le> h q \<longrightarrow> ar' ! (base (u ! j) + j) = ar ! (base q + j)) \<and>
    (\<forall>a. (\<forall>j. 0 \<le> j \<longrightarrow> j \<le> h q \<longrightarrow> a \<noteq> base (u ! j) + j) \<longrightarrow> ar' ! a = ar ! a)"
  proof (rule sl_unlink_cells)
    show "j < length u" if "j \<le> lev" for j using uj that by simp
    show "sl_next ar tower (u ! j) j = Some q \<and> tower (u ! j) = Some (base (u ! j)) \<and>
        sz_add (base (u ! j)) j = base (u ! j) + j \<and> base (u ! j) + j < length ar \<and>
        tower q = Some (base q) \<and> sz_add (base q) j = base q + j \<and> base q + j < length ar"
      if "0 \<le> j" "j \<le> h q" for j
      using that uj [of j] hq rd [of j] tp qfirst [of j] tow [of q] cell_bound [OF blk n(1), of j] n(2) by simp
    show "tower (u ! Suc (h q)) = Some (base (u ! Suc (h q))) \<and>
        sz_add (base (u ! Suc (h q))) (Suc (h q)) = base (u ! Suc (h q)) + Suc (h q) \<and>
        base (u ! Suc (h q)) + Suc (h q) < length ar \<and> ar ! (base (u ! Suc (h q)) + Suc (h q)) \<noteq> q"
      if "h q < lev"
      using that uj [of "Suc (h q)"] hq rd [of "Suc (h q)"] tp qlast by simp
  qed (use uj ne hq sl_pred_cells_neq [OF blk ok] in auto)
  then obtain ar' where un: "sl_unlink (Suc lev) 0 u tower q ar = Some (Suc (h q), ar')" "length ar' = length ar"
    and on: "\<And>j. j \<le> h q \<Longrightarrow> ar' ! (base (?p j) + j) = ar ! (base q + j)"
    and off: "\<And>a. \<forall>j \<le> h q. a \<noteq> base (?p j) + j \<Longrightarrow> ar' ! a = ar ! a"
    using uj hq by auto
  have keep: "ar' ! (b + i) = ar ! (b + i)"
    if b: "A b = Some m" "i < m" "h q < i \<or> b \<noteq> base (?p i)" for b m i
  proof (rule off, intro allI impI)
    fix j assume j: "j \<le> h q"
    obtain m' where m': "A (base (?p j)) = Some m'" "j < m'" using sl_pred_cell [OF ok, of j] j hq by auto
    show "b + i \<noteq> base (?p j) + j" using b j m' by (intro cell_neq [OF blk b(1) m'(1) b(2)]) auto
  qed
  have keep': "ar' ! (base x + j) = ar ! (base x + j)"
    if x: "x = hn \<or> x \<in> set (xs @ q # ys) \<and> j \<le> h x" "j < ms" and xp: "h q < j \<or> x \<noteq> ?p j" for x j
  proof -
    obtain m where m: "A (base x) = Some m" "j < m" using sl_ok_cell [OF ok x(2,1)] by blast
    have "base x \<noteq> base (?p j)" if "x \<noteq> ?p j"
      using inj_onD [OF D(2), of x "?p j"] x(1) p [of j] that by auto
    then show ?thesis using xp by (intro keep [OF m]) auto
  qed
  have lk: "links (\<lambda>x. ar' ! (base x + j)) (hn # level_list j h (xs @ ys) @ [tn])" if j: "j < ms" for j
  proof (cases "j \<le> h q")
    case False
    have "links (\<lambda>x. ar' ! (base x + j)) (hn # level_list j h (xs @ q # ys) @ [tn])"
      using False by (intro links_cong [OF D(8) [OF j]] keep' [OF _ j]) (auto simp: butlast_append split: if_splits)
    then show ?thesis using False by simp
  next
    case True
    have "links (\<lambda>x. ar' ! (base x + j)) (hn # level_list j h xs @ level_list j h ys @ [tn])"
      using D(8) [OF j] D(1) on [OF True] True
      by (intro links_remove_after [of "\<lambda>x. ar ! (base x + j)" _ _ q] keep' [OF _ j])
         (auto simp: sl_pred_def level_list_def)
    then show ?thesis by simp
  qed
  have "sl_ok A ar' base ms hn tn (xs @ ys) h lev"
    unfolding sl_ok_def
  proof (intro conjI ballI allI impI lk)
    show "inj_on base (set (hn # tn # xs @ ys))" by (rule inj_on_subset [OF D(2)]) auto
  qed (use D(1,3-7) in auto)
  moreover have "ar' ! (b + i) = ar ! (b + i)" if "A b = Some m" "b \<notin> base ` set (hn # xs)" "i < m" for b m i
    using that p [of i] by (intro keep [OF that(1,3)]) auto
  moreover have "ar' ! a = ar ! a" if "outside A a" for a
  proof (rule off, intro allI impI)
    fix j assume j: "j \<le> h q"
    obtain m where "A (base (?p j)) = Some m" "j < m" using sl_pred_cell [OF ok, of j] j hq by auto
    then show "a \<noteq> base (?p j) + j" by (rule outsideD [OF that])
  qed
  ultimately show ?thesis using un by blast
qed


subsection \<open>Lowering the level\<close>

lemma sl_lower_spec:
  assumes blk: "blocks_ok A ar" and ok: "sl_ok A ar base ms hn tn L h lev" and tow: "tower hn = Some (base hn)"
  shows "\<exists>m. sl_lower ar tower hn tn lev = Some m \<and> sl_ok A ar base ms hn tn L h m \<and> m \<le> lev"
  using ok
proof (induction lev)
  case 0
  then obtain n where "A (base hn) = Some n" "0 < n" using sl_ok_cell [OF 0, of 0 hn] sl_okD(3) [OF 0] by auto
  then have "sl_next ar tower hn 0 = Some (ar ! (base hn + 0))" using tow by (intro sl_next_eq [OF blk])
  then show ?case using 0 by simp
next
  case (Suc m)
  note D = sl_okD [OF Suc.prems]
  obtain n where "A (base hn) = Some n" "Suc m < n"
    using sl_ok_cell [OF Suc.prems, of "Suc m" hn] D(3) by auto
  then have nx: "sl_next ar tower hn (Suc m) = Some (ar ! (base hn + Suc m))" using tow by (intro sl_next_eq [OF blk])
  have first: "ar ! (base hn + Suc m) = hd (level_list (Suc m) h L @ [tn])"
    using sl_pred_next [of A ar base ms hn tn "[]" L h "Suc m" "Suc m"] Suc.prems D(3) by (simp add: sl_pred_def)
  show ?case
  proof (cases "ar ! (base hn + Suc m) = tn")
    case True
    have "level_list (Suc m) h L = []"
    proof (rule ccontr)
      assume "level_list (Suc m) h L \<noteq> []"
      then have "hd (level_list (Suc m) h L @ [tn]) \<in> set (level_list (Suc m) h L)"
        by (simp del: set_level_list)
      then show False using True first D(1) by auto
    qed
    then have "h x \<le> m" if "x \<in> set L" for x using that by (auto simp: level_list_def filter_empty_conv not_le)
    then have "sl_ok A ar base ms hn tn L h m" using Suc.prems unfolding sl_ok_def by auto
    then show ?thesis using Suc.IH nx True by (fastforce simp: le_Suc_eq)
  next
    case False
    then show ?thesis using nx Suc.prems by auto
  qed
qed

subsection \<open>Empty lists\<close>

lemma sl_fill_spec:
  assumes "\<And>j. j < todo \<Longrightarrow> sz_add t (i + j) = t + (i + j) \<and> t + (i + j) < length ar"
  shows "\<exists>ar'. sl_fill todo i t tn ar = Some ar' \<and> length ar' = length ar \<and>
    (\<forall>j < todo. ar' ! (t + (i + j)) = tn) \<and>
    (\<forall>a. a < t + i \<or> t + i + todo \<le> a \<longrightarrow> ar' ! a = ar ! a)"
  using assms
proof (induction todo arbitrary: i ar)
  case 0
  then show ?case by simp
next
  case (Suc todo)
  define ar1 where "ar1 = ar[t + i := tn]"
  have i: "sz_add t i = t + i" "t + i < length ar" using Suc.prems [of 0] by auto
  have "sz_add t (Suc i + j) = t + (Suc i + j) \<and> t + (Suc i + j) < length ar1" if "j < todo" for j
    using Suc.prems [of "Suc j"] that by (simp add: ar1_def)
  from Suc.IH [OF this] obtain ar' where ar': "sl_fill todo (Suc i) t tn ar1 = Some ar'" "length ar' = length ar1"
      "\<And>j. j < todo \<Longrightarrow> ar' ! (t + (Suc i + j)) = tn"
      "\<And>a. a < t + Suc i \<or> t + Suc i + todo \<le> a \<Longrightarrow> ar' ! a = ar1 ! a" by blast
  have "ar' ! (t + (i + j)) = tn" if "j < Suc todo" for j
    using ar'(3) [of "j - 1"] ar'(4) [of "t + i"] that i by (cases j) (simp_all add: ar1_def)
  moreover have "ar' ! a = ar ! a" if "a < t + i \<or> t + i + Suc todo \<le> a" for a
    using ar'(4) [of a] that by (auto simp: ar1_def)
  ultimately show ?case using i ar'(1,2) by (simp add: ar1_def)
qed

lemma sl_ok_empty:
  assumes "hn \<noteq> tn" "base hn \<noteq> base tn" "0 < ms" "A (base hn) = Some n" "ms \<le> n" "A (base tn) = Some m"
    "\<And>k. k < ms \<Longrightarrow> ar ! (base hn + k) = tn"
  shows "sl_ok A ar base ms hn tn [] h 0"
  using assms by (auto simp: sl_ok_def)

lemma sl_ok_level:
  assumes "sl_ok A ar base ms hn tn L h lev" "lev \<le> lev'" "lev' < ms"
  shows "sl_ok A ar base ms hn tn L h lev'"
  using assms unfolding sl_ok_def by (meson le_trans)

lemma sl_ok_heights:
  assumes "sl_ok A ar base ms hn tn L h lev" "\<And>x. x \<in> set L \<Longrightarrow> h' x = h x"
  shows "sl_ok A ar base ms hn tn L h' lev"
proof -
  have "level_list k h' L = level_list k h L" for k by (rule level_list_cong) (use assms(2) in auto)
  moreover have "\<forall>x \<in> set L. h' x \<le> lev \<and> (\<exists>n. A (base x) = Some n \<and> h' x < n)"
    using sl_okD(4,5) [OF assms(1)] assms(2) by simp
  ultimately show ?thesis using sl_okD [OF assms(1)] unfolding sl_ok_def by presburger
qed


subsection \<open>Whole insertions and deletions\<close>

text \<open>The cells of every block of \<open>A\<close> whose start is not in \<open>S\<close> are the same in both arenas.\<close>

definition frame :: "(nat \<rightharpoonup> nat) \<Rightarrow> nat set \<Rightarrow> nat list \<Rightarrow> nat list \<Rightarrow> bool" where
  "frame A S ar ar' \<longleftrightarrow> (\<forall>b m i. A b = Some m \<longrightarrow> b \<notin> S \<longrightarrow> i < m \<longrightarrow> ar' ! (b + i) = ar ! (b + i))"

lemma frameD: "frame A S ar ar' \<Longrightarrow> A b = Some m \<Longrightarrow> b \<notin> S \<Longrightarrow> i < m \<Longrightarrow> ar' ! (b + i) = ar ! (b + i)"
  by (auto simp: frame_def)

lemma frame_trans:
  "frame A S ar ar1 \<Longrightarrow> frame A S ar1 ar2 \<Longrightarrow> frame A S ar ar2"
  by (auto simp: frame_def)

lemma frame_mono: "frame A S ar ar' \<Longrightarrow> S \<subseteq> T \<Longrightarrow> B \<subseteq>\<^sub>m A \<Longrightarrow> frame B T ar ar'"
  unfolding frame_def map_le_def by (metis domI subsetD)

text \<open>A list survives operations that leave its towers allocated and its cells alone.\<close>

lemma sl_ok_keep:
  assumes ok: "sl_ok A ar base ms hn tn L h lev" and fr: "frame A S ar ar'"
    and S: "base ` set (hn # tn # L) \<inter> S = {}"
    and A: "\<And>x. x \<in> set (hn # tn # L) \<Longrightarrow> A' (base x) = A (base x)"
    and base: "\<And>x. x \<in> set (hn # tn # L) \<Longrightarrow> base' x = base x"
  shows "sl_ok A' ar' base' ms hn tn L h lev"
proof (rule sl_ok_frame [OF ok _ base])
  fix x n k assume "x \<in> set (hn # L)" "A (base x) = Some n" "k < n"
  moreover from this have "base x \<notin> S" using S by auto
  ultimately show "ar' ! (base x + k) = ar ! (base x + k)" by (intro frameD [OF fr])
qed (use A in auto)

lemma sl_insert:
  assumes inv: "fb_inv fb A" and ok: "sl_ok A (fblks fb) base (maxsize fb) hn tn (xs @ ys) h lev"
    and new: "new \<notin> set (hn # tn # xs @ ys)" and k: "k < maxsize fb"
    and get: "FreeBlock_Get k fb = Some (b, fb1)" "b \<noteq> FBLK_NONE"
    and base: "base' new = b" "\<And>x. x \<in> set (hn # tn # xs @ ys) \<Longrightarrow> base' x = base x"
    and tow: "\<And>x. x \<in> set (new # hn # xs) \<Longrightarrow> tower x = Some (base' x)"
    and u: "\<And>j. j \<le> k \<Longrightarrow> j < length u \<and> u ! j = sl_pred hn h xs j"
  shows "\<exists>n ar'. A b = None \<and> k < n \<and> maxsize fb1 = maxsize fb \<and> sl_link k u tower new (fblks fb1) = Some ar' \<and>
    fb_inv (fb1\<lparr>fblks := ar'\<rparr>) (A(b \<mapsto> n)) \<and>
    sl_ok (A(b \<mapsto> n)) ar' base' (maxsize fb) hn tn (xs @ new # ys) (h(new := k)) (max lev k) \<and>
    frame A (base ` set (hn # xs)) (fblks fb) ar'"
proof -
  obtain n where n: "fb_inv fb1 (A(b \<mapsto> n))" "k < n" "A b = None" "maxsize fb1 = maxsize fb"
      and same: "\<forall>t m i. A t = Some m \<longrightarrow> t \<le> i \<longrightarrow> i < t + m \<longrightarrow> fblks fb1 ! i = fblks fb ! i"
    using fba.get_law [OF inv k, unfolded get(1) option.inject prod.inject] get(2) unfolding FBLK_NONE_def by blast
  have fr1: "frame A {} (fblks fb) (fblks fb1)" using same by (auto simp: frame_def)
  have alloc: "\<exists>m. A (base x) = Some m" if "x \<in> set (hn # tn # xs @ ys)" for x
    using that sl_okD(5,6,7) [OF ok] by auto
  then have nb: "base x \<noteq> b" if "x \<in> set (hn # tn # xs @ ys)" for x using that n(3) by fastforce
  have ok1: "sl_ok (A(b \<mapsto> n)) (fblks fb1) base' (maxsize fb) hn tn (xs @ ys) h lev"
    using nb by (intro sl_ok_keep [OF ok fr1 _ _ base(2)]) auto
  have "base' new \<notin> base' ` set (hn # tn # xs @ ys)" using nb base by (metis image_iff)
  from sl_link_spec [OF fb_inv_blocks_ok [OF n(1)] ok1 new this _ n(2) k tow u]
  obtain ar' where ar': "sl_link k u tower new (fblks fb1) = Some ar'" "length ar' = length (fblks fb1)"
      "sl_ok (A(b \<mapsto> n)) ar' base' (maxsize fb) hn tn (xs @ new # ys) (h(new := k)) (max lev k)"
      "\<forall>c m i. (A(b \<mapsto> n)) c = Some m \<longrightarrow> c \<notin> base' ` set (hn # new # xs) \<longrightarrow> i < m \<longrightarrow> ar' ! (c + i) = fblks fb1 ! (c + i)"
      "\<forall>a. outside (A(b \<mapsto> n)) a \<longrightarrow> ar' ! a = fblks fb1 ! a"
    using base(1) by auto
  have "fb_inv (fb1\<lparr>fblks := ar'\<rparr>) (A(b \<mapsto> n))" using ar'(2,5) by (intro fb_inv_cells [OF n(1)]) auto
  moreover have "frame A (base ` set (hn # xs)) (fblks fb) ar'"
    unfolding frame_def
  proof (intro allI impI)
    fix c m i assume c: "A c = Some m" "c \<notin> base ` set (hn # xs)" "i < m"
    then have "c \<noteq> b" using n(3) by auto
    moreover have "base' ` set (hn # new # xs) = insert b (base ` set (hn # xs))" using base by auto
    ultimately have "ar' ! (c + i) = fblks fb1 ! (c + i)" using ar'(4) c by simp
    then show "ar' ! (c + i) = fblks fb ! (c + i)" using frameD [OF fr1 c(1) _ c(3)] by simp
  qed
  ultimately show ?thesis using n ar' by blast
qed

lemma sl_delete:
  assumes inv: "fb_inv fb A" and ok: "sl_ok A (fblks fb) base (maxsize fb) hn tn (xs @ q # ys) h lev"
    and tow: "\<And>x. x \<in> set (hn # q # xs) \<Longrightarrow> tower x = Some (base x)"
    and u: "\<And>j. j \<le> lev \<Longrightarrow> j < length u \<and> u ! j = sl_pred hn h xs j"
  shows "\<exists>ar' fb' m. sl_unlink (Suc lev) 0 u tower q (fblks fb) = Some (Suc (h q), ar') \<and>
    FreeBlock_Release (Suc (h q)) (base q) (fb\<lparr>fblks := ar'\<rparr>) = Some fb' \<and> fb_inv fb' (A(base q := None)) \<and>
    maxsize fb' = maxsize fb \<and>
    (\<forall>tower'. tower' hn = Some (base hn) \<longrightarrow> sl_lower (fblks fb') tower' hn tn lev = Some m) \<and> m \<le> lev \<and>
    sl_ok (A(base q := None)) (fblks fb') base (maxsize fb) hn tn (xs @ ys) h m \<and>
    frame (A(base q := None)) (base ` set (hn # xs)) (fblks fb) (fblks fb')"
proof -
  let ?A = "A(base q := None)"
  note D = sl_okD [OF ok]
  from sl_unlink_spec [OF fb_inv_blocks_ok [OF inv] ok tow u]
  obtain ar' where ar': "sl_unlink (Suc lev) 0 u tower q (fblks fb) = Some (Suc (h q), ar')"
      "length ar' = length (fblks fb)" "sl_ok A ar' base (maxsize fb) hn tn (xs @ ys) h lev"
      "\<forall>c m i. A c = Some m \<longrightarrow> c \<notin> base ` set (hn # xs) \<longrightarrow> i < m \<longrightarrow> ar' ! (c + i) = fblks fb ! (c + i)"
      "\<forall>a. outside A a \<longrightarrow> ar' ! a = fblks fb ! a" by auto
  have inv1: "fb_inv (fb\<lparr>fblks := ar'\<rparr>) A" using ar'(2,5) by (intro fb_inv_cells [OF inv]) auto
  obtain n where n: "A (base q) = Some n" "h q < n" using D(5) [of q] by auto
  have hq: "Suc (h q) \<le> maxsize (fb\<lparr>fblks := ar'\<rparr>)" using D(3) D(4) [of q] by auto
  obtain fb' where fb': "FreeBlock_Release (Suc (h q)) (base q) (fb\<lparr>fblks := ar'\<rparr>) = Some fb'"
      "fb_inv fb' ?A" "maxsize fb' = maxsize fb"
      "\<forall>t m i. ?A t = Some m \<longrightarrow> t \<le> i \<longrightarrow> i < t + m \<longrightarrow> fblks fb' ! i = ar' ! i"
    using fba.release_law [OF inv1 n(1) _ _ hq] n(2) by auto
  have fr1: "frame ?A {} ar' (fblks fb')" unfolding frame_def using fb'(4) by (metis le_add1 nat_add_left_cancel_less)
  have nq: "base x \<noteq> base q" if "x \<in> set (hn # tn # xs @ ys)" for x
    using inj_onD [OF D(2), of x q] D(1) that by auto
  have "sl_ok ?A ar' base (maxsize fb) hn tn (xs @ ys) h lev"
    using nq by (intro sl_ok_frame [OF ar'(3)]) auto
  then have ok1: "sl_ok ?A (fblks fb') base (maxsize fb) hn tn (xs @ ys) h lev"
    by (rule sl_ok_keep [OF _ fr1]) auto
  have blk: "blocks_ok ?A (fblks fb')" by (rule fb_inv_blocks_ok [OF fb'(2)])
  obtain m where m: "sl_lower (fblks fb') (\<lambda>x. Some (base x)) hn tn lev = Some m"
      "sl_ok ?A (fblks fb') base (maxsize fb) hn tn (xs @ ys) h m" "m \<le> lev"
    using sl_lower_spec [OF blk ok1, of "\<lambda>x. Some (base x)"] by auto
  have low: "sl_lower ar tower' hn tn l = sl_lower ar (\<lambda>x. Some (base x)) hn tn l"
    if "tower' hn = Some (base hn)" for tower' ar l
    using that by (induction l) (simp_all add: sl_next_def cong: if_cong)
  have "frame ?A (base ` set (hn # xs)) (fblks fb) (fblks fb')"
    unfolding frame_def
  proof (intro allI impI)
    fix c m i assume c: "?A c = Some m" "c \<notin> base ` set (hn # xs)" "i < m"
    then have "A c = Some m" by (auto split: if_splits)
    then have "ar' ! (c + i) = fblks fb ! (c + i)" using ar'(4) c by blast
    then show "fblks fb' ! (c + i) = fblks fb ! (c + i)" using frameD [OF fr1 c(1) _ c(3)] by simp
  qed
  moreover have "\<forall>tower'. tower' hn = Some (base hn) \<longrightarrow> sl_lower (fblks fb') tower' hn tn lev = Some m"
    by (intro allI impI trans [OF low m(1)])
  ultimately show ?thesis using ar'(1) fb'(1-3) m(2,3) by blast
qed

declare sl_search.simps [simp del] sl_link.simps [simp del] sl_unlink.simps [simp del] sl_lower.simps [simp del]
  sl_fill.simps [simp del]

text \<open>The two operations of the free lists.\<close>

lemma upd_ok_fresh: "lev < MAXLEVELS \<Longrightarrow> upd_ok (Some fresh_update) lev"
  by (simp add: fresh_update_def)

lemma sl_add_spec:
  assumes inv: "fb_inv fb A" and ok: "sl_ok A (fblks fb) base (maxsize fb) hn tn (xs @ ys) h lev"
    and new: "new \<notin> set (hn # tn # xs @ ys)"
    and tow: "\<And>x. x \<in> set (hn # xs) \<Longrightarrow> tower x = Some (base x)"
    and lt: "\<And>x. x \<in> set xs \<Longrightarrow> lt x = Some True" "\<And>x. x \<in> set (ys @ [tn]) \<Longrightarrow> lt x = Some False"
  shows "\<exists>b lev' fb' r'. sl_add tower lt lev hn new fb r = Some (b, lev', fb', r') \<and> maxsize fb' = maxsize fb \<and>
    (\<exists>k. FreeBlock_Get k fb = Some (FBLK_NONE, fb) \<and> k < maxsize fb \<and> b = FBLK_NONE \<and> fb' = fb \<and>
       sl_ok A (fblks fb) base (maxsize fb) hn tn (xs @ ys) h lev' \<or>
     (\<exists>n fb1. b \<noteq> FBLK_NONE \<and> k < maxsize fb \<and> FreeBlock_Get k fb = Some (b, fb1) \<and> fb_nfree fb' = fb_nfree fb1 \<and>
        A b = None \<and> fb_inv fb' (A(b \<mapsto> n)) \<and>
        sl_ok (A(b \<mapsto> n)) (fblks fb') (base(new := b)) (maxsize fb) hn tn (xs @ new # ys) (h(new := k)) lev' \<and>
        frame A (base ` set (hn # xs)) (fblks fb) (fblks fb')))"
proof -
  note D = sl_okD [OF ok]
  have ms: "maxsize fb < MAXLEVELS" using fb_inv_maxsize(2) [OF inv] by (simp add: MAXLEVELS_def FB_MAX_LEVELS_def)
  then have lm: "lev < MAXLEVELS" using D(3) by simp
  define u where "u = upd_fill hn h xs lev fresh_update"
  have search: "sl_search (fblks fb) tower lt lev hn (Some fresh_update) = Some (last (hn # xs), hd (ys @ [tn]), Some u)"
    using sl_search_spec [OF fb_inv_blocks_ok [OF inv] ok tow lt upd_ok_fresh [OF lm]] by (simp add: u_def)
  obtain k0 r' where k0: "GetRandomLevel fb r = (k0, r')" by fastforce
  define k where "k = cap_level lev k0"
  have "k0 < maxsize fb" using GetRandomLevel_lt [of fb r] k0 fb_inv_maxsize(1) [OF inv] by simp
  then have k: "k < maxsize fb" "k \<le> Suc lev" unfolding k_def cap_level_def using D(3) by (auto split: if_splits)
  define u' where "u' = (if k > lev then u[k := hn] else u)"
  have u': "j < length u' \<and> u' ! j = sl_pred hn h xs j" if "j \<le> k" for j
  proof (cases "j \<le> lev")
    case True
    then show ?thesis using that k ms lm by (auto simp: u'_def u_def fresh_update_def)
  next
    case False
    then have "j = k" "k = Suc lev" using that k by auto
    moreover have "sl_pred hn h xs (Suc lev) = hn" using D(4) by (intro sl_pred_above) (simp add: le_imp_less_Suc)
    ultimately show ?thesis using k ms by (simp add: u'_def u_def fresh_update_def)
  qed
  have upd: "k > lev \<Longrightarrow> wr u k hn = Some u'" "\<not> k > lev \<Longrightarrow> u = u'"
    using k ms by (simp_all add: u'_def u_def fresh_update_def)
  obtain b fb1 where get: "FreeBlock_Get k fb = Some (b, fb1)" using FreeBlock_Get_spec [OF inv k(1)] by blast
  have unf: "sl_add tower lt lev hn new fb r =
      (if b = FBLK_NONE then Some (b, max lev k, fb1, r')
       else do { ar \<leftarrow> sl_link k u' (tower(new := Some b)) new (fblks fb1); Some (b, max lev k, fb1\<lparr>fblks := ar\<rparr>, r') })"
    unfolding sl_add_def search using upd by (cases "k > lev") (simp_all add: k0 k_def [symmetric] get)
  show ?thesis
  proof (cases "b = FBLK_NONE")
    case True
    then have "fb1 = fb" using FreeBlock_Get_spec [OF inv k(1)] get by auto
    moreover have "sl_ok A (fblks fb) base (maxsize fb) hn tn (xs @ ys) h (max lev k)"
      using D(3) k by (intro sl_ok_level [OF ok]) auto
    ultimately show ?thesis using unf True get k(1) by auto
  next
    case False
    have tow': "(tower(new := Some b)) x = Some ((base(new := b)) x)" if "x \<in> set (new # hn # xs)" for x
      using that new tow by auto
    have base: "(base(new := b)) new = b" "\<And>x. x \<in> set (hn # tn # xs @ ys) \<Longrightarrow> (base(new := b)) x = base x" using new by auto
    obtain n ar' where n: "A b = None" "maxsize fb1 = maxsize fb" "sl_link k u' (tower(new := Some b)) new (fblks fb1) = Some ar'"
      "fb_inv (fb1\<lparr>fblks := ar'\<rparr>) (A(b \<mapsto> n))"
      "sl_ok (A(b \<mapsto> n)) ar' (base(new := b)) (maxsize fb) hn tn (xs @ new # ys) (h(new := k)) (max lev k)"
      "frame A (base ` set (hn # xs)) (fblks fb) ar'"
      using sl_insert [OF inv ok new k(1) get False base tow' u'] by blast
    show ?thesis
      using unf False n get k(1)
      by (intro exI [of _ b] exI [of _ "max lev k"] exI [of _ "fb1\<lparr>fblks := ar'\<rparr>"] exI [of _ r'] conjI exI [of _ k] disjI2
          exI [of _ n] exI [of _ fb1]) simp_all
  qed
qed

lemma sl_del_spec:
  assumes inv: "fb_inv fb A" and ok: "sl_ok A (fblks fb) base (maxsize fb) hn tn (xs @ q # ys) h lev"
    and tow: "\<And>x. x \<in> set (hn # q # xs) \<Longrightarrow> tower x = Some (base x)"
    and lt: "\<And>x. x \<in> set xs \<Longrightarrow> lt x = Some True" "\<And>x. x \<in> set (q # ys @ [tn]) \<Longrightarrow> lt x = Some False"
    and hit: "found q = Some True"
  shows "\<exists>lev' fb' fb1. sl_del tower lt found lev hn tn fb = Some (lev', fb') \<and> maxsize fb' = maxsize fb \<and>
    (\<exists>z. FreeBlock_Release z (base q) fb1 = Some fb' \<and> fb_nfree fb1 = fb_nfree fb \<and> maxsize fb1 = maxsize fb) \<and>
    fb_inv fb' (A(base q := None)) \<and>
    sl_ok (A(base q := None)) (fblks fb') base (maxsize fb) hn tn (xs @ ys) h lev' \<and>
    frame (A(base q := None)) (base ` set (hn # xs)) (fblks fb) (fblks fb')"
proof -
  note D = sl_okD [OF ok]
  have ms: "maxsize fb < MAXLEVELS" using fb_inv_maxsize(2) [OF inv] by (simp add: MAXLEVELS_def FB_MAX_LEVELS_def)
  then have lm: "lev < MAXLEVELS" using D(3) by simp
  define u where "u = upd_fill hn h xs lev fresh_update"
  have ok': "sl_ok A (fblks fb) base (maxsize fb) hn tn (xs @ (q # ys)) h lev" using ok by simp
  have search: "sl_search (fblks fb) tower lt lev hn (Some fresh_update) = Some (last (hn # xs), q, Some u)"
  proof -
    have "tower x = Some (base x)" if "x \<in> set (hn # xs)" for x using that tow by auto
    moreover have "lt x = Some False" if "x \<in> set ((q # ys) @ [tn])" for x using that lt(2) by auto
    ultimately show ?thesis
      using sl_search_spec [OF fb_inv_blocks_ok [OF inv] ok' _ lt(1) _ upd_ok_fresh [OF lm], where tower = tower] by (simp add: u_def)
  qed
  have u: "j < length u \<and> u ! j = sl_pred hn h xs j" if "j \<le> lev" for j
    using that lm by (simp add: u_def fresh_update_def)
  obtain ar' fb' m where d: "sl_unlink (Suc lev) 0 u tower q (fblks fb) = Some (Suc (h q), ar')"
    "FreeBlock_Release (Suc (h q)) (base q) (fb\<lparr>fblks := ar'\<rparr>) = Some fb'" "fb_inv fb' (A(base q := None))"
    "maxsize fb' = maxsize fb" "\<forall>tower'. tower' hn = Some (base hn) \<longrightarrow> sl_lower (fblks fb') tower' hn tn lev = Some m"
    "sl_ok (A(base q := None)) (fblks fb') base (maxsize fb) hn tn (xs @ ys) h m"
    "frame (A(base q := None)) (base ` set (hn # xs)) (fblks fb) (fblks fb')"
    using sl_delete [OF inv ok tow u] by blast
  have "sl_del tower lt found lev hn tn fb = Some (m, fb')"
    unfolding sl_del_def search using hit d(1,2) d(5) [rule_format, of tower] tow by simp
  then show ?thesis
    using d by (intro exI [of _ m] exI [of _ fb'] exI [of _ "fb\<lparr>fblks := ar'\<rparr>"] conjI exI [of _ "Suc (h q)"]) simp_all
qed


end
