(* ===== verification/Region_List.thy ===== *)
theory Region_List
  imports Skip_List "HOL-Library.Product_Lexorder"
begin

text \<open>
  src/storage/pq/RegionList.h and RegionList.cpp: the table of the regions of the data section. A free
  region is in two skip lists, one by offset and one by extent and offset; an allocated region is in a
  hash table of doubly linked chains; an unused slot is in a singly linked list. The three uses share the
  fields \<open>next\<close> and \<open>prev\<close> of a slot: towers of the two skip lists, links of a hash chain, or the link to
  the next unused slot. Bit 0 of \<open>extent\<close> marks an allocated region.

  \<open>fbp_off_\<close>, the distance to the arena of the towers, is the argument \<open>fb\<close> here. Offsets are \<open>int\<close>; the
  code adds and compares them well inside the range of \<open>off_t\<close>.
\<close>

subsection \<open>State\<close>

definition RL_NONE :: nat where "RL_NONE = SIZE_NONE"
definition RL_MAGIC :: nat where "RL_MAGIC = 0x524c4841"
definition RL_FREE_OVERHEAD :: nat where "RL_FREE_OVERHEAD = 4"
definition RL_EMPTY_HD :: nat where "RL_EMPTY_HD = RL_FREE_OVERHEAD"
definition RL_EXP_CHAIN_LEN :: nat where "RL_EXP_CHAIN_LEN = 4"
definition RL_FOFF_HD :: nat where "RL_FOFF_HD = 0"
definition RL_FOFF_TL :: nat where "RL_FOFF_TL = 1"
definition RL_FEXT_HD :: nat where "RL_FEXT_HD = 2"
definition RL_FEXT_TL :: nat where "RL_FEXT_TL = 3"

record Region =
  rg_offset :: int
  rg_extent :: nat
  rg_next :: nat
  rg_prev :: nat

definition IsAlloc :: "Region \<Rightarrow> bool" where "IsAlloc r \<longleftrightarrow> odd (rg_extent r)"

definition IsFree :: "Region \<Rightarrow> bool" where "IsFree r \<longleftrightarrow> \<not> IsAlloc r"

text \<open>Clearing and setting bit 0.\<close>

definition GetExtent :: "Region \<Rightarrow> nat" where "GetExtent r = rg_extent r - rg_extent r mod 2"

definition SetAlloc :: "Region \<Rightarrow> Region" where "SetAlloc r = r\<lparr>rg_extent := GetExtent r + 1\<rparr>"

definition ClearAlloc :: "Region \<Rightarrow> Region" where "ClearAlloc r = r\<lparr>rg_extent := GetExtent r\<rparr>"

record RegionList =
  rl_nalloc :: nat
  rl_nchains :: nat
  rl_empty :: nat
  rl_nelems :: nat
  maxelems :: nat
  rl_nfree :: nat
  maxfree :: nat
  maxfextent :: nat
  nempty :: nat
  minempty :: nat
  nbytes :: nat
  maxbytes :: nat
  level_foff :: nat
  foff :: nat
  level_fext :: nat
  fext :: nat
  rp :: "Region list"
  rh_magic :: nat
  rh_chains :: "nat list"

definition CalculateNumChains :: "nat \<Rightarrow> nat option" where
  "CalculateNumChains n = prevPrime (n div RL_EXP_CHAIN_LEN)"

subsection \<open>Unused slots and the hash\<close>

text \<open>The loop of \<open>InitArray\<close> from slot \<open>i\<close> on; \<open>prev\<close> is left as it is.\<close>

primrec InitArray_loop :: "nat \<Rightarrow> nat \<Rightarrow> Region list \<Rightarrow> Region list option" where
  "InitArray_loop 0 i rps = Some rps"
| "InitArray_loop (Suc todo) i rps = do {
     rep \<leftarrow> rd rps i;
     rps' \<leftarrow> wr rps i (rep\<lparr>rg_offset := -1, rg_extent := 0, rg_next := Suc i\<rparr>);
     InitArray_loop todo (Suc i) rps' }"

definition InitArray :: "nat \<Rightarrow> Region list \<Rightarrow> Region list option" where
  "InitArray nalloc rps = do {
     rps1 \<leftarrow> InitArray_loop nalloc RL_EMPTY_HD rps;
     rep \<leftarrow> rd rps1 (RL_EMPTY_HD + nalloc - 1);
     wr rps1 (RL_EMPTY_HD + nalloc - 1) (rep\<lparr>rg_next := RL_NONE\<rparr>) }"

definition GetEmptyRegion :: "RegionList \<Rightarrow> (nat \<times> RegionList) option" where
  "GetEmptyRegion rl =
     (if rl_empty rl = RL_NONE then do { log_assert (nempty rl = 0); Some (RL_NONE, rl) }
      else do {
        let ix = rl_empty rl;
        rep \<leftarrow> rd (rp rl) ix;
        let n = sz_dec (nempty rl);
        Some (ix, rl\<lparr>rl_empty := rg_next rep, nempty := n,
                     minempty := (if n < minempty rl then n else minempty rl)\<rparr>) })"

definition ReleaseEmptyRegion :: "nat \<Rightarrow> RegionList \<Rightarrow> RegionList option" where
  "ReleaseEmptyRegion rlix rl = do {
     log_assert (0 < rlix \<and> rlix < rl_nalloc rl + RL_FREE_OVERHEAD);
     rep \<leftarrow> rd (rp rl) rlix;
     rps \<leftarrow> wr (rp rl) rlix (rep\<lparr>rg_next := rl_empty rl, rg_offset := -1, rg_extent := 0\<rparr>);
     Some (rl\<lparr>rp := rps, rl_empty := rlix, nempty := sz_inc (nempty rl)\<rparr>) }"

text \<open>The offset is cut to an \<open>unsigned int\<close>; with no chains the remainder is undefined.\<close>

definition HashOffset :: "int \<Rightarrow> RegionList \<Rightarrow> nat option" where
  "HashOffset offset rl =
     (if rl_nchains rl = 0 then None else Some (nat (offset mod 2 ^ 32) mod rl_nchains rl))"

subsection \<open>The two skip lists of free regions\<close>

definition off_tower :: "Region list \<Rightarrow> tower" where
  "off_tower rps n = map_option rg_next (rd rps n)"

definition ext_tower :: "Region list \<Rightarrow> tower" where
  "ext_tower rps n = map_option rg_prev (rd rps n)"

definition off_lt :: "Region list \<Rightarrow> int \<Rightarrow> nat \<Rightarrow> bool option" where
  "off_lt rps targetOffset q = map_option (\<lambda>sqp. rg_offset sqp < targetOffset) (rd rps q)"

definition ext_lt :: "Region list \<Rightarrow> nat \<Rightarrow> int \<Rightarrow> nat \<Rightarrow> bool option" where
  "ext_lt rps targetExtent targetOffset q = map_option (\<lambda>sqp. GetExtent sqp < targetExtent \<or>
     (GetExtent sqp = targetExtent \<and> rg_offset sqp < targetOffset)) (rd rps q)"

definition huge_off_t :: int where "huge_off_t = 2 ^ 62 + (2 ^ 62 - 1)"

definition InitOffsets :: "RegionList \<Rightarrow> FreeBlock \<Rightarrow> (RegionList \<times> FreeBlock) option" where
  "InitOffsets rl fb = do {
     (b, fb1) \<leftarrow> FreeBlock_Get (maxsize fb - 1) fb;
     rps1 \<leftarrow> wr (rp rl) RL_FOFF_HD \<lparr>rg_offset = 0, rg_extent = 0, rg_next = b, rg_prev = 0\<rparr>;
     (c, fb2) \<leftarrow> FreeBlock_Get 0 fb1;
     rps2 \<leftarrow> wr rps1 RL_FOFF_TL \<lparr>rg_offset = huge_off_t, rg_extent = 0, rg_next = c, rg_prev = 0\<rparr>;
     ar \<leftarrow> sl_fill (maxsize fb2) 0 b RL_FOFF_TL (fblks fb2);
     Some (rl\<lparr>rp := rps2, level_foff := 0, foff := RL_FOFF_HD\<rparr>, fb2\<lparr>fblks := ar\<rparr>) }"

definition InitExtents :: "RegionList \<Rightarrow> FreeBlock \<Rightarrow> (RegionList \<times> FreeBlock) option" where
  "InitExtents rl fb = do {
     (b, fb1) \<leftarrow> FreeBlock_Get (maxsize fb - 1) fb;
     rps1 \<leftarrow> wr (rp rl) RL_FEXT_HD \<lparr>rg_offset = 0, rg_extent = 0, rg_next = 0, rg_prev = b\<rparr>;
     (c, fb2) \<leftarrow> FreeBlock_Get 0 fb1;
     rps2 \<leftarrow> wr rps1 RL_FEXT_TL (ClearAlloc \<lparr>rg_offset = 0, rg_extent = SIZE_NONE, rg_next = 0, rg_prev = c\<rparr>);
     ar \<leftarrow> sl_fill (maxsize fb2) 0 b RL_FEXT_TL (fblks fb2);
     Some (rl\<lparr>rp := rps2, level_fext := 0, fext := RL_FEXT_HD\<rparr>, fb2\<lparr>fblks := ar\<rparr>) }"

definition rl_Initialize :: "nat \<Rightarrow> RegionList \<Rightarrow> FreeBlock \<Rightarrow> (RegionList \<times> FreeBlock) option" where
  "rl_Initialize nalloc rl fb = do {
     log_assert (fb_magic fb = FB_MAGIC);
     nch \<leftarrow> CalculateNumChains nalloc;
     log_assert (nch \<le> length (rh_chains rl)); \<comment> \<open>the fill loop stays inside the table\<close>
     rps \<leftarrow> InitArray nalloc (rp rl);
     let rl1 = rl\<lparr>rl_nalloc := nalloc, rl_nchains := nch, rh_magic := RL_MAGIC,
       rh_chains := replicate nch RL_NONE @ drop nch (rh_chains rl), rp := rps, rl_empty := RL_EMPTY_HD,
       rl_nelems := 0, maxelems := 0, nempty := nalloc, minempty := nalloc, nbytes := 0, maxbytes := 0,
       rl_nfree := 0, maxfree := 0, maxfextent := 0\<rparr>;
     (rl2, fb2) \<leftarrow> InitOffsets rl1 fb;
     (rl3, fb3) \<leftarrow> InitExtents rl2 fb2;
     log_assert (rl_nelems rl3 + rl_nfree rl3 + nempty rl3 = rl_nalloc rl3);
     Some (rl3, fb3) }"

definition SearchOffset :: "int \<Rightarrow> RegionList \<Rightarrow> FreeBlock \<Rightarrow> nat list option \<Rightarrow> (nat \<times> nat \<times> nat list option) option" where
  "SearchOffset target rl fb upd =
     sl_search (fblks fb) (off_tower (rp rl)) (off_lt (rp rl) target) (level_foff rl) (foff rl) upd"

definition SearchExtent :: "nat \<Rightarrow> int \<Rightarrow> RegionList \<Rightarrow> FreeBlock \<Rightarrow> nat list option \<Rightarrow> (nat \<times> nat \<times> nat list option) option" where
  "SearchExtent extent offset rl fb upd =
     sl_search (fblks fb) (ext_tower (rp rl)) (ext_lt (rp rl) extent offset) (level_fext rl) (fext rl) upd"

definition FindPrevExtent :: "nat \<Rightarrow> RegionList \<Rightarrow> FreeBlock \<Rightarrow> nat option" where
  "FindPrevExtent rlix rl fb = do {
     rep \<leftarrow> rd (rp rl) rlix;
     (_, _, upd) \<leftarrow> SearchExtent (GetExtent rep) (rg_offset rep) rl fb (Some fresh_update);
     rd (the upd) 0 }"

definition RecalculateMaxFreeExtent :: "RegionList \<Rightarrow> FreeBlock \<Rightarrow> nat option" where
  "RecalculateMaxFreeExtent rl fb = do {
     rmix \<leftarrow> FindPrevExtent RL_FEXT_TL rl fb;
     rep \<leftarrow> rd (rp rl) rmix;
     Some (GetExtent rep) }"

definition DeleteOffset :: "nat \<Rightarrow> RegionList \<Rightarrow> FreeBlock \<Rightarrow> (RegionList \<times> FreeBlock) option" where
  "DeleteOffset rlix rl fb = do {
     rep \<leftarrow> rd (rp rl) rlix;
     (m, fb') \<leftarrow> sl_del (off_tower (rp rl)) (off_lt (rp rl) (rg_offset rep))
       (\<lambda>q. map_option (\<lambda>sqp. rg_offset sqp = rg_offset rep) (rd (rp rl) q)) (level_foff rl) (foff rl) RL_FOFF_TL fb;
     Some (rl\<lparr>level_foff := m\<rparr>, fb') }"

definition DeleteExtent :: "nat \<Rightarrow> RegionList \<Rightarrow> FreeBlock \<Rightarrow> (RegionList \<times> FreeBlock) option" where
  "DeleteExtent rlix rl fb = do {
     rep \<leftarrow> rd (rp rl) rlix;
     (m, fb') \<leftarrow> sl_del (ext_tower (rp rl)) (ext_lt (rp rl) (GetExtent rep) (rg_offset rep))
       (\<lambda>q. map_option (\<lambda>sqp. GetExtent sqp = GetExtent rep \<and> rg_offset sqp = rg_offset rep) (rd (rp rl) q))
       (level_fext rl) (fext rl) RL_FEXT_TL fb;
     Some (rl\<lparr>level_fext := m\<rparr>, fb') }"

text \<open>The search always ends at some node, so the null result of \<open>FindExtent\<close> does not occur.\<close>

definition FindExtent :: "nat \<Rightarrow> RegionList \<Rightarrow> FreeBlock \<Rightarrow> nat option" where
  "FindExtent extent rl fb = do { (_, q, _) \<leftarrow> SearchExtent extent (-1) rl fb None; Some q }"

definition rl_Get :: "nat \<Rightarrow> RegionList \<Rightarrow> FreeBlock \<Rightarrow> (nat \<times> RegionList \<times> FreeBlock) option" where
  "rl_Get extent rl fb =
     (if extent > maxfextent rl then Some (RL_NONE, rl, fb)
      else do {
        sqbest \<leftarrow> FindExtent extent rl fb;
        if sqbest = RL_FEXT_TL \<or> sqbest = RL_NONE then Some (RL_NONE, rl, fb)
        else do {
          rep \<leftarrow> rd (rp rl) sqbest;
          (rl1, fb1) \<leftarrow> DeleteOffset sqbest rl fb;
          (rl2, fb2) \<leftarrow> DeleteExtent sqbest rl1 fb1;
          let rl3 = rl2\<lparr>rl_nfree := sz_dec (rl_nfree rl2)\<rparr>;
          rl4 \<leftarrow> (if GetExtent rep = maxfextent rl3
                  then do { m \<leftarrow> RecalculateMaxFreeExtent rl3 fb2; Some (rl3\<lparr>maxfextent := m\<rparr>) } else Some rl3);
          let n = sz_inc (rl_nelems rl4);
          Some (sqbest, rl4\<lparr>rl_nelems := n, maxelems := max n (maxelems rl4)\<rparr>, fb2) } })"

definition RemoveFromHash :: "nat \<Rightarrow> RegionList \<Rightarrow> RegionList option" where
  "RemoveFromHash rlix rl = do {
     rep \<leftarrow> rd (rp rl) rlix;
     let rpix = rg_prev rep;
     let rnix = rg_next rep;
     rl1 \<leftarrow> (if rpix \<noteq> RL_NONE then do {
               p \<leftarrow> rd (rp rl) rpix;
               rps \<leftarrow> wr (rp rl) rpix (p\<lparr>rg_next := rnix\<rparr>);
               Some (rl\<lparr>rp := rps\<rparr>) }
             else do {
               hash_idx \<leftarrow> HashOffset (rg_offset rep) rl;
               ch \<leftarrow> wr (rh_chains rl) hash_idx rnix;
               Some (rl\<lparr>rh_chains := ch\<rparr>) });
     if rnix \<noteq> RL_NONE then do {
       n \<leftarrow> rd (rp rl1) rnix;
       log_assert (IsAlloc n);
       rps \<leftarrow> wr (rp rl1) rnix (n\<lparr>rg_prev := rpix\<rparr>);
       Some (rl1\<lparr>rp := rps\<rparr>) }
     else Some rl1 }"

definition AddOffset :: "nat \<Rightarrow> RegionList \<Rightarrow> FreeBlock \<Rightarrow> rng \<Rightarrow> (int \<times> RegionList \<times> FreeBlock \<times> rng) option" where
  "AddOffset rlix rl fb r = do {
     rep \<leftarrow> rd (rp rl) rlix;
     (b, lev, fb', r') \<leftarrow> sl_add (off_tower (rp rl)) (off_lt (rp rl) (rg_offset rep)) (level_foff rl) (foff rl) rlix fb r;
     rps \<leftarrow> wr (rp rl) rlix (rep\<lparr>rg_next := b\<rparr>);
     Some (if b = FBLK_NONE then -4 else 0, rl\<lparr>rp := rps, level_foff := lev\<rparr>, fb', r') }"

definition AddExtent :: "nat \<Rightarrow> RegionList \<Rightarrow> FreeBlock \<Rightarrow> rng \<Rightarrow> (int \<times> RegionList \<times> FreeBlock \<times> rng) option" where
  "AddExtent rlix rl fb r = do {
     rep \<leftarrow> rd (rp rl) rlix;
     (b, lev, fb', r') \<leftarrow> sl_add (ext_tower (rp rl)) (ext_lt (rp rl) (GetExtent rep) (rg_offset rep)) (level_fext rl) (fext rl) rlix fb r;
     rps \<leftarrow> wr (rp rl) rlix (rep\<lparr>rg_prev := b\<rparr>);
     Some (if b = FBLK_NONE then -4 else 0, rl\<lparr>rp := rps, level_fext := lev\<rparr>, fb', r') }"

definition ReleaseRegion :: "nat \<Rightarrow> RegionList \<Rightarrow> FreeBlock \<Rightarrow> rng \<Rightarrow> (int \<times> RegionList \<times> FreeBlock \<times> rng) option" where
  "ReleaseRegion rlix rl fb r = do {
     (status, rl1, fb1, r1) \<leftarrow> AddOffset rlix rl fb r;
     if status \<noteq> 0 then Some (status, rl1, fb1, r1)
     else do {
       (status, rl2, fb2, r2) \<leftarrow> AddExtent rlix rl1 fb1 r1;
       if status \<noteq> 0 then do {
         (rl3, fb3) \<leftarrow> DeleteOffset rlix rl2 fb2;
         Some (status, rl3, fb3, r2) }
       else Some (status, rl2\<lparr>rl_nfree := sz_inc (rl_nfree rl2)\<rparr>, fb2, r2) } }"

definition GetNextOffset :: "nat \<Rightarrow> RegionList \<Rightarrow> FreeBlock \<Rightarrow> nat option" where
  "GetNextOffset rlix rl fb = do {
     rep \<leftarrow> rd (rp rl) rlix;
     log_assert (IsFree rep);
     rd (fblks fb) (rg_next rep) }"

definition GetPrevOffset :: "nat \<Rightarrow> RegionList \<Rightarrow> FreeBlock \<Rightarrow> nat option" where
  "GetPrevOffset rlix rl fb = do {
     rep \<leftarrow> rd (rp rl) rlix;
     (_, _, upd) \<leftarrow> SearchOffset (rg_offset rep) rl fb (Some fresh_update);
     rd (the upd) 0 }"

text \<open>
  Region \<open>keep\<close> swallows its right neighbour \<open>gone\<close>: the same steps for either side in \<open>Consolidate\<close>. The
  status of \<open>AddExtent\<close> is ignored.
\<close>

definition merge_regions :: "nat \<Rightarrow> nat \<Rightarrow> RegionList \<Rightarrow> FreeBlock \<Rightarrow> rng \<Rightarrow> (RegionList \<times> FreeBlock \<times> rng) option" where
  "merge_regions keep gone rl fb r = do {
     (rl1, fb1) \<leftarrow> DeleteExtent keep rl fb;
     k \<leftarrow> rd (rp rl1) keep;
     g \<leftarrow> rd (rp rl1) gone;
     rps \<leftarrow> wr (rp rl1) keep (k\<lparr>rg_extent := sz_add (rg_extent k) (GetExtent g)\<rparr>);
     (_, rl2, fb2, r2) \<leftarrow> AddExtent keep (rl1\<lparr>rp := rps\<rparr>) fb1 r;
     (rl3, fb3) \<leftarrow> DeleteOffset gone (rl2\<lparr>rl_nfree := sz_dec (rl_nfree rl2)\<rparr>) fb2;
     (rl4, fb4) \<leftarrow> DeleteExtent gone rl3 fb3;
     rl5 \<leftarrow> ReleaseEmptyRegion gone rl4;
     Some (rl5, fb4, r2) }"

definition Consolidate :: "nat \<Rightarrow> RegionList \<Rightarrow> FreeBlock \<Rightarrow> rng \<Rightarrow> (RegionList \<times> FreeBlock \<times> rng) option" where
  "Consolidate rpix rl fb r = do {
     rghtix \<leftarrow> GetNextOffset rpix rl fb;
     leftix \<leftarrow> GetPrevOffset rpix rl fb;
     (rl1, fb1, r1) \<leftarrow> (if rghtix \<noteq> RL_FOFF_TL then do {
        rep \<leftarrow> rd (rp rl) rpix;
        rght \<leftarrow> rd (rp rl) rghtix;
        if rg_offset rep + int (GetExtent rep) = rg_offset rght then merge_regions rpix rghtix rl fb r
        else Some (rl, fb, r) } else Some (rl, fb, r));
     (ix, rl2, fb2, r2) \<leftarrow> (if leftix \<noteq> RL_FOFF_HD then do {
        rep \<leftarrow> rd (rp rl1) rpix;
        left \<leftarrow> rd (rp rl1) leftix;
        if rg_offset left + int (GetExtent left) = rg_offset rep then do {
          (rl2, fb2, r2) \<leftarrow> merge_regions leftix rpix rl1 fb1 r1;
          Some (leftix, rl2, fb2, r2) }
        else Some (rpix, rl1, fb1, r1) } else Some (rpix, rl1, fb1, r1));
     rep \<leftarrow> rd (rp rl2) ix;
     Some (if GetExtent rep > maxfextent rl2 then rl2\<lparr>maxfextent := GetExtent rep\<rparr> else rl2, fb2, r2) }"

subsection \<open>The operations of the queue\<close>

partial_function (option) rl_Find_loop :: "int \<Rightarrow> Region list \<Rightarrow> nat \<Rightarrow> nat option" where
  "rl_Find_loop offset rps nx =
     (if nx = RL_NONE then Some RL_NONE
      else do {
        rep \<leftarrow> rd rps nx;
        if offset = rg_offset rep then do { log_assert (IsAlloc rep); Some nx }
        else rl_Find_loop offset rps (rg_next rep) })"

declare rl_Find_loop.simps [code]

definition rl_Find :: "int \<Rightarrow> RegionList \<Rightarrow> nat option" where
  "rl_Find offset rl = do {
     log_assert (rh_magic rl = RL_MAGIC);
     hash_idx \<leftarrow> HashOffset offset rl;
     nx \<leftarrow> rd (rh_chains rl) hash_idx;
     rl_Find_loop offset (rp rl) nx }"

definition AddToHash :: "nat \<Rightarrow> RegionList \<Rightarrow> RegionList option" where
  "AddToHash rpix rl = do {
     rep \<leftarrow> rd (rp rl) rpix;
     log_assert (rh_magic rl = RL_MAGIC);
     log_assert (IsAlloc rep);
     hash_idx \<leftarrow> HashOffset (rg_offset rep) rl;
     nx \<leftarrow> rd (rh_chains rl) hash_idx;
     rps \<leftarrow> (if nx \<noteq> RL_NONE then do {
               n \<leftarrow> rd (rp rl) nx;
               log_assert (IsAlloc n);
               wr (rp rl) nx (n\<lparr>rg_prev := rpix\<rparr>) } else Some (rp rl));
     rep' \<leftarrow> rd rps rpix;
     rps' \<leftarrow> wr rps rpix (rep'\<lparr>rg_next := nx, rg_prev := RL_NONE\<rparr>);
     ch \<leftarrow> wr (rh_chains rl) hash_idx rpix;
     Some (rl\<lparr>rp := rps', rh_chains := ch\<rparr>) }"

text \<open>The pointer to the new region, as its index; \<open>None\<close> inside is the null pointer.\<close>

definition rl_Add :: "int \<Rightarrow> nat \<Rightarrow> RegionList \<Rightarrow> FreeBlock \<Rightarrow> rng \<Rightarrow> (nat option \<times> RegionList \<times> FreeBlock \<times> rng) option" where
  "rl_Add offset extent rl fb r = do {
     (rpix, rl1) \<leftarrow> GetEmptyRegion rl;
     if rpix = RL_NONE then Some (None, rl1, fb, r)
     else do {
       log_assert (rl_nelems rl1 < rl_nalloc rl1);
       rep \<leftarrow> rd (rp rl1) rpix;
       rps \<leftarrow> wr (rp rl1) rpix (rep\<lparr>rg_offset := offset, rg_extent := extent\<rparr>);
       (status, rl2, fb2, r2) \<leftarrow> ReleaseRegion rpix (rl1\<lparr>rp := rps\<rparr>) fb r;
       if status \<noteq> 0 then do {
         rl3 \<leftarrow> ReleaseEmptyRegion rpix rl2;
         Some (None, rl3, fb2, r2) }
       else do {
         log_assert (rl_nelems rl2 + rl_nfree rl2 + nempty rl2 = rl_nalloc rl2);
         Some (Some rpix, rl2\<lparr>maxfree := max (rl_nfree rl2) (maxfree rl2)\<rparr>, fb2, r2) } } }"

definition Split :: "nat \<Rightarrow> nat \<Rightarrow> RegionList \<Rightarrow> FreeBlock \<Rightarrow> rng \<Rightarrow> (int \<times> RegionList \<times> FreeBlock \<times> rng) option" where
  "Split rlix extent rl fb r = do {
     low \<leftarrow> rd (rp rl) rlix;
     log_assert (IsFree low);
     log_assert (extent \<le> GetExtent low);
     let rem = GetExtent low - extent;
     let newoff = rg_offset low + int extent;
     (newregion, rl1, fb1, r1) \<leftarrow> rl_Add newoff rem rl fb r;
     case newregion of
       Some ix \<Rightarrow> do {
         n \<leftarrow> rd (rp rl1) ix;
         log_assert (IsFree n);
         l \<leftarrow> rd (rp rl1) rlix;
         rps \<leftarrow> wr (rp rl1) rlix (l\<lparr>rg_extent := extent\<rparr>);
         Some (0, rl1\<lparr>rp := rps, maxfextent := max rem (maxfextent rl1)\<rparr>, fb1, r1) }
     | None \<Rightarrow> Some (ENOMEM, rl1, fb1, r1) }"

definition rl_Put :: "nat \<Rightarrow> RegionList \<Rightarrow> FreeBlock \<Rightarrow> rng \<Rightarrow> (RegionList \<times> FreeBlock \<times> rng) option" where
  "rl_Put rlix rl fb r = do {
     log_assert (rlix < rl_nalloc rl);
     (_, rl1, fb1, r1) \<leftarrow> ReleaseRegion rlix (rl\<lparr>rl_nelems := sz_dec (rl_nelems rl)\<rparr>) fb r;
     (rl2, fb2, r2) \<leftarrow> Consolidate rlix rl1 fb1 r1;
     log_assert (rl_nelems rl2 + rl_nfree rl2 + nempty rl2 = rl_nalloc rl2);
     Some (rl2\<lparr>maxfree := max (rl_nfree rl2) (maxfree rl2)\<rparr>, fb2, r2) }"

definition rl_Free :: "nat \<Rightarrow> RegionList \<Rightarrow> FreeBlock \<Rightarrow> rng \<Rightarrow> (RegionList \<times> FreeBlock \<times> rng) option" where
  "rl_Free rpix rl fb r = do {
     rep \<leftarrow> rd (rp rl) rpix;
     rps \<leftarrow> wr (rp rl) rpix (ClearAlloc rep);
     rl1 \<leftarrow> RemoveFromHash rpix (rl\<lparr>rp := rps, nbytes := sz_sub (nbytes rl) (GetExtent rep)\<rparr>);
     (_, rl2, fb2, r2) \<leftarrow> ReleaseRegion rpix (rl1\<lparr>rl_nelems := sz_dec (rl_nelems rl1)\<rparr>) fb r;
     (rl3, fb3, r3) \<leftarrow> Consolidate rpix rl2 fb2 r2;
     log_assert (rl_nelems rl3 + rl_nfree rl3 + nempty rl3 = rl_nalloc rl3);
     Some (rl3\<lparr>maxfree := max (rl_nfree rl3) (maxfree rl3)\<rparr>, fb3, r3) }"

definition rl_HasSpace :: "RegionList \<Rightarrow> bool" where
  "rl_HasSpace rl \<longleftrightarrow> nempty rl > 0"


subsection \<open>Sorted lists of slots\<close>

definition by_key :: "('a \<Rightarrow> 'b :: linorder) \<Rightarrow> 'a list \<Rightarrow> bool" where
  "by_key f L \<longleftrightarrow> sorted_wrt (\<lambda>i j. f i < f j) L"

lemma by_key_simps [simp]:
  "by_key f []"
  "by_key f (x # L) \<longleftrightarrow> (\<forall>y \<in> set L. f x < f y) \<and> by_key f L"
  "by_key f (L @ M) \<longleftrightarrow> by_key f L \<and> by_key f M \<and> (\<forall>x \<in> set L. \<forall>y \<in> set M. f x < f y)"
  by (auto simp: by_key_def sorted_wrt_append)

lemma by_key_distinct: "by_key f L \<Longrightarrow> distinct L"
  by (induction L) auto

lemma by_key_inj:
  assumes "by_key f L" "x \<in> set L" "y \<in> set L" "f x = f y"
  shows "x = y"
  using assms(1-3)
proof (induction L)
  case (Cons z L)
  have "x = z \<longleftrightarrow> y = z" using Cons.prems assms(4) by fastforce
  then show ?case using Cons by auto
qed simp

lemma by_key_cong:
  assumes "by_key f L" "\<And>x. x \<in> set L \<Longrightarrow> g x = f x"
  shows "by_key g L"
  using assms by (induction L) simp_all

lemma by_key_split:
  assumes "by_key f L"
  obtains xs ys where "L = xs @ ys" "\<And>x. x \<in> set xs \<Longrightarrow> f x < t" "\<And>y. y \<in> set ys \<Longrightarrow> t \<le> f y"
proof -
  have "\<exists>xs ys. L = xs @ ys \<and> (\<forall>x \<in> set xs. f x < t) \<and> (\<forall>y \<in> set ys. t \<le> f y)"
    using assms
  proof (induction L)
    case (Cons z L)
    then obtain xs ys where xy: "L = xs @ ys" "\<forall>x \<in> set xs. f x < t" "\<forall>y \<in> set ys. t \<le> f y" by auto
    show ?case
    proof (cases "f z < t")
      case True
      then show ?thesis using xy by (intro exI [of _ "z # xs"] exI [of _ ys]) auto
    next
      case False
      then show ?thesis using Cons.prems by (intro exI [of _ "[]"] exI [of _ "z # L"]) (auto simp: not_less intro: order.trans less_imp_le)
    qed
  qed auto
  then show ?thesis using that by blast
qed

lemma insort_key_split:
  assumes "\<And>y. y \<in> set xs \<Longrightarrow> f y < f x" "\<And>y. y \<in> set ys \<Longrightarrow> f x \<le> f y"
  shows "insort_key f x (xs @ ys) = xs @ x # ys"
  using assms
proof (induction xs)
  case Nil
  then show ?case by (cases ys) auto
next
  case (Cons z xs)
  then show ?case by (auto simp: not_le [symmetric])
qed

lemma by_key_insort:
  assumes "by_key f L" "f x \<notin> f ` set L"
  shows "by_key f (insort_key f x L)"
proof -
  obtain xs ys where xy: "L = xs @ ys" "\<And>y. y \<in> set xs \<Longrightarrow> f y < f x" "\<And>y. y \<in> set ys \<Longrightarrow> f x \<le> f y"
    by (rule by_key_split [OF assms(1), of "f x"]) (rule that)
  moreover have "f x < f y" if "y \<in> set ys" for y using assms(2) xy(1) xy(3) [OF that] that by (auto simp: less_le)
  ultimately show ?thesis using assms(1) insort_key_split [of xs f x ys, OF xy(2,3)] by (auto intro: less_trans)
qed

lemma by_key_remove1: "by_key f L \<Longrightarrow> by_key f (remove1 x L)"
  by (induction L) (auto dest: subsetD [OF set_remove1_subset])

lemma by_key_at:
  assumes "by_key f L" "x \<in> set L"
  obtains xs ys where "L = xs @ x # ys" "remove1 x L = xs @ ys" "\<And>y. y \<in> set xs \<Longrightarrow> f y < f x" "\<And>y. y \<in> set ys \<Longrightarrow> f x < f y"
proof -
  obtain xs ys where L: "L = xs @ x # ys" using split_list [OF assms(2)] by blast
  have "x \<notin> set xs" using by_key_distinct [OF assms(1)] L by auto
  then have "remove1 x L = xs @ ys" using L by (simp add: remove1_append)
  then show ?thesis using that L assms(1) by auto
qed

subsection \<open>Two skip lists in one arena\<close>

text \<open>
  The arena is shared with the time queue. The blocks of another owner are guests: they stay allocated and their
  cells keep their values. The first component is the number of levels of the arena.
\<close>

type_synonym guests = "nat \<times> (nat \<rightharpoonup> nat list)"

definition guests_ok :: "guests \<Rightarrow> (nat \<rightharpoonup> nat) \<Rightarrow> FreeBlock \<Rightarrow> nat set \<Rightarrow> bool" where
  "guests_ok G A fb S \<longleftrightarrow> maxsize fb = fst G \<and> dom (snd G) \<inter> S = {} \<and>
     (\<forall>b c. snd G b = Some c \<longrightarrow> A b = Some (length c) \<and> (\<forall>i < length c. fblks fb ! (b + i) = c ! i))"

lemma guests_ok_keep:
  assumes g: "guests_ok G A fb S" and fr: "frame B T (fblks fb) (fblks fb')" and m: "maxsize fb' = maxsize fb"
    and T: "T \<subseteq> S" and B: "\<And>b. b \<in> dom (snd G) \<Longrightarrow> B b = A b \<and> A' b = A b"
    and S': "dom (snd G) \<inter> S' = {}"
  shows "guests_ok G A' fb' S'"
  unfolding guests_ok_def
proof (intro conjI allI impI)
  show "maxsize fb' = fst G" using g m by (simp add: guests_ok_def)
  fix b c assume b: "snd G b = Some c"
  then have A: "A b = Some (length c)" "\<forall>i < length c. fblks fb ! (b + i) = c ! i" using g by (auto simp: guests_ok_def)
  show "A' b = Some (length c)" using A(1) B [of b] b by auto
  have nT: "b \<notin> T" using g T b by (auto simp: guests_ok_def)
  fix i assume i: "i < length c"
  have "B b = Some (length c)" using A(1) B [of b] b by auto
  then show "fblks fb' ! (b + i) = c ! i" using frameD [OF fr _ nT i] A(2) i by simp
qed (rule S')

definition two_sl :: "guests \<Rightarrow> (nat \<rightharpoonup> nat) \<Rightarrow> FreeBlock \<Rightarrow> (nat \<Rightarrow> nat) \<Rightarrow> nat \<Rightarrow> nat \<Rightarrow> nat list \<Rightarrow> (nat \<Rightarrow> nat) \<Rightarrow> nat \<Rightarrow>
    (nat \<Rightarrow> nat) \<Rightarrow> nat \<Rightarrow> nat \<Rightarrow> nat list \<Rightarrow> (nat \<Rightarrow> nat) \<Rightarrow> nat \<Rightarrow> bool" where
  "two_sl G A fb b1 hn1 tn1 L1 h1 lev1 b2 hn2 tn2 L2 h2 lev2 \<longleftrightarrow> fb_inv fb A \<and>
     sl_ok A (fblks fb) b1 (maxsize fb) hn1 tn1 L1 h1 lev1 \<and> sl_ok A (fblks fb) b2 (maxsize fb) hn2 tn2 L2 h2 lev2 \<and>
     b1 ` set (hn1 # tn1 # L1) \<inter> b2 ` set (hn2 # tn2 # L2) = {} \<and>
     guests_ok G A fb (b1 ` set (hn1 # tn1 # L1) \<union> b2 ` set (hn2 # tn2 # L2))"

lemma two_slD:
  assumes "two_sl G A fb b1 hn1 tn1 L1 h1 lev1 b2 hn2 tn2 L2 h2 lev2"
  shows "fb_inv fb A" "sl_ok A (fblks fb) b1 (maxsize fb) hn1 tn1 L1 h1 lev1"
    "sl_ok A (fblks fb) b2 (maxsize fb) hn2 tn2 L2 h2 lev2" "b1 ` set (hn1 # tn1 # L1) \<inter> b2 ` set (hn2 # tn2 # L2) = {}"
    "guests_ok G A fb (b1 ` set (hn1 # tn1 # L1) \<union> b2 ` set (hn2 # tn2 # L2))"
  using assms unfolding two_sl_def by simp_all

lemma two_sl_sym:
  assumes "two_sl G A fb b1 hn1 tn1 L1 h1 lev1 b2 hn2 tn2 L2 h2 lev2"
  shows "two_sl G A fb b2 hn2 tn2 L2 h2 lev2 b1 hn1 tn1 L1 h1 lev1"
  using assms unfolding two_sl_def by (subst Int_commute, subst Un_commute) simp

lemma sl_ok_alloc:
  assumes "sl_ok A ar base ms hn tn L h lev" "x \<in> set (hn # tn # L)"
  shows "A (base x) \<noteq> None"
  using sl_okD(5,6,7) [OF assms(1)] assms(2) by auto

lemma sl_ok_base_cong:
  assumes "sl_ok A ar base ms hn tn L h lev" "\<And>x. x \<in> set (hn # tn # L) \<Longrightarrow> base' x = base x"
  shows "sl_ok A ar base' ms hn tn L h lev"
  by (rule sl_ok_frame [OF assms(1)]) (use assms(2) in auto)

lemma Get_spares:
  assumes "fb_inv fb A" "k < maxsize fb" "FreeBlock_Get k fb = Some (b, fb1)"
  shows "b = FBLK_NONE \<Longrightarrow> spares fb = 0" "spares fb \<le> Suc (spares fb1)"
proof -
  have "b \<noteq> FBLK_NONE \<and> spares fb \<le> Suc (spares fb1)" if "0 < spares fb"
    by (rule FreeBlock_Get_spares [OF assms(1,2) that]) (use assms(3) in simp)
  then show "b = FBLK_NONE \<Longrightarrow> spares fb = 0" "spares fb \<le> Suc (spares fb1)" by (cases "spares fb = 0"; simp)+
qed

lemma disjoint_sub: "X \<inter> Z = {} \<Longrightarrow> Y \<subseteq> X \<Longrightarrow> Z \<inter> Y = {}"
  by blast

lemma disjoint_insert_sub: "X \<inter> Z = {} \<Longrightarrow> b \<notin> Z \<Longrightarrow> Y \<subseteq> insert b X \<Longrightarrow> Y \<inter> Z = {}"
  by blast

lemma disjoint_two:
  assumes "guests_ok G A fb (X \<union> Z)" "Y \<subseteq> insert b X" "b \<notin> dom (snd G)"
  shows "dom (snd G) \<inter> (Y \<union> Z) = {}"
  using assms unfolding guests_ok_def by blast

lemma two_add:
  assumes two: "two_sl G A fb b1 hn1 tn1 (xs @ ys) h1 lev1 b2 hn2 tn2 L2 h2 lev2"
    and new: "new \<notin> set (hn1 # tn1 # xs @ ys)"
    and tow: "\<And>x. x \<in> set (hn1 # xs) \<Longrightarrow> tower x = Some (b1 x)"
    and lt: "\<And>x. x \<in> set xs \<Longrightarrow> lt x = Some True" "\<And>x. x \<in> set (ys @ [tn1]) \<Longrightarrow> lt x = Some False"
  shows "\<exists>b lev' fb' r'. sl_add tower lt lev1 hn1 new fb r = Some (b, lev', fb', r') \<and>
    (b = FBLK_NONE \<and> spares fb = 0 \<and> fb' = fb \<and> two_sl G A fb b1 hn1 tn1 (xs @ ys) h1 lev' b2 hn2 tn2 L2 h2 lev2 \<or>
     (\<exists>A' k. b \<noteq> FBLK_NONE \<and> spares fb \<le> Suc (spares fb') \<and>
        two_sl G A' fb' (b1(new := b)) hn1 tn1 (xs @ new # ys) (h1(new := k)) lev' b2 hn2 tn2 L2 h2 lev2))"
proof -
  note inv = two_slD(1) [OF two] and ok1 = two_slD(2) [OF two] and ok2 = two_slD(3) [OF two] and dj = two_slD(4) [OF two] and gs = two_slD(5) [OF two]
  obtain b lev' fb' r' k where add: "sl_add tower lt lev1 hn1 new fb r = Some (b, lev', fb', r')" "maxsize fb' = maxsize fb"
    and alt: "FreeBlock_Get k fb = Some (FBLK_NONE, fb) \<and> k < maxsize fb \<and> b = FBLK_NONE \<and> fb' = fb \<and>
       sl_ok A (fblks fb) b1 (maxsize fb) hn1 tn1 (xs @ ys) h1 lev' \<or>
     (\<exists>n fb1. b \<noteq> FBLK_NONE \<and> k < maxsize fb \<and> FreeBlock_Get k fb = Some (b, fb1) \<and> fb_nfree fb' = fb_nfree fb1 \<and>
        A b = None \<and> fb_inv fb' (A(b \<mapsto> n)) \<and>
        sl_ok (A(b \<mapsto> n)) (fblks fb') (b1(new := b)) (maxsize fb) hn1 tn1 (xs @ new # ys) (h1(new := k)) lev' \<and>
        frame A (b1 ` set (hn1 # xs)) (fblks fb) (fblks fb'))"
    using sl_add_spec [where tower = tower and lt = lt and r = r, OF inv ok1 new tow lt] by blast
  show ?thesis
    using alt
  proof (elim disjE exE conjE)
    assume a: "FreeBlock_Get k fb = Some (FBLK_NONE, fb)" "k < maxsize fb" "b = FBLK_NONE" "fb' = fb"
      "sl_ok A (fblks fb) b1 (maxsize fb) hn1 tn1 (xs @ ys) h1 lev'"
    have "spares fb = 0" by (rule Get_spares(1) [OF inv a(2,1) refl])
    then show ?thesis using add(1) a(3-5) ok2 dj inv gs unfolding two_sl_def
      by (intro exI [of _ b] exI [of _ lev'] exI [of _ fb'] exI [of _ r'] conjI disjI1) simp_all
  next
    fix n fb1
    assume a: "b \<noteq> FBLK_NONE" "k < maxsize fb" "FreeBlock_Get k fb = Some (b, fb1)" "fb_nfree fb' = fb_nfree fb1" "A b = None"
      "fb_inv fb' (A(b \<mapsto> n))" "sl_ok (A(b \<mapsto> n)) (fblks fb') (b1(new := b)) (maxsize fb) hn1 tn1 (xs @ new # ys) (h1(new := k)) lev'"
      "frame A (b1 ` set (hn1 # xs)) (fblks fb) (fblks fb')"
    have nb: "b2 x \<noteq> b" if "x \<in> set (hn2 # tn2 # L2)" for x using sl_ok_alloc [OF ok2 that] a(5) by auto
    have sub: "b1 ` set (hn1 # xs) \<subseteq> b1 ` set (hn1 # tn1 # xs @ ys)"
      "(b1(new := b)) ` set (hn1 # tn1 # xs @ new # ys) \<subseteq> insert b (b1 ` set (hn1 # tn1 # xs @ ys))" using new by auto
    have "sl_ok (A(b \<mapsto> n)) (fblks fb') b2 (maxsize fb) hn2 tn2 L2 h2 lev2"
      by (rule sl_ok_keep [OF ok2 a(8)]) (rule disjoint_sub [OF dj sub(1)], use nb in auto)
    moreover have "b \<notin> b2 ` set (hn2 # tn2 # L2)" using nb by (metis imageE)
    then have "(b1(new := b)) ` set (hn1 # tn1 # xs @ new # ys) \<inter> b2 ` set (hn2 # tn2 # L2) = {}"
      by (rule disjoint_insert_sub [OF dj _ sub(2)])
    moreover have "b \<notin> dom (snd G)" using gs a(5) by (force simp: guests_ok_def)
    then have "guests_ok G (A(b \<mapsto> n)) fb' ((b1(new := b)) ` set (hn1 # tn1 # xs @ new # ys) \<union> b2 ` set (hn2 # tn2 # L2))"
      by (intro guests_ok_keep [OF gs a(8) add(2)] disjoint_two [OF gs sub(2)]) (use sub(1) in auto)
    moreover have "maxsize fb1 = maxsize fb" using FreeBlock_Get_spec [OF inv a(2)] a(1,3) by (auto simp: same_cells_def)
    moreover have "spares fb \<le> Suc (spares fb1)" by (rule Get_spares(2) [OF inv a(2,3)])
    ultimately have "two_sl G (A(b \<mapsto> n)) fb' (b1(new := b)) hn1 tn1 (xs @ new # ys) (h1(new := k)) lev' b2 hn2 tn2 L2 h2 lev2"
      "spares fb \<le> Suc (spares fb')"
      using a(4,6,7) add(2) unfolding two_sl_def spares_def by simp_all
    then show ?thesis using add(1) a(1)
      by (intro exI [of _ b] exI [of _ lev'] exI [of _ fb'] exI [of _ r'] conjI disjI2 exI [of _ "A(b \<mapsto> n)"] exI [of _ k])
  qed
qed

lemma two_del:
  assumes two: "two_sl G A fb b1 hn1 tn1 (xs @ q # ys) h1 lev1 b2 hn2 tn2 L2 h2 lev2"
    and tow: "\<And>x. x \<in> set (hn1 # q # xs) \<Longrightarrow> tower x = Some (b1 x)"
    and lt: "\<And>x. x \<in> set xs \<Longrightarrow> lt x = Some True" "\<And>x. x \<in> set (q # ys @ [tn1]) \<Longrightarrow> lt x = Some False"
    and hit: "found q = Some True"
  shows "\<exists>lev' fb' A'. sl_del tower lt found lev1 hn1 tn1 fb = Some (lev', fb') \<and> spares fb' = spares fb \<and>
    two_sl G A' fb' b1 hn1 tn1 (xs @ ys) h1 lev' b2 hn2 tn2 L2 h2 lev2"
proof -
  note inv = two_slD(1) [OF two] and ok1 = two_slD(2) [OF two] and ok2 = two_slD(3) [OF two] and dj = two_slD(4) [OF two] and gs = two_slD(5) [OF two]
  have "\<exists>lev' fb' fb1. sl_del tower lt found lev1 hn1 tn1 fb = Some (lev', fb') \<and> maxsize fb' = maxsize fb \<and>
    (\<exists>z. FreeBlock_Release z (b1 q) fb1 = Some fb' \<and> fb_nfree fb1 = fb_nfree fb \<and> maxsize fb1 = maxsize fb) \<and>
    fb_inv fb' (A(b1 q := None)) \<and>
    sl_ok (A(b1 q := None)) (fblks fb') b1 (maxsize fb) hn1 tn1 (xs @ ys) h1 lev' \<and>
    frame (A(b1 q := None)) (b1 ` set (hn1 # xs)) (fblks fb) (fblks fb')"
    by (rule sl_del_spec [where found = found, OF inv ok1 _ _ _ hit]) (rule tow lt; assumption)+
  then obtain lev' fb' fb1 z where d: "sl_del tower lt found lev1 hn1 tn1 fb = Some (lev', fb')" "maxsize fb' = maxsize fb"
    "FreeBlock_Release z (b1 q) fb1 = Some fb'" "fb_nfree fb1 = fb_nfree fb" "maxsize fb1 = maxsize fb"
    "fb_inv fb' (A(b1 q := None))" "sl_ok (A(b1 q := None)) (fblks fb') b1 (maxsize fb) hn1 tn1 (xs @ ys) h1 lev'"
    "frame (A(b1 q := None)) (b1 ` set (hn1 # xs)) (fblks fb) (fblks fb')"
    by (elim exE conjE) (rule that)
  have sub: "b1 ` set (hn1 # xs) \<subseteq> b1 ` set (hn1 # tn1 # xs @ q # ys)" "b1 ` set (hn1 # tn1 # xs @ ys) \<subseteq> b1 ` set (hn1 # tn1 # xs @ q # ys)"
    "b1 q \<in> b1 ` set (hn1 # tn1 # xs @ q # ys)" by auto
  have nq: "b2 x \<noteq> b1 q" if "x \<in> set (hn2 # tn2 # L2)" for x
    using dj sub(3) imageI [OF that, of b2] by (metis disjoint_iff)
  have "sl_ok (A(b1 q := None)) (fblks fb) b2 (maxsize fb) hn2 tn2 L2 h2 lev2"
    using nq by (intro sl_ok_frame [OF ok2]) auto
  then have "sl_ok (A(b1 q := None)) (fblks fb') b2 (maxsize fb) hn2 tn2 L2 h2 lev2"
    by (rule sl_ok_keep [OF _ d(8)]) (rule disjoint_sub [OF dj sub(1)], rule refl, rule refl)
  moreover have "b1 ` set (hn1 # tn1 # xs @ ys) \<inter> b2 ` set (hn2 # tn2 # L2) = {}"
    using disjoint_sub [OF dj sub(2)] by (simp add: Int_commute)
  moreover have qg: "b1 q \<notin> dom (snd G)" using gs sub(3) by (auto simp: guests_ok_def)
  have "guests_ok G (A(b1 q := None)) fb' (b1 ` set (hn1 # tn1 # xs @ ys) \<union> b2 ` set (hn2 # tn2 # L2))"
    by (rule guests_ok_keep [OF gs d(8,2)]) (use sub(1) qg in auto, use gs sub(2) in \<open>auto simp: guests_ok_def\<close>)
  moreover obtain fl where core: "fb_core fb fl A" using inv by (auto simp: fb_inv_def)
  have "spares fb' = spares fb"
    using FreeBlock_Release_spares(1) [OF d(3)] fb_coreD(2,3) [OF core] d(4,5) by (simp add: spares_def)
  ultimately have "two_sl G (A(b1 q := None)) fb' b1 hn1 tn1 (xs @ ys) h1 lev' b2 hn2 tn2 L2 h2 lev2" "spares fb' = spares fb"
    using d(2,6,7) unfolding two_sl_def by simp_all
  then show ?thesis using d(1) by blast
qed


subsection \<open>Well-formed free lists\<close>

lemmas rl_consts = RL_FREE_OVERHEAD_def RL_EMPTY_HD_def RL_FOFF_HD_def RL_FOFF_TL_def RL_FEXT_HD_def RL_FEXT_TL_def

abbreviation slot_off :: "Region list \<Rightarrow> nat \<Rightarrow> int" where
  "slot_off rps i \<equiv> rg_offset (rps ! i)"

abbreviation slot_ext :: "Region list \<Rightarrow> nat \<Rightarrow> nat" where
  "slot_ext rps i \<equiv> GetExtent (rps ! i)"

abbreviation ekey :: "Region list \<Rightarrow> nat \<Rightarrow> nat \<times> int" where
  "ekey rps i \<equiv> (slot_ext rps i, slot_off rps i)"

text \<open>A slot that can describe a free region of the data section.\<close>

definition region_ok :: "Region list \<Rightarrow> nat \<Rightarrow> nat \<Rightarrow> bool" where
  "region_ok rps n i \<longleftrightarrow> 4 \<le> i \<and> i < n \<and> even (rg_extent (rps ! i)) \<and> 0 \<le> slot_off rps i \<and>
     slot_off rps i + int (rg_extent (rps ! i)) \<le> huge_off_t"

definition slots_ok :: "Region list \<Rightarrow> nat \<Rightarrow> bool" where
  "slots_ok rps n \<longleftrightarrow> 4 \<le> n \<and> n \<le> length rps \<and> n < SIZE_NONE \<and> slot_off rps RL_FOFF_TL = huge_off_t \<and>
     rg_extent (rps ! RL_FEXT_HD) = 0 \<and> rg_extent (rps ! RL_FEXT_TL) = 2 ^ 64 - 2 \<and> slot_off rps RL_FEXT_TL = 0"

definition rl_lists :: "guests \<Rightarrow> RegionList \<Rightarrow> FreeBlock \<Rightarrow> (nat \<rightharpoonup> nat) \<Rightarrow> nat list \<Rightarrow> (nat \<Rightarrow> nat) \<Rightarrow> nat list \<Rightarrow> (nat \<Rightarrow> nat) \<Rightarrow> bool" where
  "rl_lists G rl fb A FO hO FE hE \<longleftrightarrow>
     two_sl G A fb (\<lambda>i. rg_next (rp rl ! i)) RL_FOFF_HD RL_FOFF_TL FO hO (level_foff rl)
       (\<lambda>i. rg_prev (rp rl ! i)) RL_FEXT_HD RL_FEXT_TL FE hE (level_fext rl) \<and>
     foff rl = RL_FOFF_HD \<and> fext rl = RL_FEXT_HD \<and> slots_ok (rp rl) (rl_nalloc rl + RL_FREE_OVERHEAD) \<and>
     (\<forall>i \<in> set FO \<union> set FE. region_ok (rp rl) (rl_nalloc rl + RL_FREE_OVERHEAD) i) \<and>
     by_key (slot_off (rp rl)) FO \<and> by_key (ekey (rp rl)) FE"

text \<open>Steps that only touch the towers of the slots \<open>S\<close> and the levels of the lists.\<close>

definition towers_only :: "nat set \<Rightarrow> RegionList \<Rightarrow> RegionList \<Rightarrow> bool" where
  "towers_only S rl rl' \<longleftrightarrow> rl' = rl\<lparr>rp := rp rl', level_foff := level_foff rl', level_fext := level_fext rl'\<rparr> \<and>
     length (rp rl') = length (rp rl) \<and> (\<forall>j. j \<notin> S \<longrightarrow> rp rl' ! j = rp rl ! j) \<and>
     (\<forall>j. slot_off (rp rl') j = slot_off (rp rl) j \<and> rg_extent (rp rl' ! j) = rg_extent (rp rl ! j))"

lemma towers_only_refl [simp]: "towers_only S rl rl"
  by (simp add: towers_only_def)

lemma towers_onlyD:
  assumes "towers_only S rl rl'"
  shows "rl' = rl\<lparr>rp := rp rl', level_foff := level_foff rl', level_fext := level_fext rl'\<rparr>" "length (rp rl') = length (rp rl)"
    "j \<notin> S \<Longrightarrow> rp rl' ! j = rp rl ! j" "slot_off (rp rl') j = slot_off (rp rl) j" "rg_extent (rp rl' ! j) = rg_extent (rp rl ! j)"
  using assms unfolding towers_only_def by blast+

lemma towers_only_ext: "towers_only S rl rl' \<Longrightarrow> slot_ext (rp rl') j = slot_ext (rp rl) j"
  by (simp add: GetExtent_def towers_onlyD(5))

lemma towers_only_fields:
  assumes "towers_only S rl rl'"
  shows "rl_nalloc rl' = rl_nalloc rl" "rl_nchains rl' = rl_nchains rl" "rl_empty rl' = rl_empty rl" "rl_nelems rl' = rl_nelems rl"
    "rl_nfree rl' = rl_nfree rl" "maxfextent rl' = maxfextent rl" "nempty rl' = nempty rl" "rh_magic rl' = rh_magic rl"
    "rh_chains rl' = rh_chains rl" "foff rl' = foff rl" "fext rl' = fext rl" "nbytes rl' = nbytes rl" "maxbytes rl' = maxbytes rl"
  by (subst towers_onlyD(1) [OF assms], simp)+

lemma towers_only_trans:
  assumes a: "towers_only S rl rl1" and b: "towers_only T rl1 rl2"
  shows "towers_only (S \<union> T) rl rl2"
proof -
  have "rl2 = rl\<lparr>rp := rp rl2, level_foff := level_foff rl2, level_fext := level_fext rl2\<rparr>"
    by (subst towers_onlyD(1) [OF b], subst towers_onlyD(1) [OF a]) simp
  then show ?thesis using towers_onlyD(2-5) [OF a] towers_onlyD(2-5) [OF b] unfolding towers_only_def by simp
qed

lemma towers_only_mono: "towers_only S rl rl' \<Longrightarrow> S \<subseteq> T \<Longrightarrow> towers_only T rl rl'"
  unfolding towers_only_def by blast

lemma rl_listsD:
  assumes "rl_lists G rl fb A FO hO FE hE"
  shows "two_sl G A fb (\<lambda>i. rg_next (rp rl ! i)) RL_FOFF_HD RL_FOFF_TL FO hO (level_foff rl)
       (\<lambda>i. rg_prev (rp rl ! i)) RL_FEXT_HD RL_FEXT_TL FE hE (level_fext rl)"
    "foff rl = RL_FOFF_HD" "fext rl = RL_FEXT_HD" "slots_ok (rp rl) (rl_nalloc rl + RL_FREE_OVERHEAD)"
    "i \<in> set FO \<Longrightarrow> region_ok (rp rl) (rl_nalloc rl + RL_FREE_OVERHEAD) i"
    "i \<in> set FE \<Longrightarrow> region_ok (rp rl) (rl_nalloc rl + RL_FREE_OVERHEAD) i"
    "by_key (slot_off (rp rl)) FO" "by_key (ekey (rp rl)) FE"
  using assms unfolding rl_lists_def by blast+

lemma region_okD:
  assumes "slots_ok rps n" "region_ok rps n i"
  shows "4 \<le> i" "i < n" "i < length rps" "slot_ext rps i = rg_extent (rps ! i)" "0 \<le> slot_off rps i"
    "slot_off rps i \<le> huge_off_t" "slot_off rps i + int (slot_ext rps i) \<le> huge_off_t" "rg_extent (rps ! i) < 2 ^ 63"
    "IsFree (rps ! i)"
  using assms unfolding slots_ok_def region_ok_def GetExtent_def huge_off_t_def IsFree_def IsAlloc_def by auto


lemma rl_lists_step:
  assumes l: "rl_lists G rl fb A FO hO FE hE" and t: "towers_only S rl rl'"
    and two: "two_sl G A' fb' (\<lambda>i. rg_next (rp rl' ! i)) RL_FOFF_HD RL_FOFF_TL FO' hO' (level_foff rl')
       (\<lambda>i. rg_prev (rp rl' ! i)) RL_FEXT_HD RL_FEXT_TL FE' hE' (level_fext rl')"
    and ok: "\<And>i. i \<in> set FO' \<union> set FE' \<Longrightarrow> region_ok (rp rl) (rl_nalloc rl + RL_FREE_OVERHEAD) i"
    and k: "by_key (slot_off (rp rl)) FO'" "by_key (ekey (rp rl)) FE'"
  shows "rl_lists G rl' fb' A' FO' hO' FE' hE'"
proof -
  note F = towers_only_fields [OF t] and E = towers_onlyD(4,5) [OF t]
  have "slots_ok (rp rl') (rl_nalloc rl' + RL_FREE_OVERHEAD)"
    using rl_listsD(4) [OF l] towers_onlyD(2) [OF t] unfolding slots_ok_def by (simp add: F E)
  moreover have "region_ok (rp rl') (rl_nalloc rl' + RL_FREE_OVERHEAD) i" if "i \<in> set FO' \<union> set FE'" for i
    using ok [OF that] unfolding region_ok_def by (simp add: F E)
  moreover have "by_key (slot_off (rp rl')) FO'" by (rule by_key_cong [OF k(1)]) (simp add: E)
  moreover have "by_key (ekey (rp rl')) FE'" by (rule by_key_cong [OF k(2)]) (simp add: E towers_only_ext [OF t])
  ultimately show ?thesis using two rl_listsD(2,3) [OF l] unfolding rl_lists_def by (simp add: F)
qed

text \<open>Storing the address of a tower in a slot.\<close>

lemma set_tower:
  assumes "i < length (rp rl)"
  shows "towers_only {i} rl (rl\<lparr>rp := (rp rl)[i := (rp rl ! i)\<lparr>rg_next := b\<rparr>], level_foff := l\<rparr>)"
    "towers_only {i} rl (rl\<lparr>rp := (rp rl)[i := (rp rl ! i)\<lparr>rg_prev := b\<rparr>], level_fext := l\<rparr>)"
    "(\<lambda>j. rg_next ((rp rl)[i := (rp rl ! i)\<lparr>rg_next := b\<rparr>] ! j)) = (\<lambda>j. rg_next (rp rl ! j))(i := b)"
    "(\<lambda>j. rg_prev ((rp rl)[i := (rp rl ! i)\<lparr>rg_next := b\<rparr>] ! j)) = (\<lambda>j. rg_prev (rp rl ! j))"
    "(\<lambda>j. rg_next ((rp rl)[i := (rp rl ! i)\<lparr>rg_prev := b\<rparr>] ! j)) = (\<lambda>j. rg_next (rp rl ! j))"
    "(\<lambda>j. rg_prev ((rp rl)[i := (rp rl ! i)\<lparr>rg_prev := b\<rparr>] ! j)) = (\<lambda>j. rg_prev (rp rl ! j))(i := b)"
  using assms by (auto simp: towers_only_def nth_list_update fun_eq_iff)

lemma sl_base_upd:
  assumes "sl_ok A ar base ms hn tn L h lev" "i \<notin> set (hn # tn # L)"
  shows "sl_ok A ar (base(i := b)) ms hn tn L h lev"
  by (rule sl_ok_base_cong [OF assms(1)]) (use assms(2) in auto)

lemma two_base_upd:
  assumes "two_sl G A fb b1 hn1 tn1 L1 h1 lev1 b2 hn2 tn2 L2 h2 lev2" "i \<notin> set (hn1 # tn1 # L1)"
  shows "two_sl G A fb (b1(i := b)) hn1 tn1 L1 h1 lev1 b2 hn2 tn2 L2 h2 lev2"
proof -
  have "(b1(i := b)) ` set (hn1 # tn1 # L1) = b1 ` set (hn1 # tn1 # L1)" by (rule image_cong) (use assms(2) in auto)
  then show ?thesis
    using two_slD [OF assms(1)] sl_base_upd [OF two_slD(2) [OF assms(1)] assms(2)] unfolding two_sl_def by simp
qed

lemma off_tower_in: "x < length rps \<Longrightarrow> off_tower rps x = Some (rg_next (rps ! x))"
  by (simp add: off_tower_def)

lemma ext_tower_in: "x < length rps \<Longrightarrow> ext_tower rps x = Some (rg_prev (rps ! x))"
  by (simp add: ext_tower_def)

lemma slot_bound:
  assumes "rl_lists G rl fb A FO hO FE hE"
  shows "x \<in> set (RL_FOFF_HD # RL_FOFF_TL # FO) \<Longrightarrow> x < length (rp rl)" "x \<in> set (RL_FEXT_HD # RL_FEXT_TL # FE) \<Longrightarrow> x < length (rp rl)"
  using region_okD(3) [OF rl_listsD(4) [OF assms]] rl_listsD(4-6) [OF assms] by (auto simp: slots_ok_def rl_consts)

text \<open>The sentinels bound every search.\<close>

lemma off_lt_split:
  assumes l: "rl_lists G rl fb A (xs @ ys) hO FE hE" and t: "t \<le> huge_off_t"
    and xs: "\<And>x. x \<in> set xs \<Longrightarrow> slot_off (rp rl) x < t" and ys: "\<And>y. y \<in> set ys \<Longrightarrow> t \<le> slot_off (rp rl) y"
  shows "\<And>x. x \<in> set xs \<Longrightarrow> off_lt (rp rl) t x = Some True" "\<And>y. y \<in> set (ys @ [RL_FOFF_TL]) \<Longrightarrow> off_lt (rp rl) t y = Some False"
proof -
  have tl: "slot_off (rp rl) RL_FOFF_TL = huge_off_t" using rl_listsD(4) [OF l] unfolding slots_ok_def by simp
  show "off_lt (rp rl) t x = Some True" if "x \<in> set xs" for x
    using xs [OF that] slot_bound(1) [OF l, of x] that by (simp add: off_lt_def)
  show "off_lt (rp rl) t y = Some False" if "y \<in> set (ys @ [RL_FOFF_TL])" for y
    using that ys [of y] t tl slot_bound(1) [OF l, of y] by (auto simp: off_lt_def not_less)
qed

lemma ext_lt_split:
  assumes l: "rl_lists G rl fb A FO hO (xs @ ys) hE" and t: "(e, t) \<le> (2 ^ 64 - 2, 0)"
    and xs: "\<And>x. x \<in> set xs \<Longrightarrow> ekey (rp rl) x < (e, t)" and ys: "\<And>y. y \<in> set ys \<Longrightarrow> (e, t) \<le> ekey (rp rl) y"
  shows "\<And>x. x \<in> set xs \<Longrightarrow> ext_lt (rp rl) e t x = Some True" "\<And>y. y \<in> set (ys @ [RL_FEXT_TL]) \<Longrightarrow> ext_lt (rp rl) e t y = Some False"
proof -
  have lt: "ext_lt (rp rl) e t x = Some (ekey (rp rl) x < (e, t))" if "x < length (rp rl)" for x
    using that by (auto simp: ext_lt_def le_less)
  have tl: "ekey (rp rl) RL_FEXT_TL = (2 ^ 64 - 2, 0)" using rl_listsD(4) [OF l] unfolding slots_ok_def by (simp add: GetExtent_def)
  show "ext_lt (rp rl) e t x = Some True" if "x \<in> set xs" for x
    using xs [OF that] lt [OF slot_bound(2) [OF l]] that by simp
  show "ext_lt (rp rl) e t y = Some False" if y: "y \<in> set (ys @ [RL_FEXT_TL])" for y
  proof -
    have "(e, t) \<le> ekey (rp rl) y" using y ys [of y] t tl by (cases "y = RL_FEXT_TL") (simp_all only: tl, auto)
    then have "\<not> ekey (rp rl) y < (e, t)" by (simp only: not_less)
    then show ?thesis using lt [OF slot_bound(2) [OF l]] y by auto
  qed
qed


subsection \<open>Entering and leaving the lists\<close>

lemma AddOffset_spec:
  assumes l: "rl_lists G rl fb A FO hO FE hE" and ok: "region_ok (rp rl) (rl_nalloc rl + RL_FREE_OVERHEAD) i"
    and i: "slot_off (rp rl) i \<notin> slot_off (rp rl) ` set FO"
  shows "\<exists>st rl' fb' r'. AddOffset i rl fb r = Some (st, rl', fb', r') \<and> towers_only {i} rl rl' \<and>
    (st \<noteq> 0 \<and> spares fb = 0 \<and> fb' = fb \<and> rl_lists G rl' fb A FO hO FE hE \<or>
     st = 0 \<and> spares fb \<le> Suc (spares fb') \<and>
       (\<exists>A' hO'. rl_lists G rl' fb' A' (insort_key (slot_off (rp rl)) i FO) hO' FE hE))"
proof -
  note D = rl_listsD [OF l] and R = region_okD [OF rl_listsD(4) [OF l] ok]
  define key where "key = slot_off (rp rl) i"
  obtain xs ys where FO: "FO = xs @ ys" and xs: "\<And>x. x \<in> set xs \<Longrightarrow> slot_off (rp rl) x < key"
    and ys: "\<And>y. y \<in> set ys \<Longrightarrow> key \<le> slot_off (rp rl) y" by (rule by_key_split [OF D(7), of key]) (rule that)
  note l' = l [unfolded FO] and two = D(1) [unfolded FO]
  have lt: "\<And>x. x \<in> set xs \<Longrightarrow> off_lt (rp rl) key x = Some True"
    "\<And>y. y \<in> set (ys @ [RL_FOFF_TL]) \<Longrightarrow> off_lt (rp rl) key y = Some False"
    by (rule off_lt_split [OF l' _ xs ys]; use R(6) in \<open>simp add: key_def\<close>)+
  have new: "i \<notin> set (RL_FOFF_HD # RL_FOFF_TL # xs @ ys)" using i R(1) FO by (auto simp: rl_consts)
  have tow: "off_tower (rp rl) x = Some (rg_next (rp rl ! x))" if "x \<in> set (RL_FOFF_HD # xs)" for x
    using that by (intro off_tower_in slot_bound(1) [OF l']) auto
  have ins: "insort_key (slot_off (rp rl)) i FO = xs @ i # ys" unfolding FO by (rule insort_key_split) (use xs ys in \<open>auto simp: key_def\<close>)
  have byk: "by_key (slot_off (rp rl)) (xs @ i # ys)" unfolding ins [symmetric] by (rule by_key_insort [OF D(7) i])
  obtain b lev fb' r' where add: "sl_add (off_tower (rp rl)) (off_lt (rp rl) key) (level_foff rl) RL_FOFF_HD i fb r = Some (b, lev, fb', r')"
    and alt: "b = FBLK_NONE \<and> spares fb = 0 \<and> fb' = fb \<and> two_sl G A fb (\<lambda>i. rg_next (rp rl ! i)) RL_FOFF_HD RL_FOFF_TL (xs @ ys) hO lev
        (\<lambda>i. rg_prev (rp rl ! i)) RL_FEXT_HD RL_FEXT_TL FE hE (level_fext rl) \<or>
      (\<exists>A' k. b \<noteq> FBLK_NONE \<and> spares fb \<le> Suc (spares fb') \<and>
        two_sl G A' fb' ((\<lambda>i. rg_next (rp rl ! i))(i := b)) RL_FOFF_HD RL_FOFF_TL (xs @ i # ys) (hO(i := k)) lev
        (\<lambda>i. rg_prev (rp rl ! i)) RL_FEXT_HD RL_FEXT_TL FE hE (level_fext rl))"
    using two_add [where lt = "off_lt (rp rl) key" and tower = "off_tower (rp rl)" and r = r, OF two new tow lt] by blast
  define rl' where "rl' = rl\<lparr>rp := (rp rl)[i := (rp rl ! i)\<lparr>rg_next := b\<rparr>], level_foff := lev\<rparr>"
  note T = set_tower [OF R(3)]
  have t: "towers_only {i} rl rl'" unfolding rl'_def by (rule T(1))
  have res: "AddOffset i rl fb r = Some (if b = FBLK_NONE then -4 else 0, rl', fb', r')"
    using add R(3) D(2) unfolding AddOffset_def rl'_def key_def by simp
  show ?thesis
    using alt
  proof (elim disjE exE conjE)
    assume a: "b = FBLK_NONE" "spares fb = 0" "fb' = fb" "two_sl G A fb (\<lambda>i. rg_next (rp rl ! i)) RL_FOFF_HD RL_FOFF_TL (xs @ ys) hO lev
        (\<lambda>i. rg_prev (rp rl ! i)) RL_FEXT_HD RL_FEXT_TL FE hE (level_fext rl)"
    have "rl_lists G rl' fb A FO hO FE hE"
      using two_base_upd [OF a(4) new, of b] D(5,6) FO
      by (intro rl_lists_step [OF l t _ _ D(7,8)]) (auto simp: rl'_def T)
    then show ?thesis using res t a(1-3) by auto
  next
    fix A' k
    assume a: "b \<noteq> FBLK_NONE" "spares fb \<le> Suc (spares fb')"
      "two_sl G A' fb' ((\<lambda>i. rg_next (rp rl ! i))(i := b)) RL_FOFF_HD RL_FOFF_TL (xs @ i # ys) (hO(i := k)) lev
        (\<lambda>i. rg_prev (rp rl ! i)) RL_FEXT_HD RL_FEXT_TL FE hE (level_fext rl)"
    have "rl_lists G rl' fb' A' (xs @ i # ys) (hO(i := k)) FE hE"
      using a(3) D(5,6) ok FO by (intro rl_lists_step [OF l t _ _ byk D(8)]) (auto simp: rl'_def T)
    then show ?thesis using res t a(1,2) unfolding ins by auto
  qed
qed



lemma ekey_bound:
  assumes "slots_ok rps n" "region_ok rps n i"
  shows "ekey rps i \<le> (2 ^ 64 - 2, 0)"
  using region_okD(4,8) [OF assms] by simp

lemma AddExtent_spec:
  assumes l: "rl_lists G rl fb A FO hO FE hE" and ok: "region_ok (rp rl) (rl_nalloc rl + RL_FREE_OVERHEAD) i"
    and i: "ekey (rp rl) i \<notin> ekey (rp rl) ` set FE"
  shows "\<exists>st rl' fb' r'. AddExtent i rl fb r = Some (st, rl', fb', r') \<and> towers_only {i} rl rl' \<and>
    (st \<noteq> 0 \<and> spares fb = 0 \<and> fb' = fb \<and> rl_lists G rl' fb A FO hO FE hE \<or>
     st = 0 \<and> spares fb \<le> Suc (spares fb') \<and>
       (\<exists>A' hE'. rl_lists G rl' fb' A' FO hO (insort_key (ekey (rp rl)) i FE) hE'))"
proof -
  note D = rl_listsD [OF l] and R = region_okD [OF rl_listsD(4) [OF l] ok]
  define e where "e = slot_ext (rp rl) i"
  define t where "t = slot_off (rp rl) i"
  obtain xs ys where FE: "FE = xs @ ys" and xs: "\<And>x. x \<in> set xs \<Longrightarrow> ekey (rp rl) x < (e, t)"
    and ys: "\<And>y. y \<in> set ys \<Longrightarrow> (e, t) \<le> ekey (rp rl) y" by (rule by_key_split [OF D(8), of "(e, t)"]) (rule that)
  note l' = l [unfolded FE] and two = two_sl_sym [OF D(1), unfolded FE]
  have top: "(e, t) \<le> (2 ^ 64 - 2, 0)" using ekey_bound [OF D(4) ok] by (simp only: e_def t_def)
  have lt: "\<And>x. x \<in> set xs \<Longrightarrow> ext_lt (rp rl) e t x = Some True"
    "\<And>y. y \<in> set (ys @ [RL_FEXT_TL]) \<Longrightarrow> ext_lt (rp rl) e t y = Some False"
    by (rule ext_lt_split [OF l' top xs ys]; assumption)+
  have new: "i \<notin> set (RL_FEXT_HD # RL_FEXT_TL # xs @ ys)" using i R(1) FE by (auto simp: rl_consts)
  have tow: "ext_tower (rp rl) x = Some (rg_prev (rp rl ! x))" if "x \<in> set (RL_FEXT_HD # xs)" for x
    using that by (intro ext_tower_in slot_bound(2) [OF l']) auto
  have ins: "insort_key (ekey (rp rl)) i FE = xs @ i # ys"
    unfolding FE by (rule insort_key_split) (use xs ys in \<open>simp_all only: e_def t_def\<close>)
  have byk: "by_key (ekey (rp rl)) (xs @ i # ys)" unfolding ins [symmetric] by (rule by_key_insort [OF D(8) i])
  obtain b lev fb' r' where add: "sl_add (ext_tower (rp rl)) (ext_lt (rp rl) e t) (level_fext rl) RL_FEXT_HD i fb r = Some (b, lev, fb', r')"
    and alt: "b = FBLK_NONE \<and> spares fb = 0 \<and> fb' = fb \<and> two_sl G A fb (\<lambda>i. rg_prev (rp rl ! i)) RL_FEXT_HD RL_FEXT_TL (xs @ ys) hE lev
        (\<lambda>i. rg_next (rp rl ! i)) RL_FOFF_HD RL_FOFF_TL FO hO (level_foff rl) \<or>
      (\<exists>A' k. b \<noteq> FBLK_NONE \<and> spares fb \<le> Suc (spares fb') \<and>
        two_sl G A' fb' ((\<lambda>i. rg_prev (rp rl ! i))(i := b)) RL_FEXT_HD RL_FEXT_TL (xs @ i # ys) (hE(i := k)) lev
        (\<lambda>i. rg_next (rp rl ! i)) RL_FOFF_HD RL_FOFF_TL FO hO (level_foff rl))"
    using two_add [where lt = "ext_lt (rp rl) e t" and tower = "ext_tower (rp rl)" and r = r, OF two new tow lt] by blast
  define rl' where "rl' = rl\<lparr>rp := (rp rl)[i := (rp rl ! i)\<lparr>rg_prev := b\<rparr>], level_fext := lev\<rparr>"
  note T = set_tower [OF R(3)]
  have t': "towers_only {i} rl rl'" unfolding rl'_def by (rule T(2))
  have res: "AddExtent i rl fb r = Some (if b = FBLK_NONE then -4 else 0, rl', fb', r')"
    using add R(3) D(3) unfolding AddExtent_def rl'_def e_def t_def by simp
  show ?thesis
    using alt
  proof (elim disjE exE conjE)
    assume a: "b = FBLK_NONE" "spares fb = 0" "fb' = fb" "two_sl G A fb (\<lambda>i. rg_prev (rp rl ! i)) RL_FEXT_HD RL_FEXT_TL (xs @ ys) hE lev
        (\<lambda>i. rg_next (rp rl ! i)) RL_FOFF_HD RL_FOFF_TL FO hO (level_foff rl)"
    have "rl_lists G rl' fb A FO hO FE hE"
      using two_sl_sym [OF two_base_upd [OF a(4) new, of b]] D(5,6) FE
      by (intro rl_lists_step [OF l t' _ _ D(7,8)]) (auto simp: rl'_def T)
    then show ?thesis using res t' a(1-3) by auto
  next
    fix A' k
    assume a: "b \<noteq> FBLK_NONE" "spares fb \<le> Suc (spares fb')"
      "two_sl G A' fb' ((\<lambda>i. rg_prev (rp rl ! i))(i := b)) RL_FEXT_HD RL_FEXT_TL (xs @ i # ys) (hE(i := k)) lev
        (\<lambda>i. rg_next (rp rl ! i)) RL_FOFF_HD RL_FOFF_TL FO hO (level_foff rl)"
    have "rl_lists G rl' fb' A' FO hO (xs @ i # ys) (hE(i := k))"
      using two_sl_sym [OF a(3)] D(5,6) ok FE by (intro rl_lists_step [OF l t' _ _ D(7) byk]) (auto simp: rl'_def T)
    then show ?thesis using res t' a(1,2) unfolding ins by auto
  qed
qed

lemma DeleteOffset_spec:
  assumes l: "rl_lists G rl fb A FO hO FE hE" and i: "i \<in> set FO"
  shows "\<exists>rl' fb' A'. DeleteOffset i rl fb = Some (rl', fb') \<and> towers_only {} rl rl' \<and> spares fb' = spares fb \<and>
    rl_lists G rl' fb' A' (remove1 i FO) hO FE hE"
proof -
  note D = rl_listsD [OF l] and R = region_okD [OF rl_listsD(4) [OF l] rl_listsD(5) [OF l i]]
  define key where "key = slot_off (rp rl) i"
  obtain xs ys where FO: "FO = xs @ i # ys" "remove1 i FO = xs @ ys" and xs: "\<And>x. x \<in> set xs \<Longrightarrow> slot_off (rp rl) x < key"
    and ys: "\<And>y. y \<in> set ys \<Longrightarrow> key < slot_off (rp rl) y"
    using by_key_at [OF D(7) i] unfolding key_def by blast
  have ys': "key \<le> slot_off (rp rl) y" if "y \<in> set (i # ys)" for y using that ys [of y] by (auto simp: key_def)
  note l' = l [unfolded FO(1)] and two = D(1) [unfolded FO(1)]
  have lt: "\<And>x. x \<in> set xs \<Longrightarrow> off_lt (rp rl) key x = Some True"
    "\<And>y. y \<in> set ((i # ys) @ [RL_FOFF_TL]) \<Longrightarrow> off_lt (rp rl) key y = Some False"
    by (rule off_lt_split [OF l' _ xs ys']; use R(6) in \<open>simp add: key_def\<close>)+
  have tow: "off_tower (rp rl) x = Some (rg_next (rp rl ! x))" if "x \<in> set (RL_FOFF_HD # i # xs)" for x
    using that by (intro off_tower_in slot_bound(1) [OF l']) auto
  define found where "found = (\<lambda>q. map_option (\<lambda>sqp. rg_offset sqp = key) (rd (rp rl) q))"
  have hit: "found i = Some True" using R(3) by (simp add: found_def key_def)
  have "\<exists>lev' fb' A'. sl_del (off_tower (rp rl)) (off_lt (rp rl) key) found (level_foff rl) RL_FOFF_HD RL_FOFF_TL fb = Some (lev', fb') \<and>
      spares fb' = spares fb \<and> two_sl G A' fb' (\<lambda>i. rg_next (rp rl ! i)) RL_FOFF_HD RL_FOFF_TL (xs @ ys) hO lev'
        (\<lambda>i. rg_prev (rp rl ! i)) RL_FEXT_HD RL_FEXT_TL FE hE (level_fext rl)"
    by (rule two_del [where found = found, OF two _ _ _ hit]) (use tow lt in auto)
  then obtain lev' fb' A' where d: "sl_del (off_tower (rp rl)) (off_lt (rp rl) key) found (level_foff rl) RL_FOFF_HD RL_FOFF_TL fb = Some (lev', fb')"
    "spares fb' = spares fb" "two_sl G A' fb' (\<lambda>i. rg_next (rp rl ! i)) RL_FOFF_HD RL_FOFF_TL (xs @ ys) hO lev'
        (\<lambda>i. rg_prev (rp rl ! i)) RL_FEXT_HD RL_FEXT_TL FE hE (level_fext rl)" by blast
  define rl' where "rl' = rl\<lparr>level_foff := lev'\<rparr>"
  have t: "towers_only {} rl rl'" by (simp add: towers_only_def rl'_def)
  have "DeleteOffset i rl fb = Some (rl', fb')"
    using d(1) R(3) D(2) unfolding DeleteOffset_def rl'_def found_def key_def by simp
  moreover have "rl_lists G rl' fb' A' (remove1 i FO) hO FE hE"
    using d(3) D(5,6) FO by (intro rl_lists_step [OF l t _ _ by_key_remove1 [OF D(7)] D(8)]) (auto simp: rl'_def)
  ultimately show ?thesis using t d(2) by blast
qed

lemma DeleteExtent_spec:
  assumes l: "rl_lists G rl fb A FO hO FE hE" and i: "i \<in> set FE"
  shows "\<exists>rl' fb' A'. DeleteExtent i rl fb = Some (rl', fb') \<and> towers_only {} rl rl' \<and> spares fb' = spares fb \<and>
    rl_lists G rl' fb' A' FO hO (remove1 i FE) hE"
proof -
  note D = rl_listsD [OF l] and R = region_okD [OF rl_listsD(4) [OF l] rl_listsD(6) [OF l i]]
  define e where "e = slot_ext (rp rl) i"
  define t where "t = slot_off (rp rl) i"
  obtain xs ys where FE: "FE = xs @ i # ys" "remove1 i FE = xs @ ys" and xs: "\<And>x. x \<in> set xs \<Longrightarrow> ekey (rp rl) x < (e, t)"
    and ys: "\<And>y. y \<in> set ys \<Longrightarrow> (e, t) < ekey (rp rl) y"
    using by_key_at [OF D(8) i] unfolding e_def t_def by blast
  have ys': "(e, t) \<le> ekey (rp rl) y" if "y \<in> set (i # ys)" for y
    using that ys [of y] by (cases "y = i") (simp_all only: e_def t_def order.refl, auto intro: less_imp_le)
  note l' = l [unfolded FE(1)] and two = two_sl_sym [OF D(1), unfolded FE(1)]
  have top: "(e, t) \<le> (2 ^ 64 - 2, 0)" using ekey_bound [OF D(4) D(6) [OF i]] by (simp only: e_def t_def)
  have lt: "\<And>x. x \<in> set xs \<Longrightarrow> ext_lt (rp rl) e t x = Some True"
    "\<And>y. y \<in> set ((i # ys) @ [RL_FEXT_TL]) \<Longrightarrow> ext_lt (rp rl) e t y = Some False"
    by (rule ext_lt_split [OF l' top xs ys']; assumption)+
  have tow: "ext_tower (rp rl) x = Some (rg_prev (rp rl ! x))" if "x \<in> set (RL_FEXT_HD # i # xs)" for x
    using that by (intro ext_tower_in slot_bound(2) [OF l']) auto
  define found where "found = (\<lambda>q. map_option (\<lambda>sqp. GetExtent sqp = e \<and> rg_offset sqp = t) (rd (rp rl) q))"
  have hit: "found i = Some True" using R(3) by (simp add: found_def e_def t_def)
  have "\<exists>lev' fb' A'. sl_del (ext_tower (rp rl)) (ext_lt (rp rl) e t) found (level_fext rl) RL_FEXT_HD RL_FEXT_TL fb = Some (lev', fb') \<and>
      spares fb' = spares fb \<and> two_sl G A' fb' (\<lambda>i. rg_prev (rp rl ! i)) RL_FEXT_HD RL_FEXT_TL (xs @ ys) hE lev'
        (\<lambda>i. rg_next (rp rl ! i)) RL_FOFF_HD RL_FOFF_TL FO hO (level_foff rl)"
    by (rule two_del [where found = found, OF two _ _ _ hit]) (use tow lt in auto)
  then obtain lev' fb' A' where d: "sl_del (ext_tower (rp rl)) (ext_lt (rp rl) e t) found (level_fext rl) RL_FEXT_HD RL_FEXT_TL fb = Some (lev', fb')"
    "spares fb' = spares fb" "two_sl G A' fb' (\<lambda>i. rg_prev (rp rl ! i)) RL_FEXT_HD RL_FEXT_TL (xs @ ys) hE lev'
        (\<lambda>i. rg_next (rp rl ! i)) RL_FOFF_HD RL_FOFF_TL FO hO (level_foff rl)" by blast
  define rl' where "rl' = rl\<lparr>level_fext := lev'\<rparr>"
  have t': "towers_only {} rl rl'" by (simp add: towers_only_def rl'_def)
  have "DeleteExtent i rl fb = Some (rl', fb')"
    using d(1) R(3) D(3) unfolding DeleteExtent_def rl'_def found_def e_def t_def by simp
  moreover have "rl_lists G rl' fb' A' FO hO (remove1 i FE) hE"
    using two_sl_sym [OF d(3)] D(5,6) FE
    by (intro rl_lists_step [OF l t' _ _ D(7) by_key_remove1 [OF D(8)]]) (auto simp: rl'_def)
  ultimately show ?thesis using t' d(2) by blast
qed


lemma rl_lists_fields [simp]:
  "rl_lists G (rl\<lparr>rl_nfree := x\<rparr>) fb A FO hO FE hE \<longleftrightarrow> rl_lists G rl fb A FO hO FE hE"
  "rl_lists G (rl\<lparr>rl_nelems := x\<rparr>) fb A FO hO FE hE \<longleftrightarrow> rl_lists G rl fb A FO hO FE hE"
  "rl_lists G (rl\<lparr>maxelems := x\<rparr>) fb A FO hO FE hE \<longleftrightarrow> rl_lists G rl fb A FO hO FE hE"
  "rl_lists G (rl\<lparr>maxfree := x\<rparr>) fb A FO hO FE hE \<longleftrightarrow> rl_lists G rl fb A FO hO FE hE"
  "rl_lists G (rl\<lparr>maxfextent := x\<rparr>) fb A FO hO FE hE \<longleftrightarrow> rl_lists G rl fb A FO hO FE hE"
  "rl_lists G (rl\<lparr>rl_empty := x\<rparr>) fb A FO hO FE hE \<longleftrightarrow> rl_lists G rl fb A FO hO FE hE"
  "rl_lists G (rl\<lparr>nempty := x\<rparr>) fb A FO hO FE hE \<longleftrightarrow> rl_lists G rl fb A FO hO FE hE"
  "rl_lists G (rl\<lparr>minempty := x\<rparr>) fb A FO hO FE hE \<longleftrightarrow> rl_lists G rl fb A FO hO FE hE"
  "rl_lists G (rl\<lparr>nbytes := x\<rparr>) fb A FO hO FE hE \<longleftrightarrow> rl_lists G rl fb A FO hO FE hE"
  "rl_lists G (rl\<lparr>maxbytes := x\<rparr>) fb A FO hO FE hE \<longleftrightarrow> rl_lists G rl fb A FO hO FE hE"
  "rl_lists G (rl\<lparr>rh_chains := c\<rparr>) fb A FO hO FE hE \<longleftrightarrow> rl_lists G rl fb A FO hO FE hE"
  by (simp_all add: rl_lists_def)

lemma region_ok_cong:
  assumes "towers_only S rl rl'"
  shows "region_ok (rp rl') (rl_nalloc rl' + RL_FREE_OVERHEAD) i \<longleftrightarrow> region_ok (rp rl) (rl_nalloc rl + RL_FREE_OVERHEAD) i"
  unfolding region_ok_def by (simp add: towers_onlyD(4,5) [OF assms] towers_only_fields [OF assms])

lemma insort_key_cong: "(\<And>x. f x = g x) \<Longrightarrow> insort_key f i L = insort_key g i L"
  by (induction L) simp_all

lemma keys_cong:
  assumes "towers_only S rl rl'"
  shows "insort_key (ekey (rp rl')) i L = insort_key (ekey (rp rl)) i L" "insort_key (slot_off (rp rl')) i L = insort_key (slot_off (rp rl)) i L"
  by (rule insort_key_cong, simp add: towers_onlyD(4) [OF assms] towers_only_ext [OF assms])+

text \<open>The slots \<open>i\<close> freed with a status of 0 are in both lists; otherwise the lists are as before.\<close>

lemma ReleaseRegion_spec:
  assumes l: "rl_lists G rl fb A FO hO FE hE" and ok: "region_ok (rp rl) (rl_nalloc rl + RL_FREE_OVERHEAD) i"
    and i: "slot_off (rp rl) i \<notin> slot_off (rp rl) ` (set FO \<union> set FE)"
  shows "\<exists>st rl' fb' r'. ReleaseRegion i rl fb r = Some (st, rl', fb', r') \<and>
    (st \<noteq> 0 \<and> spares fb \<le> 1 \<and> towers_only {i} rl rl' \<and> (\<exists>A' hO'. rl_lists G rl' fb' A' FO hO' FE hE) \<or>
     st = 0 \<and> spares fb \<le> spares fb' + 2 \<and> (\<exists>rl1. towers_only {i} rl rl1 \<and> rl' = rl1\<lparr>rl_nfree := sz_inc (rl_nfree rl)\<rparr>) \<and>
       (\<exists>A' hO' hE'. rl_lists G rl' fb' A' (insort_key (slot_off (rp rl)) i FO) hO' (insort_key (ekey (rp rl)) i FE) hE'))"
proof -
  obtain st1 rl1 fb1 r1 where a: "AddOffset i rl fb r = Some (st1, rl1, fb1, r1)" "towers_only {i} rl rl1"
    and alt: "st1 \<noteq> 0 \<and> spares fb = 0 \<and> fb1 = fb \<and> rl_lists G rl1 fb A FO hO FE hE \<or>
     st1 = 0 \<and> spares fb \<le> Suc (spares fb1) \<and> (\<exists>A' hO'. rl_lists G rl1 fb1 A' (insort_key (slot_off (rp rl)) i FO) hO' FE hE)"
    using AddOffset_spec [OF l ok, where r = r] i by blast
  show ?thesis
  proof (cases "st1 = 0")
    case False
    then show ?thesis using a alt unfolding ReleaseRegion_def by auto
  next
    case True
    then obtain A1 hO1 where l1: "rl_lists G rl1 fb1 A1 (insort_key (slot_off (rp rl)) i FO) hO1 FE hE" and sp: "spares fb \<le> Suc (spares fb1)"
      using alt by auto
    have ok1: "region_ok (rp rl1) (rl_nalloc rl1 + RL_FREE_OVERHEAD) i" using ok by (simp add: region_ok_cong [OF a(2)])
    have i1: "ekey (rp rl1) i \<notin> ekey (rp rl1) ` set FE"
      using i by (auto simp: towers_onlyD(4) [OF a(2)])
    obtain st2 rl2 fb2 r2 where b: "AddExtent i rl1 fb1 r1 = Some (st2, rl2, fb2, r2)" "towers_only {i} rl1 rl2"
      and alt2: "st2 \<noteq> 0 \<and> spares fb1 = 0 \<and> fb2 = fb1 \<and> rl_lists G rl2 fb1 A1 (insort_key (slot_off (rp rl)) i FO) hO1 FE hE \<or>
        st2 = 0 \<and> spares fb1 \<le> Suc (spares fb2) \<and>
          (\<exists>A' hE'. rl_lists G rl2 fb2 A' (insort_key (slot_off (rp rl)) i FO) hO1 (insort_key (ekey (rp rl1)) i FE) hE')"
      using AddExtent_spec [OF l1 ok1 i1, where r = r1] by blast
    have t2: "towers_only {i} rl rl2" using towers_only_trans [OF a(2) b(2)] by simp
    show ?thesis
    proof (cases "st2 = 0")
      case st2: True
      then obtain A2 hE2 where l2: "rl_lists G rl2 fb2 A2 (insort_key (slot_off (rp rl)) i FO) hO1 (insort_key (ekey (rp rl)) i FE) hE2"
        and sp2: "spares fb1 \<le> Suc (spares fb2)" using alt2 by (auto simp: keys_cong [OF a(2)])
      have "ReleaseRegion i rl fb r = Some (0, rl2\<lparr>rl_nfree := sz_inc (rl_nfree rl)\<rparr>, fb2, r2)"
        unfolding ReleaseRegion_def a b using True st2 by (simp add: a b towers_only_fields [OF t2])
      moreover have "rl_lists G (rl2\<lparr>rl_nfree := sz_inc (rl_nfree rl)\<rparr>) fb2 A2 (insort_key (slot_off (rp rl)) i FO) hO1 (insort_key (ekey (rp rl)) i FE) hE2"
        using l2 by simp
      ultimately show ?thesis using t2 sp sp2 by fastforce
    next
      case st2: False
      then have l2: "rl_lists G rl2 fb2 A1 (insort_key (slot_off (rp rl)) i FO) hO1 FE hE" and sp2: "spares fb1 = 0" using alt2 by auto
      have "i \<in> set (insort_key (slot_off (rp rl)) i FO)" by (simp add: set_insort_key)
      from DeleteOffset_spec [OF l2 this] obtain rl3 fb3 A3 where d: "DeleteOffset i rl2 fb2 = Some (rl3, fb3)" "towers_only {} rl2 rl3"
        "rl_lists G rl3 fb3 A3 FO hO1 FE hE" by auto
      have "ReleaseRegion i rl fb r = Some (st2, rl3, fb3, r2)"
        unfolding ReleaseRegion_def using a b True st2 d by simp
      moreover have "towers_only {i} rl rl3" using towers_only_trans [OF t2 d(2)] by simp
      ultimately show ?thesis using st2 d(3) sp sp2 by auto
    qed
  qed
qed


subsection \<open>Searching\<close>

lemma two_levels:
  assumes "two_sl G A fb b1 hn1 tn1 L1 h1 lev1 b2 hn2 tn2 L2 h2 lev2"
  shows "lev1 < MAXLEVELS" "lev2 < MAXLEVELS"
  using sl_okD(3) [OF two_slD(2) [OF assms]] sl_okD(3) [OF two_slD(3) [OF assms]] fb_inv_maxsize(2) [OF two_slD(1) [OF assms]]
  by (simp_all add: MAXLEVELS_def FB_MAX_LEVELS_def)

lemma SearchOffset_spec:
  assumes l: "rl_lists G rl fb A (xs @ ys) hO FE hE" and t: "t \<le> huge_off_t"
    and xs: "\<And>x. x \<in> set xs \<Longrightarrow> slot_off (rp rl) x < t" and ys: "\<And>y. y \<in> set ys \<Longrightarrow> t \<le> slot_off (rp rl) y"
  shows "SearchOffset t rl fb (Some fresh_update) = Some (last (RL_FOFF_HD # xs), hd (ys @ [RL_FOFF_TL]),
           Some (upd_fill RL_FOFF_HD hO xs (level_foff rl) fresh_update))"
proof -
  note D = rl_listsD [OF l]
  have "sl_search (fblks fb) (off_tower (rp rl)) (off_lt (rp rl) t) (level_foff rl) RL_FOFF_HD (Some fresh_update) =
    Some (last (RL_FOFF_HD # xs), hd (ys @ [RL_FOFF_TL]), map_option (upd_fill RL_FOFF_HD hO xs (level_foff rl)) (Some fresh_update))"
  proof (rule sl_search_spec [OF fb_inv_blocks_ok [OF two_slD(1) [OF D(1)]] two_slD(2) [OF D(1)]])
    show "off_tower (rp rl) x = Some (rg_next (rp rl ! x))" if "x \<in> set (RL_FOFF_HD # xs)" for x
      using that by (intro off_tower_in slot_bound(1) [OF l]) auto
  qed (rule off_lt_split [OF l t xs ys]; assumption | rule upd_ok_fresh [OF two_levels(1) [OF D(1)]])+
  then show ?thesis unfolding SearchOffset_def D(2) by simp
qed

lemma SearchExtent_spec:
  assumes l: "rl_lists G rl fb A FO hO (xs @ ys) hE" and t: "(e, t) \<le> (2 ^ 64 - 2, 0)"
    and xs: "\<And>x. x \<in> set xs \<Longrightarrow> ekey (rp rl) x < (e, t)" and ys: "\<And>y. y \<in> set ys \<Longrightarrow> (e, t) \<le> ekey (rp rl) y"
    and u: "upd_ok u (level_fext rl)"
  shows "SearchExtent e t rl fb u = Some (last (RL_FEXT_HD # xs), hd (ys @ [RL_FEXT_TL]), map_option (upd_fill RL_FEXT_HD hE xs (level_fext rl)) u)"
proof -
  note D = rl_listsD [OF l]
  have "sl_search (fblks fb) (ext_tower (rp rl)) (ext_lt (rp rl) e t) (level_fext rl) RL_FEXT_HD u =
    Some (last (RL_FEXT_HD # xs), hd (ys @ [RL_FEXT_TL]), map_option (upd_fill RL_FEXT_HD hE xs (level_fext rl)) u)"
  proof (rule sl_search_spec [OF fb_inv_blocks_ok [OF two_slD(1) [OF D(1)]] two_slD(3) [OF D(1)]])
    show "ext_tower (rp rl) x = Some (rg_prev (rp rl ! x))" if "x \<in> set (RL_FEXT_HD # xs)" for x
      using that by (intro ext_tower_in slot_bound(2) [OF l]) auto
  qed (rule ext_lt_split [OF l t xs ys] u; assumption?)+
  then show ?thesis unfolding SearchExtent_def D(3) .
qed

lemma upd_fill_first: "rd (upd_fill hn h xs lev fresh_update) 0 = Some (last (hn # xs))"
  by (simp add: fresh_update_def MAXLEVELS_def sl_pred_def)

lemma GetPrevOffset_spec:
  assumes l: "rl_lists G rl fb A (xs @ i # ys) hO FE hE"
  shows "GetPrevOffset i rl fb = Some (last (RL_FOFF_HD # xs))"
proof -
  note D = rl_listsD [OF l] and R = region_okD [OF rl_listsD(4) [OF l] rl_listsD(5) [OF l, of i]]
  have "slot_off (rp rl) x < slot_off (rp rl) i" if "x \<in> set xs" for x using D(7) that by simp
  moreover have "slot_off (rp rl) i \<le> slot_off (rp rl) y" if "y \<in> set (i # ys)" for y using D(7) that by (auto intro: less_imp_le)
  ultimately have "SearchOffset (slot_off (rp rl) i) rl fb (Some fresh_update) = Some (last (RL_FOFF_HD # xs), hd ((i # ys) @ [RL_FOFF_TL]),
           Some (upd_fill RL_FOFF_HD hO xs (level_foff rl) fresh_update))"
    using R(6) by (intro SearchOffset_spec [OF l]) auto
  then show ?thesis unfolding GetPrevOffset_def using R(3) upd_fill_first by simp
qed

lemma GetNextOffset_spec:
  assumes l: "rl_lists G rl fb A (xs @ i # ys) hO FE hE"
  shows "GetNextOffset i rl fb = Some (hd (ys @ [RL_FOFF_TL]))"
proof -
  note D = rl_listsD [OF l] and R = region_okD [OF rl_listsD(4) [OF l] rl_listsD(5) [OF l, of i]]
  note ok = two_slD(2) [OF D(1)] and blk = fb_inv_blocks_ok [OF two_slD(1) [OF D(1)]]
  have ms: "0 < maxsize fb" using sl_okD(3) [OF ok] by simp
  obtain n where n: "A (rg_next (rp rl ! i)) = Some n" "0 < n" using sl_okD(5) [OF ok, of i] by (metis gr_implies_not0 in_set_conv_decomp neq0_conv)
  obtain y zs where y: "ys @ [RL_FOFF_TL] = y # zs" by (cases ys) auto
  have "links (\<lambda>x. fblks fb ! rg_next (rp rl ! x)) ((RL_FOFF_HD # xs) @ i # y # zs)"
    using sl_okD(8) [OF ok ms] y by simp
  then have "fblks fb ! rg_next (rp rl ! i) = y" by (rule links_step)
  moreover have "rg_next (rp rl ! i) < length (fblks fb)" using cell_bound(1) [OF blk n] by simp
  ultimately show ?thesis unfolding GetNextOffset_def using R(3,9) y by simp
qed

lemma FindExtent_spec:
  assumes l: "rl_lists G rl fb A FO hO FE hE" and e: "e \<le> 2 ^ 64 - 2"
  shows "FindExtent e rl fb = Some (hd (filter (\<lambda>i. e \<le> slot_ext (rp rl) i) FE @ [RL_FEXT_TL]))"
proof -
  note D = rl_listsD [OF l]
  obtain xs ys where FE: "FE = xs @ ys" and xs: "\<And>x. x \<in> set xs \<Longrightarrow> ekey (rp rl) x < (e, -1)"
    and ys: "\<And>y. y \<in> set ys \<Longrightarrow> (e, -1) \<le> ekey (rp rl) y" by (rule by_key_split [OF D(8), of "(e, -1)"]) (rule that)
  have "(e, -1) \<le> (2 ^ 64 - 2, 0 :: int)" using e by simp
  then have s: "SearchExtent e (-1) rl fb None = Some (last (RL_FEXT_HD # xs), hd (ys @ [RL_FEXT_TL]), map_option (upd_fill RL_FEXT_HD hE xs (level_fext rl)) None)"
    by (rule SearchExtent_spec [OF l [unfolded FE] _ xs ys]) simp_all
  have nn: "0 \<le> slot_off (rp rl) x" if "x \<in> set FE" for x using region_okD(5) [OF D(4) D(6) [OF that]] .
  have "\<not> e \<le> slot_ext (rp rl) x" if x: "x \<in> set xs" for x using xs [OF x] nn [of x] x FE by auto
  then have "filter (\<lambda>i. e \<le> slot_ext (rp rl) i) xs = []" by (simp add: filter_empty_conv)
  moreover have "e \<le> slot_ext (rp rl) y" if "y \<in> set ys" for y using ys [OF that] by auto
  then have "filter (\<lambda>i. e \<le> slot_ext (rp rl) i) ys = ys" by simp
  ultimately show ?thesis using s unfolding FindExtent_def FE by simp
qed

lemma RecalculateMaxFreeExtent_spec:
  assumes l: "rl_lists G rl fb A FO hO FE hE"
  shows "RecalculateMaxFreeExtent rl fb = Some (if FE = [] then 0 else slot_ext (rp rl) (last FE))"
proof -
  note D = rl_listsD [OF l]
  have tl: "ekey (rp rl) RL_FEXT_TL = (2 ^ 64 - 2, 0)" "slot_ext (rp rl) RL_FEXT_HD = 0"
    using D(4) unfolding slots_ok_def by (simp_all add: GetExtent_def)
  have "ekey (rp rl) x < (2 ^ 64 - 2, 0)" if "x \<in> set FE" for x using region_okD(4,8) [OF D(4) D(6) [OF that]] by simp
  moreover have "upd_ok (Some fresh_update) (level_fext rl)" using upd_ok_fresh two_levels(2) [OF D(1)] by blast
  ultimately have "SearchExtent (2 ^ 64 - 2) 0 rl fb (Some fresh_update) = Some (last (RL_FEXT_HD # FE), hd ([] @ [RL_FEXT_TL]),
      map_option (upd_fill RL_FEXT_HD hE FE (level_fext rl)) (Some fresh_update))"
    using l by (intro SearchExtent_spec) simp_all
  moreover have "RL_FEXT_TL < length (rp rl)" by (rule slot_bound(2) [OF l]) simp
  ultimately have "FindPrevExtent RL_FEXT_TL rl fb = Some (last (RL_FEXT_HD # FE))"
    unfolding FindPrevExtent_def using tl(1) upd_fill_first by simp
  moreover have "last (RL_FEXT_HD # FE) < length (rp rl)" by (rule slot_bound(2) [OF l]) auto
  ultimately show ?thesis unfolding RecalculateMaxFreeExtent_def using tl(2) by simp
qed


subsection \<open>Well-formed tables\<close>

definition max_ext :: "Region list \<Rightarrow> nat set \<Rightarrow> nat" where
  "max_ext rps S = Max (insert 0 (slot_ext rps ` S))"

text \<open>
  \<open>FO\<close> and \<open>FE\<close> are the free slots in the order of the two lists, \<open>E\<close> the unused slots. The remaining slots
  hold allocated regions or regions in the hands of a caller.
\<close>

definition rl_core :: "guests \<Rightarrow> RegionList \<Rightarrow> FreeBlock \<Rightarrow> (nat \<rightharpoonup> nat) \<Rightarrow> nat list \<Rightarrow> (nat \<Rightarrow> nat) \<Rightarrow> nat list \<Rightarrow> (nat \<Rightarrow> nat) \<Rightarrow> nat list \<Rightarrow> bool" where
  "rl_core G rl fb A FO hO FE hE E \<longleftrightarrow> rl_lists G rl fb A FO hO FE hE \<and> set FE = set FO \<and>
     chain (\<lambda>i. rg_next (rp rl ! i)) (rl_empty rl) E \<and> (\<forall>i \<in> set E. 4 \<le> i \<and> i < rl_nalloc rl + RL_FREE_OVERHEAD) \<and>
     set E \<inter> set FO = {} \<and> nempty rl = length E \<and> rl_nfree rl = length FO \<and>
     rl_nelems rl + rl_nfree rl + nempty rl = rl_nalloc rl"

definition rl_inv :: "guests \<Rightarrow> RegionList \<Rightarrow> FreeBlock \<Rightarrow> nat list \<Rightarrow> nat list \<Rightarrow> bool" where
  "rl_inv G rl fb FO E \<longleftrightarrow> (\<exists>A hO FE hE. rl_core G rl fb A FO hO FE hE E) \<and> maxfextent rl = max_ext (rp rl) (set FO)"

lemma max_ext_eq:
  assumes "by_key (ekey rps) FE"
  shows "max_ext rps (set FE) = (if FE = [] then 0 else slot_ext rps (last FE))"
proof (cases "FE = []")
  case False
  then obtain L z where FE: "FE = L @ [z]" by (metis append_butlast_last_id)
  have "slot_ext rps x \<le> slot_ext rps z" if "x \<in> set L" for x using assms that by (auto simp: FE)
  then have "Max (insert 0 (slot_ext rps ` set FE)) = slot_ext rps z" by (intro Max_eqI) (auto simp: FE)
  then show ?thesis by (simp add: max_ext_def FE)
qed (simp add: max_ext_def)

lemma max_ext_ge: "finite S \<Longrightarrow> i \<in> S \<Longrightarrow> slot_ext rps i \<le> max_ext rps S"
  unfolding max_ext_def by (intro Max_ge) auto

lemma rl_coreD:
  assumes "rl_core G rl fb A FO hO FE hE E"
  shows "rl_lists G rl fb A FO hO FE hE" "set FE = set FO" "chain (\<lambda>i. rg_next (rp rl ! i)) (rl_empty rl) E"
    "i \<in> set E \<Longrightarrow> 4 \<le> i \<and> i < rl_nalloc rl + RL_FREE_OVERHEAD" "set E \<inter> set FO = {}" "nempty rl = length E"
    "rl_nfree rl = length FO" "rl_nelems rl + rl_nfree rl + nempty rl = rl_nalloc rl"
  using assms unfolding rl_core_def by blast+

lemma rl_core_sizes:
  assumes "rl_core G rl fb A FO hO FE hE E"
  shows "rl_nalloc rl + 4 < SIZE_NONE" "rl_nelems rl \<le> rl_nalloc rl" "length FO \<le> rl_nalloc rl" "length E \<le> rl_nalloc rl"
    "distinct FO" "distinct FE" "distinct E"
  using rl_coreD [OF assms] rl_listsD(4,7,8) [OF rl_coreD(1) [OF assms]] chain_distinct by_key_distinct
  by (auto simp: slots_ok_def rl_consts)

lemma towers_only_none:
  assumes "towers_only {} rl rl'"
  shows "rp rl' = rp rl"
  using towers_onlyD(2,3) [OF assms] by (intro nth_equalityI) auto

lemma rl_Get_spec:
  assumes c: "rl_core G rl fb A FO hO FE hE E" and m: "maxfextent rl = max_ext (rp rl) (set FO)"
  shows "(\<forall>j \<in> set FO. slot_ext (rp rl) j < e) \<and> rl_Get e rl fb = Some (RL_NONE, rl, fb) \<or>
    (\<exists>i rl' fb' A'. rl_Get e rl fb = Some (i, rl', fb') \<and> i \<in> set FO \<and> e \<le> slot_ext (rp rl) i \<and>
       (\<forall>j \<in> set FO. e \<le> slot_ext (rp rl) j \<longrightarrow> ekey (rp rl) i \<le> ekey (rp rl) j) \<and>
       rl_core G rl' fb' A' (remove1 i FO) hO (remove1 i FE) hE E \<and> maxfextent rl' = max_ext (rp rl') (set (remove1 i FO)) \<and>
       rp rl' = rp rl \<and> rh_chains rl' = rh_chains rl \<and> rl_nchains rl' = rl_nchains rl \<and> rh_magic rl' = rh_magic rl \<and>
       rl_nalloc rl' = rl_nalloc rl \<and> spares fb' = spares fb \<and> nbytes rl' = nbytes rl \<and> maxbytes rl' = maxbytes rl)"
proof (cases "\<exists>j \<in> set FO. e \<le> slot_ext (rp rl) j")
  case False
  note C = rl_coreD [OF c] and D = rl_listsD [OF rl_coreD(1) [OF c]]
  then have all: "\<forall>j \<in> set FO. slot_ext (rp rl) j < e" using False by (simp add: not_le)
  have "rl_Get e rl fb = Some (RL_NONE, rl, fb)"
  proof (cases "e > maxfextent rl")
    case True
    then show ?thesis by (simp add: rl_Get_def)
  next
    case False
    have "slot_ext (rp rl) j \<le> 2 ^ 64 - 2" if "j \<in> set FO" for j using region_okD(4,8) [OF D(4) D(5) [OF that]] by simp
    then have "max_ext (rp rl) (set FO) \<le> 2 ^ 64 - 2" unfolding max_ext_def by (intro Max.boundedI) auto
    then have "FindExtent e rl fb = Some (hd (filter (\<lambda>i. e \<le> slot_ext (rp rl) i) FE @ [RL_FEXT_TL]))"
      using False m by (intro FindExtent_spec [OF C(1)]) simp
    moreover have "filter (\<lambda>i. e \<le> slot_ext (rp rl) i) FE = []" using all C(2) by (auto simp: filter_empty_conv not_le)
    ultimately show ?thesis using False by (simp add: rl_Get_def)
  qed
  then show ?thesis using all by blast
next
  case True
  note C = rl_coreD [OF c] and D = rl_listsD [OF rl_coreD(1) [OF c]] and S = rl_core_sizes [OF c]
  let ?Gs = "filter (\<lambda>i. e \<le> slot_ext (rp rl) i) FE"
  obtain i Gs where Gs: "?Gs = i # Gs" using True C(2) by (cases ?Gs) (auto simp: filter_empty_conv)
  have iG: "i \<in> set ?Gs" by (simp add: Gs)
  then have i: "i \<in> set FE" "e \<le> slot_ext (rp rl) i" by auto
  then have iO: "i \<in> set FO" using C(2) by simp
  have "by_key (ekey (rp rl)) ?Gs" using D(8) unfolding by_key_def by (rule sorted_wrt_filter)
  then have least: "ekey (rp rl) i \<le> ekey (rp rl) j" if "j \<in> set FO" "e \<le> slot_ext (rp rl) j" for j
  proof -
    assume byk: "by_key (ekey (rp rl)) ?Gs"
    have "j \<in> set ?Gs" using that C(2) by simp
    then have "j = i \<or> ekey (rp rl) i < ekey (rp rl) j" using byk unfolding Gs by (simp only: by_key_simps set_simps insert_iff) blast
    then show ?thesis by (elim disjE) (simp_all only: order.refl less_imp_le)
  qed
  note R = region_okD [OF D(4) D(5) [OF iO]]
  have em: "e \<le> maxfextent rl" using max_ext_ge [of "set FO" i "rp rl"] iO i(2) m by simp
  have find: "FindExtent e rl fb = Some i"
    using FindExtent_spec [OF C(1), of e] i(2) R(4,8) by (simp add: Gs)
  have ni: "i \<noteq> RL_FEXT_TL" "i \<noteq> RL_NONE" using R(1,2) D(4) by (auto simp: rl_consts RL_NONE_def slots_ok_def)
  obtain rl1 fb1 A1 where d1: "DeleteOffset i rl fb = Some (rl1, fb1)" "towers_only {} rl rl1" "spares fb1 = spares fb"
    "rl_lists G rl1 fb1 A1 (remove1 i FO) hO FE hE" using DeleteOffset_spec [OF C(1) iO] by blast
  obtain rl2 fb2 A2 where d2: "DeleteExtent i rl1 fb1 = Some (rl2, fb2)" "towers_only {} rl1 rl2" "spares fb2 = spares fb1"
    "rl_lists G rl2 fb2 A2 (remove1 i FO) hO (remove1 i FE) hE" using DeleteExtent_spec [OF d1(4) i(1)] by blast
  have t: "towers_only {} rl rl2" using towers_only_trans [OF d1(2) d2(2)] by simp
  note F = towers_only_fields [OF t] and rp = towers_only_none [OF t]
  define mx where "mx = max_ext (rp rl) (set (remove1 i FO))"
  have sets: "set (remove1 i FO) = set FO - {i}" "set (remove1 i FE) = set FO - {i}" using S(5,6) C(2) by (simp_all add: set_remove1_eq)
  have mx: "(if slot_ext (rp rl) i = maxfextent rl then RecalculateMaxFreeExtent (rl2\<lparr>rl_nfree := sz_dec (rl_nfree rl2)\<rparr>) fb2 else Some (maxfextent rl)) = Some mx"
  proof (cases "slot_ext (rp rl) i = maxfextent rl")
    case True
    have "by_key (ekey (rp rl)) (remove1 i FE)" by (rule by_key_remove1 [OF D(8)])
    from max_ext_eq [OF this] show ?thesis
      using True RecalculateMaxFreeExtent_spec [of G "rl2\<lparr>rl_nfree := sz_dec (rl_nfree rl2)\<rparr>" fb2] d2(4) by (simp add: rp mx_def sets)
  next
    case False
    have "maxfextent rl \<in> insert 0 (slot_ext (rp rl) ` set FO)" unfolding m max_ext_def by (rule Max_in) auto
    then have "maxfextent rl \<in> insert 0 (slot_ext (rp rl) ` (set FO - {i}))" using False by auto
    then have "Max (insert 0 (slot_ext (rp rl) ` (set FO - {i}))) = maxfextent rl"
      using max_ext_ge [of "set FO" _ "rp rl"] m by (intro Max_eqI) auto
    then show ?thesis using False by (simp add: mx_def max_ext_def sets)
  qed
  define rl' where "rl' = rl2\<lparr>rl_nfree := length FO - 1, maxfextent := mx, rl_nelems := rl_nelems rl + 1, maxelems := max (rl_nelems rl + 1) (maxelems rl2)\<rparr>"
  have pos: "0 < length FO" using iO by (cases FO) auto
  have sz: "sz_dec (length FO) = length FO - 1" "sz_inc (rl_nelems rl) = rl_nelems rl + 1"
    using S(1-3) pos by (intro sz_sub_small sz_add_small; simp add: SIZE_NONE_def Suc_le_eq)+
  have get: "rl_Get e rl fb = Some (i, rl', fb2)"
    using mx em find ni R(3) d1(1) d2(1) sz C(7) unfolding rl_Get_def rl'_def
    by (cases "slot_ext (rp rl) i = maxfextent rl") (simp_all add: F Let_def)
  have cnt: "Suc (rl_nelems rl + (length FO - Suc 0) + length E) = rl_nalloc rl" using pos C(6-8) by linarith
  have "rl_core G rl' fb2 A2 (remove1 i FO) hO (remove1 i FE) hE E"
    unfolding rl_core_def using d2(4) C sets cnt iO length_remove1 [of i FO]
    by (simp add: rl'_def F rp) auto
  then show ?thesis using get iO i(2) least by (intro disjI2 exI [of _ i] exI [of _ rl'] exI [of _ fb2] exI [of _ A2]) (simp add: rl'_def F rp mx_def d1 d2)
qed


subsection \<open>Adding and splitting\<close>

lemma chain_next_cong:
  assumes "chain (\<lambda>i. rg_next (rps ! i)) p E" "\<And>i. i \<in> set E \<Longrightarrow> rps' ! i = rps ! i"
  shows "chain (\<lambda>i. rg_next (rps' ! i)) p E"
  by (rule chain_cong [OF assms(1)]) (simp add: assms(2))

lemma two_sl_cong:
  assumes "two_sl G A fb b1 hn1 tn1 L1 h1 lev1 b2 hn2 tn2 L2 h2 lev2"
    and "\<And>x. x \<in> set (hn1 # tn1 # L1) \<Longrightarrow> b1' x = b1 x" "\<And>x. x \<in> set (hn2 # tn2 # L2) \<Longrightarrow> b2' x = b2 x"
  shows "two_sl G A fb b1' hn1 tn1 L1 h1 lev1 b2' hn2 tn2 L2 h2 lev2"
proof -
  have "b1' ` set (hn1 # tn1 # L1) = b1 ` set (hn1 # tn1 # L1)" "b2' ` set (hn2 # tn2 # L2) = b2 ` set (hn2 # tn2 # L2)"
    by (rule image_cong [OF refl], erule assms(2,3))+
  then show ?thesis
    using two_slD [OF assms(1)] sl_ok_base_cong [OF two_slD(2) [OF assms(1)] assms(2)] sl_ok_base_cong [OF two_slD(3) [OF assms(1)] assms(3)]
    unfolding two_sl_def by simp
qed

text \<open>Slots outside the lists can be rewritten.\<close>

lemma rl_lists_cong:
  assumes l: "rl_lists G rl fb A FO hO FE hE"
    and same: "\<And>x. x < 4 \<or> x \<in> set FO \<union> set FE \<Longrightarrow> rps ! x = rp rl ! x" and len: "length rps = length (rp rl)"
  shows "rl_lists G (rl\<lparr>rp := rps\<rparr>) fb A FO hO FE hE"
proof -
  note D = rl_listsD [OF l]
  have heads: "RL_FOFF_HD < 4" "RL_FOFF_TL < 4" "RL_FEXT_HD < 4" "RL_FEXT_TL < 4" by (simp_all add: rl_consts)
  have same': "rps ! x = rp rl ! x" if "x \<in> set (RL_FOFF_HD # RL_FOFF_TL # FO) \<or> x \<in> set (RL_FEXT_HD # RL_FEXT_TL # FE)" for x
    using that heads by (intro same) auto
  have "two_sl G A fb (\<lambda>i. rg_next (rps ! i)) RL_FOFF_HD RL_FOFF_TL FO hO (level_foff rl)
      (\<lambda>i. rg_prev (rps ! i)) RL_FEXT_HD RL_FEXT_TL FE hE (level_fext rl)"
    by (rule two_sl_cong [OF D(1)]) (simp_all only: same' simp_thms)
  moreover have "slots_ok rps (rl_nalloc rl + RL_FREE_OVERHEAD)"
    using D(4) same' [of RL_FOFF_TL] same' [of RL_FEXT_HD] same' [of RL_FEXT_TL] len unfolding slots_ok_def by simp
  moreover have "region_ok rps (rl_nalloc rl + RL_FREE_OVERHEAD) j" if "j \<in> set FO \<union> set FE" for j
    using D(5,6) [of j] that same [of j] unfolding region_ok_def by auto
  moreover have "by_key (slot_off rps) FO" "by_key (ekey rps) FE"
    by (rule by_key_cong [OF D(7)], simp add: same) (rule by_key_cong [OF D(8)], simp add: same)
  ultimately show ?thesis using D(2,3) unfolding rl_lists_def by simp
qed

lemma rl_lists_slot:
  assumes l: "rl_lists G rl fb A FO hO FE hE" and i: "4 \<le> i" "i \<notin> set FO" "i \<notin> set FE"
  shows "rl_lists G (rl\<lparr>rp := (rp rl)[i := v]\<rparr>) fb A FO hO FE hE"
  by (rule rl_lists_cong [OF l], rule nth_list_update_neq) (use i in auto)

text \<open>Giving a slot back to the unused ones.\<close>

lemma ReleaseEmptyRegion_spec:
  assumes l: "rl_lists G rl fb A FO hO FE hE" and i: "4 \<le> i" "i < rl_nalloc rl + RL_FREE_OVERHEAD" "i \<notin> set FO" "i \<notin> set FE" "i \<notin> set E"
    and e: "chain (\<lambda>i. rg_next (rp rl ! i)) (rl_empty rl) E" "nempty rl = length E" "length E < rl_nalloc rl"
  defines "rl' \<equiv> rl\<lparr>rp := (rp rl)[i := (rp rl ! i)\<lparr>rg_next := rl_empty rl, rg_offset := -1, rg_extent := 0\<rparr>], rl_empty := i, nempty := length E + 1\<rparr>"
  shows "ReleaseEmptyRegion i rl = Some rl' \<and> rl_lists G rl' fb A FO hO FE hE \<and> chain (\<lambda>i. rg_next (rp rl' ! i)) (rl_empty rl') (i # E)"
proof -
  have n: "rl_nalloc rl + RL_FREE_OVERHEAD \<le> length (rp rl)" "rl_nalloc rl + RL_FREE_OVERHEAD < SIZE_NONE"
    using rl_listsD(4) [OF l] unfolding slots_ok_def by simp_all
  have "ReleaseEmptyRegion i rl = Some rl'"
    using i n e(2,3) by (simp add: ReleaseEmptyRegion_def rl'_def SIZE_NONE_def)
  moreover have "rl_lists G rl' fb A FO hO FE hE" unfolding rl'_def using rl_lists_slot [OF l i(1,3,4)] by simp
  moreover have "chain (\<lambda>i. rg_next (rp rl' ! i)) (rl_empty rl) E"
    by (rule chain_next_cong [OF e(1)]) (simp add: rl'_def, rule nth_list_update_neq, use i(5) in blast)
  ultimately show ?thesis using i(1,2) n by (simp add: rl'_def)
qed

definition same_hash :: "RegionList \<Rightarrow> RegionList \<Rightarrow> bool" where
  "same_hash rl rl' \<longleftrightarrow> rh_chains rl' = rh_chains rl \<and> rl_nchains rl' = rl_nchains rl \<and> rh_magic rl' = rh_magic rl \<and> rl_nalloc rl' = rl_nalloc rl"

text \<open>Steps that rewrite at most the slots \<open>S\<close> and leave the hash and the totals alone.\<close>

definition keeps :: "nat set \<Rightarrow> RegionList \<Rightarrow> RegionList \<Rightarrow> bool" where
  "keeps S rl rl' \<longleftrightarrow> length (rp rl') = length (rp rl) \<and> (\<forall>j. j \<notin> S \<longrightarrow> rp rl' ! j = rp rl ! j) \<and> same_hash rl rl' \<and>
     rl_nelems rl' = rl_nelems rl \<and> maxfextent rl' = maxfextent rl \<and> nbytes rl' = nbytes rl \<and> maxbytes rl' = maxbytes rl"

lemma keepsD:
  assumes "keeps S rl rl'"
  shows "length (rp rl') = length (rp rl)" "j \<notin> S \<Longrightarrow> rp rl' ! j = rp rl ! j" "same_hash rl rl'"
    "rl_nelems rl' = rl_nelems rl" "maxfextent rl' = maxfextent rl" "nbytes rl' = nbytes rl" "maxbytes rl' = maxbytes rl"
    "rl_nalloc rl' = rl_nalloc rl"
  using assms unfolding keeps_def same_hash_def by blast+

lemma keeps_trans: "keeps S rl rl1 \<Longrightarrow> keeps T rl1 rl2 \<Longrightarrow> keeps (S \<union> T) rl rl2"
  unfolding keeps_def same_hash_def by simp

lemma keeps_mono: "keeps S rl rl' \<Longrightarrow> S \<subseteq> T \<Longrightarrow> keeps T rl rl'"
  unfolding keeps_def by blast

lemma towers_only_keeps:
  assumes "towers_only S rl rl'"
  shows "keeps S rl rl'"
  using towers_onlyD(2,3) [OF assms] unfolding keeps_def same_hash_def by (simp add: towers_only_fields [OF assms])

text \<open>An unused slot takes a new region into the lists; when the arena has no tower left, the slot is given back.\<close>

lemma rl_Add_spec:
  assumes c: "rl_core G rl fb A FO hO FE hE E"
    and reg: "even x" "0 \<le> off" "off + int x \<le> huge_off_t" "off \<notin> slot_off (rp rl) ` set FO"
  shows "(E = [] \<and> rl_Add off x rl fb r = Some (None, rl, fb, r)) \<or>
    (\<exists>i E' rl' fb' r'. E = i # E' \<and> keeps {i} rl rl' \<and>
       (rl_Add off x rl fb r = Some (None, rl', fb', r') \<and> spares fb \<le> 1 \<and> (\<exists>A' hO'. rl_core G rl' fb' A' FO hO' FE hE E) \<or>
        rl_Add off x rl fb r = Some (Some i, rl', fb', r') \<and> spares fb \<le> spares fb' + 2 \<and>
          slot_off (rp rl') i = off \<and> rg_extent (rp rl' ! i) = x \<and>
          (\<exists>A' hO' FE' hE'. rl_core G rl' fb' A' (insort_key (slot_off (rp rl')) i FO) hO' FE' hE' E')))"
proof (cases E)
  case Nil
  then show ?thesis using rl_coreD(3,6) [OF c] by (simp add: rl_Add_def GetEmptyRegion_def RL_NONE_def)
next
  case (Cons i E')
  note C = rl_coreD [OF c] and D = rl_listsD [OF rl_coreD(1) [OF c]] and S = rl_core_sizes [OF c]
  have i: "rl_empty rl = i" "i \<noteq> RL_NONE" "4 \<le> i" "i < rl_nalloc rl + RL_FREE_OVERHEAD" "i \<notin> set FO" "i \<notin> set FE"
    using C(2,3,5) C(4) [of i] Cons by (auto simp: RL_NONE_def)
  have il: "i < length (rp rl)" using i(4) D(4) by (simp add: slots_ok_def)
  have ne: "rl_nelems rl < rl_nalloc rl" using C(6,8) Cons by simp
  define w where "w = (rp rl ! i)\<lparr>rg_offset := off, rg_extent := x\<rparr>"
  define rl1 where "rl1 = rl\<lparr>rl_empty := rg_next (rp rl ! i), nempty := length E', minempty := (if length E' < minempty rl then length E' else minempty rl)\<rparr>"
  define rl2 where "rl2 = rl1\<lparr>rp := (rp rl)[i := w]\<rparr>"
  have dec: "sz_dec (nempty rl) = length E'"
    using C(6) S(1,4) Cons sz_sub_small [of 1 "Suc (length E')"] by (simp add: SIZE_NONE_def)
  have ge: "GetEmptyRegion rl = Some (i, rl1)" using i(1,2) il dec by (simp add: GetEmptyRegion_def rl1_def Let_def)
  have "rl_lists G rl1 fb A FO hO FE hE" using C(1) by (simp add: rl1_def)
  from rl_lists_slot [OF this i(3,5,6), of w] have l2: "rl_lists G rl2 fb A FO hO FE hE" by (simp add: rl2_def rl1_def)
  have other: "(rp rl)[i := w] ! j = rp rl ! j" if "j \<noteq> i" for j using that by simp
  have at: "rp rl2 ! i = w" using il by (simp add: rl2_def)
  have ok: "region_ok (rp rl2) (rl_nalloc rl2 + RL_FREE_OVERHEAD) i"
    using reg i(3,4) unfolding region_ok_def at by (simp add: w_def rl2_def rl1_def)
  have key: "slot_off (rp rl2) i \<notin> slot_off (rp rl2) ` (set FO \<union> set FE)"
  proof
    assume "slot_off (rp rl2) i \<in> slot_off (rp rl2) ` (set FO \<union> set FE)"
    then obtain j where j: "j \<in> set FO" "slot_off (rp rl2) j = off" using C(2) by (auto simp: at w_def)
    then have "slot_off (rp rl) j = off" using i(5) other [of j] by (cases "j = i") (auto simp: rl2_def)
    then show False using reg(4) j(1) by blast
  qed
  have emp: "chain (\<lambda>j. rg_next (rp rl ! j)) (rg_next (rp rl ! i)) E'" using C(3) Cons by simp
  have iE: "i \<notin> set E'" using S(7) Cons by simp
  obtain st rl3 fb3 r3 where rel: "ReleaseRegion i rl2 fb r = Some (st, rl3, fb3, r3)"
    and alt: "st \<noteq> 0 \<and> spares fb \<le> 1 \<and> towers_only {i} rl2 rl3 \<and> (\<exists>A' hO'. rl_lists G rl3 fb3 A' FO hO' FE hE) \<or>
     st = 0 \<and> spares fb \<le> spares fb3 + 2 \<and> (\<exists>rl1. towers_only {i} rl2 rl1 \<and> rl3 = rl1\<lparr>rl_nfree := sz_inc (rl_nfree rl2)\<rparr>) \<and>
       (\<exists>A' hO' hE'. rl_lists G rl3 fb3 A' (insort_key (slot_off (rp rl2)) i FO) hO' (insort_key (ekey (rp rl2)) i FE) hE')"
    using ReleaseRegion_spec [OF l2 ok key, where r = r] by blast
  have add: "rl_Add off x rl fb r =
      (if st \<noteq> 0 then do { rl4 \<leftarrow> ReleaseEmptyRegion i rl3; Some (None, rl4, fb3, r3) }
       else do { log_assert (rl_nelems rl3 + rl_nfree rl3 + nempty rl3 = rl_nalloc rl3);
                 Some (Some i, rl3\<lparr>maxfree := max (rl_nfree rl3) (maxfree rl3)\<rparr>, fb3, r3) })"
    unfolding rl_Add_def ge using i(2) ne il rel by (simp add: rl1_def rl2_def w_def)
  show ?thesis
  proof (cases "st = 0")
    case False
    then obtain A3 hO3 where f: "spares fb \<le> 1" "towers_only {i} rl2 rl3" "rl_lists G rl3 fb3 A3 FO hO3 FE hE" using alt by blast
    note F = towers_only_fields [OF f(2)] and T = towers_onlyD [OF f(2)]
    have j3: "rp rl3 ! j = rp rl ! j" if "j \<noteq> i" for j using T(3) [of j] that by (simp add: rl2_def)
    have "chain (\<lambda>j. rg_next (rp rl3 ! j)) (rl_empty rl3) E'"
      unfolding F by (simp add: rl2_def rl1_def) (rule chain_next_cong [OF emp], rule j3, use iE in blast)
    from ReleaseEmptyRegion_spec [OF f(3) i(3) _ i(5,6) iE this] obtain rl4 where rl4:
      "rl4 = rl3\<lparr>rp := (rp rl3)[i := (rp rl3 ! i)\<lparr>rg_next := rl_empty rl3, rg_offset := -1, rg_extent := 0\<rparr>], rl_empty := i, nempty := length E' + 1\<rparr>"
      "ReleaseEmptyRegion i rl3 = Some rl4" "rl_lists G rl4 fb3 A3 FO hO3 FE hE" "chain (\<lambda>i. rg_next (rp rl4 ! i)) (rl_empty rl4) (i # E')"
      using i(4) C(6,8) Cons by (auto simp: F rl2_def rl1_def)
    have "rl_core G rl4 fb3 A3 FO hO3 FE hE E"
      unfolding rl_core_def using rl4(3,4) C by (simp add: rl4(1) F rl2_def rl1_def Cons)
    then show ?thesis
      using add False rl4(2) f(1) j3 T(2)
      by (intro disjI2 exI [of _ i] exI [of _ E'] exI [of _ rl4] exI [of _ fb3] exI [of _ r3] conjI disjI1 exI [of _ A3] exI [of _ hO3])
         (simp_all add: rl4(1) F rl2_def rl1_def Cons keeps_def same_hash_def)
  next
    case True
    then obtain rl1' A3 hO3 hE3 where f: "spares fb \<le> spares fb3 + 2" "towers_only {i} rl2 rl1'" "rl3 = rl1'\<lparr>rl_nfree := sz_inc (rl_nfree rl2)\<rparr>"
      "rl_lists G rl3 fb3 A3 (insort_key (slot_off (rp rl2)) i FO) hO3 (insort_key (ekey (rp rl2)) i FE) hE3" using alt by blast
    note F = towers_only_fields [OF f(2)] and T = towers_onlyD [OF f(2)]
    have j3: "rp rl3 ! j = rp rl ! j" if "j \<noteq> i" for j using T(3) [of j] that by (simp add: f(3) rl2_def)
    have ek: "insort_key (slot_off (rp rl2)) i FO = insort_key (slot_off (rp rl3)) i FO"
      by (rule insort_key_cong) (simp add: f(3) T(4))
    have inc: "sz_add (rl_nfree rl) (Suc 0) = Suc (length FO)" using C(7) S(1,3) sz_add_small [of "length FO" 1] by (simp add: SIZE_NONE_def)
    have sum: "rl_nelems rl3 + rl_nfree rl3 + nempty rl3 = rl_nalloc rl3"
      using C(6-8) Cons inc by (simp add: f(3) F rl2_def rl1_def)
    define rl4 where "rl4 = rl3\<lparr>maxfree := max (rl_nfree rl3) (maxfree rl3)\<rparr>"
    have jE: "rp rl3 ! j = rp rl ! j" if "j \<in> set E'" for j using that iE by (intro j3) blast
    have "rl_empty rl3 = rg_next (rp rl ! i)" by (simp add: f(3) F rl2_def rl1_def)
    with chain_next_cong [OF emp jE] have "chain (\<lambda>j. rg_next (rp rl3 ! j)) (rl_empty rl3) E'" by simp
    then have core: "rl_core G rl4 fb3 A3 (insort_key (slot_off (rp rl4)) i FO) hO3 (insort_key (ekey (rp rl2)) i FE) hE3 E'"
      unfolding rl_core_def using f(4) C(2,4,5) sum iE Cons
      by (simp add: rl4_def ek set_insort_key) (simp add: f(3) F rl2_def rl1_def inc)
    have "rl_Add off x rl fb r = Some (Some i, rl4, fb3, r3)" unfolding add rl4_def using True sum by simp
    moreover have "slot_off (rp rl4) i = off" "rg_extent (rp rl4 ! i) = x" by (simp_all add: rl4_def f(3) T(4,5) at w_def)
    moreover have "keeps {i} rl rl4"
      using j3 T(2) unfolding keeps_def same_hash_def by (simp add: rl4_def f(3) F rl2_def rl1_def)
    ultimately show ?thesis
      using f(1) core
      by (intro disjI2 exI [of _ i] exI [of _ E'] exI [of _ rl4] exI [of _ fb3] exI [of _ r3] conjI disjI2 exI [of _ A3] exI [of _ hO3]
          exI [of _ "insort_key (ekey (rp rl2)) i FE"] exI [of _ hE3]) (simp_all add: Cons)
  qed
qed


subsection \<open>Merging neighbours\<close>

lemma rl_lists_extent:
  assumes l: "rl_lists G rl fb A FO hO FE hE" and k: "k \<in> set FO" "k \<notin> set FE"
    and y: "even y" "slot_off (rp rl) k + int y \<le> huge_off_t"
  shows "rl_lists G (rl\<lparr>rp := (rp rl)[k := (rp rl ! k)\<lparr>rg_extent := y\<rparr>]\<rparr>) fb A FO hO FE hE"
proof -
  note D = rl_listsD [OF l] and R = region_okD [OF rl_listsD(4) [OF l] rl_listsD(5) [OF l k(1)]]
  let ?rps = "(rp rl)[k := (rp rl ! k)\<lparr>rg_extent := y\<rparr>]"
  have nx: "rg_next (?rps ! j) = rg_next (rp rl ! j)" "rg_prev (?rps ! j) = rg_prev (rp rl ! j)" "slot_off ?rps j = slot_off (rp rl) j" for j
    using R(3) by (auto simp: nth_list_update)
  have same: "?rps ! j = rp rl ! j" if "j \<noteq> k" for j using that by simp
  have "slots_ok ?rps (rl_nalloc rl + RL_FREE_OVERHEAD)"
    using D(4) R(1) same [of RL_FOFF_TL] same [of RL_FEXT_HD] same [of RL_FEXT_TL] unfolding slots_ok_def by (simp add: rl_consts)
  moreover have "region_ok ?rps (rl_nalloc rl + RL_FREE_OVERHEAD) j" if j: "j \<in> set FO \<union> set FE" for j
  proof (cases "j = k")
    case True
    then show ?thesis using R(1-3,5) y unfolding region_ok_def by simp
  next
    case False
    then show ?thesis using D(5,6) [of j] j unfolding region_ok_def by (auto simp: same)
  qed
  moreover have "by_key (slot_off ?rps) FO" by (rule by_key_cong [OF D(7)]) (simp add: nx)
  moreover have "by_key (ekey ?rps) FE" by (rule by_key_cong [OF D(8)]) (use k(2) same in metis)
  ultimately show ?thesis using D(1-3) unfolding rl_lists_def by (simp add: nx)
qed

lemma merge_regions_spec:
  assumes c: "rl_core G rl fb A FO hO FE hE E" and k: "k \<in> set FO" and g: "g \<in> set FO" and kg: "k \<noteq> g"
    and adj: "slot_off (rp rl) k + int (slot_ext (rp rl) k) = slot_off (rp rl) g" and sp: "0 < spares fb"
  shows "\<exists>rl' fb' r' A' FE' hE'. merge_regions k g rl fb r = Some (rl', fb', r') \<and> rl_core G rl' fb' A' (remove1 g FO) hO FE' hE' (g # E) \<and>
    spares fb \<le> Suc (spares fb') \<and> keeps {k, g} rl rl' \<and>
    slot_off (rp rl') k = slot_off (rp rl) k \<and> slot_ext (rp rl') k = slot_ext (rp rl) k + slot_ext (rp rl) g"
proof -
  note C = rl_coreD [OF c] and D = rl_listsD [OF rl_coreD(1) [OF c]] and S = rl_core_sizes [OF c]
  note RK = region_okD [OF D(4) D(5) [OF k]] and RG = region_okD [OF D(4) D(5) [OF g]]
  have kE: "k \<in> set FE" and gE: "g \<in> set FE" using k g C(2) by simp_all
  obtain rl1 fb1 A1 where d1: "DeleteExtent k rl fb = Some (rl1, fb1)" "towers_only {} rl rl1" "spares fb1 = spares fb"
    "rl_lists G rl1 fb1 A1 FO hO (remove1 k FE) hE" using DeleteExtent_spec [OF C(1) kE] by blast
  note F1 = towers_only_fields [OF d1(2)] and rp1 = towers_only_none [OF d1(2)]
  define y where "y = slot_ext (rp rl) k + slot_ext (rp rl) g"
  have y: "even y" "slot_off (rp rl) k + int y \<le> huge_off_t"
    using RK(4) RG(4) RG(7) adj D(5) [OF k] D(5) [OF g] unfolding y_def region_ok_def by simp_all
  have sz: "sz_add (rg_extent (rp rl ! k)) (slot_ext (rp rl) g) = y"
    using RK(4,8) RG(4,8) unfolding y_def by (simp add: sz_add_small)
  define rl2 where "rl2 = rl1\<lparr>rp := (rp rl)[k := (rp rl ! k)\<lparr>rg_extent := y\<rparr>]\<rparr>"
  have kn: "k \<notin> set (remove1 k FE)" using S(6) by (simp add: set_remove1_eq)
  have l2: "rl_lists G rl2 fb1 A1 FO hO (remove1 k FE) hE"
    using rl_lists_extent [OF d1(4) k kn y(1)] y(2) unfolding rl2_def rp1 by simp
  have rp2: "rp rl2 ! j = (if j = k then (rp rl ! k)\<lparr>rg_extent := y\<rparr> else rp rl ! j)" for j
    using RK(3) by (simp add: rl2_def nth_list_update)
  have off2: "slot_off (rp rl2) j = slot_off (rp rl) j" for j by (simp add: rp2)
  have "ekey (rp rl2) k \<notin> ekey (rp rl2) ` set (remove1 k FE)"
  proof
    assume "ekey (rp rl2) k \<in> ekey (rp rl2) ` set (remove1 k FE)"
    then obtain j where j: "j \<in> set FO" "j \<noteq> k" "slot_off (rp rl) k = slot_off (rp rl) j"
      using C(2) S(6) by (auto simp: set_remove1_eq off2)
    then show False using by_key_inj [OF D(7) k j(1)] by simp
  qed
  then obtain rl3 fb3 r3 A3 hE3 where a: "AddExtent k rl2 fb1 r = Some (0, rl3, fb3, r3)" "towers_only {k} rl2 rl3" "spares fb1 \<le> Suc (spares fb3)"
    "rl_lists G rl3 fb3 A3 FO hO (insort_key (ekey (rp rl2)) k (remove1 k FE)) hE3"
    using AddExtent_spec [OF l2 rl_listsD(5) [OF l2 k], where r = r] sp d1(3) by auto
  let ?n = "length FO - 1"
  have l3: "rl_lists G (rl3\<lparr>rl_nfree := ?n\<rparr>) fb3 A3 FO hO (insort_key (ekey (rp rl2)) k (remove1 k FE)) hE3" using a(4) by simp
  obtain rl4 fb4 A4 where d4: "DeleteOffset g (rl3\<lparr>rl_nfree := ?n\<rparr>) fb3 = Some (rl4, fb4)" "towers_only {} (rl3\<lparr>rl_nfree := ?n\<rparr>) rl4"
    "spares fb4 = spares fb3" "rl_lists G rl4 fb4 A4 (remove1 g FO) hO (insort_key (ekey (rp rl2)) k (remove1 k FE)) hE3"
    using DeleteOffset_spec [OF l3 g] by blast
  have gI: "g \<in> set (insort_key (ekey (rp rl2)) k (remove1 k FE))" using gE kg S(6) by (simp add: set_insort_key set_remove1_eq)
  define FE' where "FE' = remove1 g (insort_key (ekey (rp rl2)) k (remove1 k FE))"
  obtain rl5 fb5 A5 where d5: "DeleteExtent g rl4 fb4 = Some (rl5, fb5)" "towers_only {} rl4 rl5"
    "spares fb5 = spares fb4" "rl_lists G rl5 fb5 A5 (remove1 g FO) hO FE' hE3"
    using DeleteExtent_spec [OF d4(4) gI] unfolding FE'_def by blast
  have t5: "towers_only {} (rl3\<lparr>rl_nfree := ?n\<rparr>) rl5" using towers_only_trans [OF d4(2) d5(2)] by simp
  note F5 = towers_only_fields [OF t5] and F3 = towers_only_fields [OF a(2)] and rp5 = towers_only_none [OF t5]
  have other: "rp rl5 ! j = rp rl ! j" if "j \<noteq> k" for j using that towers_onlyD(3) [OF a(2), of j] by (simp add: rp5 rp2)
  have dist: "distinct (insort_key (ekey (rp rl2)) k (remove1 k FE))" using S(6) kn by (simp add: distinct_insort)
  have sets: "set FE' = set FO - {g}" "set (remove1 g FO) = set FO - {g}"
    using dist S(5,6) C(2) kE by (auto simp: FE'_def set_remove1_eq set_insort_key)
  have kEs: "k \<notin> set E" "g \<notin> set E" using C(5) k g by auto
  have emp: "chain (\<lambda>i. rg_next (rp rl5 ! i)) (rl_empty rl5) E"
    using kEs(1) by (simp add: F5 F3 rl2_def F1) (rule chain_next_cong [OF C(3)], rule other, blast)
  have pos: "0 < length FO" using k by (cases FO) auto
  have cnt: "length E < rl_nalloc rl" using C(6-8) pos by linarith
  have al: "rl_nalloc rl5 = rl_nalloc rl" "rl_empty rl5 = rl_empty rl" "nempty rl5 = length E"
    using C(6) by (simp_all add: F5 F3 rl2_def F1)
  define rl6 where "rl6 = rl5\<lparr>rp := (rp rl5)[g := (rp rl5 ! g)\<lparr>rg_next := rl_empty rl5, rg_offset := -1, rg_extent := 0\<rparr>], rl_empty := g, nempty := length E + 1\<rparr>"
  have rel: "ReleaseEmptyRegion g rl5 = Some rl6 \<and> rl_lists G rl6 fb5 A5 (remove1 g FO) hO FE' hE3 \<and> chain (\<lambda>i. rg_next (rp rl6 ! i)) (rl_empty rl6) (g # E)"
    unfolding rl6_def by (rule ReleaseEmptyRegion_spec [OF d5(4) RG(1) _ _ _ kEs(2) emp]) (use RG(2) al cnt sets in auto)
  have dec: "sz_dec (rl_nfree rl3) = ?n"
    using C(7) S(1,3) pos by (simp add: F3 rl2_def F1 SIZE_NONE_def Suc_le_eq sz_sub_small [of 1, simplified])
  have run: "merge_regions k g rl fb r = Some (rl6, fb5, r3)"
    unfolding merge_regions_def using d1(1) RK(3) RG(3) sz a(1) d4(1) d5(1) rel dec by (simp add: rp1 rl2_def [symmetric])
  have "Suc (rl_nelems rl + (length FO - Suc 0) + length E) = rl_nalloc rl" using pos C(6-8) by linarith
  then have core: "rl_core G rl6 fb5 A5 (remove1 g FO) hO FE' hE3 (g # E)"
    unfolding rl_core_def using rel C(4-7) sets RG(1,2) g kEs
    by (auto simp: rl6_def F5 F3 rl2_def F1 length_remove1)
  have gk: "rp rl6 ! k = rp rl3 ! k" using kg by (simp add: rl6_def rp5)
  have "slot_ext (rp rl3) k = slot_ext (rp rl2) k" by (rule towers_only_ext [OF a(2)])
  also have "\<dots> = y" using y(1) by (simp add: rp2 GetExtent_def)
  finally have "slot_ext (rp rl6) k = y" by (simp add: gk)
  moreover have "slot_off (rp rl6) k = slot_off (rp rl) k" by (simp add: gk towers_onlyD(4) [OF a(2)] off2)
  moreover have "keeps {k, g} rl rl6"
    unfolding keeps_def same_hash_def using other towers_onlyD(2) [OF a(2)]
    by (simp add: rl6_def F5 F3 rl2_def F1) (simp add: rp5 rl2_def)
  ultimately show ?thesis using run core a(3) d1(3) d4(3) d5(3) unfolding y_def
    by (intro exI [of _ rl6] exI [of _ fb5] exI [of _ r3] exI [of _ A5] exI [of _ FE'] exI [of _ hE3]) simp
qed


text \<open>The free space as a list of offsets and extents, and how one span joins its neighbours.\<close>

type_synonym span = "int \<times> nat"

definition span_of :: "Region list \<Rightarrow> nat \<Rightarrow> span" where
  "span_of rps i = (slot_off rps i, slot_ext rps i)"

definition spans :: "Region list \<Rightarrow> nat list \<Rightarrow> span list" where
  "spans rps L = map (span_of rps) L"

definition adjacent :: "span \<Rightarrow> span \<Rightarrow> bool" where
  "adjacent s t \<longleftrightarrow> fst s + int (snd s) = fst t"

fun eat_right :: "span \<Rightarrow> span list \<Rightarrow> span \<times> span list" where
  "eat_right s [] = (s, [])"
| "eat_right s (t # ts) = (if adjacent s t then ((fst s, snd s + snd t), ts) else (s, t # ts))"

definition eat_left :: "span list \<Rightarrow> span \<Rightarrow> span list \<times> span" where
  "eat_left ts s = (if ts \<noteq> [] \<and> adjacent (last ts) s then (butlast ts, (fst (last ts), snd (last ts) + snd s)) else (ts, s))"

definition coalesce :: "span list \<Rightarrow> span \<Rightarrow> span list \<Rightarrow> span list" where
  "coalesce ls s rs = (let (s1, rs1) = eat_right s rs; (ls1, s2) = eat_left ls s1 in ls1 @ s2 # rs1)"

lemma spans_simps [simp]:
  "spans rps [] = []" "spans rps (i # L) = span_of rps i # spans rps L" "spans rps (L @ M) = spans rps L @ spans rps M"
  "length (spans rps L) = length L" "spans rps L = [] \<longleftrightarrow> L = []"
  by (simp_all add: spans_def)

lemma spans_cong: "(\<And>i. i \<in> set L \<Longrightarrow> rps' ! i = rps ! i) \<Longrightarrow> spans rps' L = spans rps L"
  by (simp add: spans_def span_of_def)

lemma rl_core_indices: "rl_core G rl fb A FO hO FE hE E \<Longrightarrow> i \<in> set FO \<Longrightarrow> 4 \<le> i \<and> i < length (rp rl)"
  using rl_coreD(1) rl_listsD(4,5) region_okD(1,3) by metis

lemma right_step:
  assumes c: "rl_core G rl fb A (xs @ i # ys) hO FE hE E" and sp: "0 < spares fb"
  shows "\<exists>rl1 fb1 r1 A1 FE1 hE1 E1 ys1.
    (if hd (ys @ [RL_FOFF_TL]) \<noteq> RL_FOFF_TL then do {
        rep \<leftarrow> rd (rp rl) i;
        rght \<leftarrow> rd (rp rl) (hd (ys @ [RL_FOFF_TL]));
        if rg_offset rep + int (GetExtent rep) = rg_offset rght then merge_regions i (hd (ys @ [RL_FOFF_TL])) rl fb r
        else Some (rl, fb, r) } else Some (rl, fb, r)) = Some (rl1, fb1, r1) \<and>
    rl_core G rl1 fb1 A1 (xs @ i # ys1) hO FE1 hE1 E1 \<and> eat_right (span_of (rp rl) i) (spans (rp rl) ys) = (span_of (rp rl1) i, spans (rp rl1) ys1) \<and>
    keeps (set (i # ys)) rl rl1 \<and> set ys1 \<union> set E1 = set ys \<union> set E \<and> set ys1 \<subseteq> set ys \<and> spares fb \<le> Suc (spares fb1)"
proof (cases ys)
  case Nil
  have "keeps (set [i]) rl rl" by (simp add: keeps_def same_hash_def)
  then show ?thesis using c Nil by fastforce
next
  case (Cons y zs)
  have dist: "distinct (xs @ i # y # zs)" using rl_core_sizes(5) [OF c] Cons by simp
  have yi: "y \<in> set (xs @ i # ys)" "i \<in> set (xs @ i # ys)" "i \<noteq> y" using Cons dist by auto
  have bnd: "4 \<le> y" "y < length (rp rl)" "i < length (rp rl)" using rl_core_indices [OF c] yi by auto
  have ny: "hd (ys @ [RL_FOFF_TL]) = y" "y \<noteq> RL_FOFF_TL" using Cons bnd(1) by (simp_all add: rl_consts)
  show ?thesis
  proof (cases "slot_off (rp rl) i + int (slot_ext (rp rl) i) = slot_off (rp rl) y")
    case False
    have "keeps (set (i # ys)) rl rl" by (simp add: keeps_def same_hash_def)
    moreover have "\<not> adjacent (span_of (rp rl) i) (span_of (rp rl) y)" using False by (simp add: adjacent_def span_of_def)
    ultimately show ?thesis
      using c ny bnd False Cons
      by (intro exI [of _ rl] exI [of _ fb] exI [of _ r] exI [of _ A] exI [of _ FE] exI [of _ hE] exI [of _ E] exI [of _ ys]) simp
  next
    case True
    obtain rl1 fb1 r1 A1 FE1 hE1 where m: "merge_regions i y rl fb r = Some (rl1, fb1, r1)"
      "rl_core G rl1 fb1 A1 (remove1 y (xs @ i # ys)) hO FE1 hE1 (y # E)" "spares fb \<le> Suc (spares fb1)" "keeps {i, y} rl rl1"
      "slot_off (rp rl1) i = slot_off (rp rl) i" "slot_ext (rp rl1) i = slot_ext (rp rl) i + slot_ext (rp rl) y"
      using merge_regions_spec [OF c yi(2,1,3) True sp, of r] by blast
    have rem: "remove1 y (xs @ i # ys) = xs @ i # zs" using dist Cons by (auto simp: remove1_append)
    have "spans (rp rl1) zs = spans (rp rl) zs" by (intro spans_cong keepsD(2) [OF m(4)]) (use dist in auto)
    moreover have "adjacent (span_of (rp rl) i) (span_of (rp rl) y)" using True by (simp add: adjacent_def span_of_def)
    ultimately have eat: "eat_right (span_of (rp rl) i) (spans (rp rl) ys) = (span_of (rp rl1) i, spans (rp rl1) zs)"
      using m(5,6) Cons by (simp add: span_of_def)
    have "keeps (set (i # ys)) rl rl1" by (rule keeps_mono [OF m(4)]) (simp add: Cons)
    then show ?thesis
      using m(1-3) eat ny bnd True Cons unfolding rem
      by (intro exI [of _ rl1] exI [of _ fb1] exI [of _ r1] exI [of _ A1] exI [of _ FE1] exI [of _ hE1] exI [of _ "y # E"] exI [of _ zs]) auto
  qed
qed


lemma left_step:
  assumes c: "rl_core G rl fb A (xs @ i # ys) hO FE hE E" and sp: "0 < spares fb"
  shows "\<exists>ix rl1 fb1 r1 A1 FE1 hE1 E1 xs1.
    (if last (RL_FOFF_HD # xs) \<noteq> RL_FOFF_HD then do {
        rep \<leftarrow> rd (rp rl) i;
        left \<leftarrow> rd (rp rl) (last (RL_FOFF_HD # xs));
        if rg_offset left + int (GetExtent left) = rg_offset rep then do {
          (rl2, fb2, r2) \<leftarrow> merge_regions (last (RL_FOFF_HD # xs)) i rl fb r;
          Some (last (RL_FOFF_HD # xs), rl2, fb2, r2) }
        else Some (i, rl, fb, r) } else Some (i, rl, fb, r)) = Some (ix, rl1, fb1, r1) \<and>
    rl_core G rl1 fb1 A1 (xs1 @ ix # ys) hO FE1 hE1 E1 \<and> eat_left (spans (rp rl) xs) (span_of (rp rl) i) = (spans (rp rl1) xs1, span_of (rp rl1) ix) \<and>
    spans (rp rl1) ys = spans (rp rl) ys \<and>
    keeps (set (i # xs)) rl rl1 \<and> set xs1 \<union> {ix} \<union> set E1 = set xs \<union> {i} \<union> set E \<and> set xs1 \<union> {ix} \<subseteq> set xs \<union> {i} \<and>
    spares fb \<le> Suc (spares fb1)"
proof (cases xs rule: rev_cases)
  case Nil
  have "keeps (set [i]) rl rl" by (simp add: keeps_def same_hash_def)
  then show ?thesis using c Nil
    by (intro exI [of _ i] exI [of _ rl] exI [of _ fb] exI [of _ r] exI [of _ A] exI [of _ FE] exI [of _ hE] exI [of _ E] exI [of _ xs])
       (simp add: eat_left_def)
next
  case (snoc ws x)
  have dist: "distinct (ws @ x # i # ys)" using rl_core_sizes(5) [OF c] snoc by simp
  have xi: "x \<in> set (xs @ i # ys)" "i \<in> set (xs @ i # ys)" "x \<noteq> i" using snoc dist by auto
  have bnd: "4 \<le> x" "x < length (rp rl)" "i < length (rp rl)" using rl_core_indices [OF c] xi by auto
  have nx: "last (RL_FOFF_HD # xs) = x" "x \<noteq> RL_FOFF_HD" using snoc bnd(1) by (simp_all add: rl_consts)
  show ?thesis
  proof (cases "slot_off (rp rl) x + int (slot_ext (rp rl) x) = slot_off (rp rl) i")
    case False
    have "keeps (set (i # xs)) rl rl" by (simp add: keeps_def same_hash_def)
    moreover have "\<not> adjacent (span_of (rp rl) x) (span_of (rp rl) i)" using False by (simp add: adjacent_def span_of_def)
    ultimately show ?thesis
      using c nx bnd False snoc
      by (intro exI [of _ i] exI [of _ rl] exI [of _ fb] exI [of _ r] exI [of _ A] exI [of _ FE] exI [of _ hE] exI [of _ E] exI [of _ xs])
         (simp add: eat_left_def)
  next
    case True
    obtain rl1 fb1 r1 A1 FE1 hE1 where m: "merge_regions x i rl fb r = Some (rl1, fb1, r1)"
      "rl_core G rl1 fb1 A1 (remove1 i (xs @ i # ys)) hO FE1 hE1 (i # E)" "keeps {x, i} rl rl1"
      "slot_off (rp rl1) x = slot_off (rp rl) x" "slot_ext (rp rl1) x = slot_ext (rp rl) x + slot_ext (rp rl) i"
      "spares fb \<le> Suc (spares fb1)"
      using merge_regions_spec [OF c xi True sp, of r] by blast
    have rem: "remove1 i (xs @ i # ys) = ws @ x # ys" using dist snoc by (auto simp: remove1_append)
    have sw: "spans (rp rl1) ws = spans (rp rl) ws" "spans (rp rl1) ys = spans (rp rl) ys"
      by (intro spans_cong keepsD(2) [OF m(3)]; use dist in auto)+
    moreover have "adjacent (span_of (rp rl) x) (span_of (rp rl) i)" using True by (simp add: adjacent_def span_of_def)
    ultimately have eat: "eat_left (spans (rp rl) xs) (span_of (rp rl) i) = (spans (rp rl1) ws, span_of (rp rl1) x)"
      using m(4,5) snoc by (simp add: span_of_def eat_left_def)
    have "keeps (set (i # xs)) rl rl1" by (rule keeps_mono [OF m(3)]) (simp add: snoc)
    then show ?thesis
      using m(1,2,6) eat nx bnd True snoc sw(2) unfolding rem
      by (intro exI [of _ x] exI [of _ rl1] exI [of _ fb1] exI [of _ r1] exI [of _ A1] exI [of _ FE1] exI [of _ hE1] exI [of _ "i # E"] exI [of _ ws]) auto
  qed
qed

text \<open>
  \<open>Consolidate\<close> joins a freed region with its free neighbours: the table describes the coalesced list, no slot is
  lost, and the largest extent is brought up to date.
\<close>

lemma Consolidate_spec:
  assumes c: "rl_core G rl fb A (xs @ i # ys) hO FE hE E" and sp: "2 \<le> spares fb"
  shows "\<exists>rl' fb' r' A' FO' FE' hE' E' x. Consolidate i rl fb r = Some (rl'\<lparr>maxfextent := max (maxfextent rl) x\<rparr>, fb', r') \<and>
    rl_core G rl' fb' A' FO' hO FE' hE' E' \<and> spans (rp rl') FO' = coalesce (spans (rp rl) xs) (span_of (rp rl) i) (spans (rp rl) ys) \<and>
    keeps (set (xs @ i # ys)) rl rl' \<and> set FO' \<union> set E' = set (xs @ i # ys) \<union> set E \<and> set FO' \<subseteq> set (xs @ i # ys) \<and>
    x = snd (snd (eat_left (spans (rp rl) xs) (fst (eat_right (span_of (rp rl) i) (spans (rp rl) ys))))) \<and>
    spares fb \<le> spares fb' + 2"
proof -
  have gn: "GetNextOffset i rl fb = Some (hd (ys @ [RL_FOFF_TL]))" "GetPrevOffset i rl fb = Some (last (RL_FOFF_HD # xs))"
    using GetNextOffset_spec GetPrevOffset_spec rl_coreD(1) [OF c] by blast+
  have sp0: "0 < spares fb" using sp by simp
  obtain rl1 fb1 r1 A1 FE1 hE1 E1 ys1 where r1: "(if hd (ys @ [RL_FOFF_TL]) \<noteq> RL_FOFF_TL then do {
        rep \<leftarrow> rd (rp rl) i;
        rght \<leftarrow> rd (rp rl) (hd (ys @ [RL_FOFF_TL]));
        if rg_offset rep + int (GetExtent rep) = rg_offset rght then merge_regions i (hd (ys @ [RL_FOFF_TL])) rl fb r
        else Some (rl, fb, r) } else Some (rl, fb, r)) = Some (rl1, fb1, r1)"
    "rl_core G rl1 fb1 A1 (xs @ i # ys1) hO FE1 hE1 E1" "eat_right (span_of (rp rl) i) (spans (rp rl) ys) = (span_of (rp rl1) i, spans (rp rl1) ys1)"
    "keeps (set (i # ys)) rl rl1" "set ys1 \<union> set E1 = set ys \<union> set E" "set ys1 \<subseteq> set ys" "spares fb \<le> Suc (spares fb1)"
    using right_step [OF c sp0, of r] by (elim exE conjE) (rule that; assumption)
  have sp1: "0 < spares fb1" using r1(7) sp by simp
  obtain ix rl2 fb2 r2 A2 FE2 hE2 E2 xs1 where r2: "(if last (RL_FOFF_HD # xs) \<noteq> RL_FOFF_HD then do {
        rep \<leftarrow> rd (rp rl1) i;
        left \<leftarrow> rd (rp rl1) (last (RL_FOFF_HD # xs));
        if rg_offset left + int (GetExtent left) = rg_offset rep then do {
          (rl2, fb2, r2) \<leftarrow> merge_regions (last (RL_FOFF_HD # xs)) i rl1 fb1 r1;
          Some (last (RL_FOFF_HD # xs), rl2, fb2, r2) }
        else Some (i, rl1, fb1, r1) } else Some (i, rl1, fb1, r1)) = Some (ix, rl2, fb2, r2)"
    "rl_core G rl2 fb2 A2 (xs1 @ ix # ys1) hO FE2 hE2 E2" "eat_left (spans (rp rl1) xs) (span_of (rp rl1) i) = (spans (rp rl2) xs1, span_of (rp rl2) ix)"
    "spans (rp rl2) ys1 = spans (rp rl1) ys1" "keeps (set (i # xs)) rl1 rl2" "set xs1 \<union> {ix} \<union> set E2 = set xs \<union> {i} \<union> set E1"
    "set xs1 \<union> {ix} \<subseteq> set xs \<union> {i}" "spares fb1 \<le> Suc (spares fb2)"
    using left_step [OF r1(2) sp1, of r1] by (elim exE conjE) (rule that; assumption)
  have dist: "distinct (xs @ i # ys)" using rl_core_sizes(5) [OF c] .
  have xs1: "spans (rp rl1) xs = spans (rp rl) xs" by (intro spans_cong keepsD(2) [OF r1(4)]) (use dist in auto)
  have k: "keeps (set (xs @ i # ys)) rl rl2" by (rule keeps_mono [OF keeps_trans [OF r1(4) r2(5)]]) auto
  have ixb: "ix < length (rp rl2)" using rl_core_indices [OF r2(2), of ix] by simp
  have run: "Consolidate i rl fb r = Some (rl2\<lparr>maxfextent := max (maxfextent rl) (slot_ext (rp rl2) ix)\<rparr>, fb2, r2)"
    unfolding Consolidate_def gn bind.bind_lunit r1(1) option.case prod.case r2(1)
    using ixb keepsD(5) [OF k] by (auto simp: max_def)
  have co: "spans (rp rl2) (xs1 @ ix # ys1) = coalesce (spans (rp rl) xs) (span_of (rp rl) i) (spans (rp rl) ys)"
    using r1(3) r2(3,4) unfolding coalesce_def xs1 by simp
  have "slot_ext (rp rl2) ix = snd (snd (eat_left (spans (rp rl) xs) (fst (eat_right (span_of (rp rl) i) (spans (rp rl) ys)))))"
    using r1(3) r2(3) unfolding xs1 by (simp add: span_of_def)
  moreover have "set (xs1 @ ix # ys1) \<union> set E2 = (set xs1 \<union> {ix} \<union> set E2) \<union> set ys1"
    "set (xs @ i # ys) \<union> set E = set xs \<union> {i} \<union> (set ys \<union> set E)" by auto
  then have "set (xs1 @ ix # ys1) \<union> set E2 = set (xs @ i # ys) \<union> set E" unfolding r2(6) r1(5) [symmetric] by blast
  moreover have "set (xs1 @ ix # ys1) \<subseteq> set (xs @ i # ys)" using r1(6) r2(7) by auto
  moreover have "spares fb \<le> spares fb2 + 2" using r1(7) r2(8) by simp
  ultimately show ?thesis using run r2(2) co k
    by (intro exI [of _ rl2] exI [of _ fb2] exI [of _ r2] exI [of _ A2] exI [of _ "xs1 @ ix # ys1"] exI [of _ FE2] exI [of _ hE2] exI [of _ E2]
        exI [of _ "slot_ext (rp rl2) ix"] conjI)
qed

end
