(* ===== verification/Region_Alloc.thy ===== *)
theory Region_Alloc
  imports Region_List
begin

text \<open>
  The operations of the region table as its clients see them: the hash table from offsets to allocated regions
  (\<open>Find\<close>, \<open>AddToHash\<close>, \<open>RemoveFromHash\<close>), allocation by best fit (\<open>Get\<close>, \<open>Split\<close>) and the return of a region
  (\<open>Put\<close>, \<open>Free\<close>), which joins it with its free neighbours.
\<close>

subsection \<open>Doubly linked chains\<close>

primrec dseg :: "(nat \<Rightarrow> nat) \<Rightarrow> (nat \<Rightarrow> nat) \<Rightarrow> nat \<Rightarrow> nat \<Rightarrow> nat list \<Rightarrow> nat \<Rightarrow> bool" where
  "dseg nx pv p c [] q \<longleftrightarrow> c = q"
| "dseg nx pv p c (i # L) q \<longleftrightarrow> c = i \<and> i \<noteq> RL_NONE \<and> pv i = p \<and> dseg nx pv i (nx i) L q"

lemma dseg_append:
  "dseg nx pv p c (xs @ ys) q \<longleftrightarrow> (\<exists>m. dseg nx pv p c xs m \<and> dseg nx pv (last (p # xs)) m ys q)"
  by (induction xs arbitrary: p c) auto

lemma dseg_cong:
  assumes "dseg nx pv p c L q" "\<And>i. i \<in> set L \<Longrightarrow> nx' i = nx i \<and> pv' i = pv i"
  shows "dseg nx' pv' p c L q"
  using assms by (induction L arbitrary: p c) auto

lemma dseg_chain: "dseg nx pv p c L RL_NONE \<Longrightarrow> chain nx c L"
  by (induction L arbitrary: p c) (auto simp: RL_NONE_def)

lemma dseg_head:
  assumes "dseg nx pv p c L q"
  shows "c = hd (L @ [q])"
  using assms by (cases L) auto

lemma dseg_relink_last:
  assumes "dseg nx pv p c (xs @ [x]) m" "x \<notin> set xs"
  shows "dseg (nx(x := m')) pv p c (xs @ [x]) m'"
proof -
  have x: "dseg nx pv p c xs x" "pv x = last (p # xs)" "x \<noteq> RL_NONE" using assms(1) by (auto simp: dseg_append)
  have "dseg (nx(x := m')) pv p c xs x" by (rule dseg_cong [OF x(1)]) (use assms(2) in auto)
  then show ?thesis using x(2,3) by (simp add: dseg_append)
qed

lemma dseg_relink_first:
  assumes "dseg nx pv p c (y # ys) q" "y \<notin> set ys"
  shows "dseg nx (pv(y := p')) p' c (y # ys) q"
proof -
  have "dseg nx pv y (nx y) ys q" using assms(1) by simp
  then have "dseg nx (pv(y := p')) y (nx y) ys q" by (rule dseg_cong) (use assms(2) in auto)
  then show ?thesis using assms by simp
qed

text \<open>Taking an element out of a chain, and putting one at its front.\<close>

lemma dseg_remove:
  assumes d: "dseg nx pv RL_NONE c (xs @ i # ys) RL_NONE" and dist: "distinct (xs @ i # ys)"
  shows "dseg (if xs = [] then nx else nx(last xs := nx i)) (if ys = [] then pv else pv(hd ys := pv i)) RL_NONE
      (if xs = [] then nx i else c) (xs @ ys) RL_NONE"
proof -
  define nx' where "nx' = (if xs = [] then nx else nx(last xs := nx i))"
  define pv' where "pv' = (if ys = [] then pv else pv(hd ys := pv i))"
  have x: "dseg nx pv RL_NONE c xs i" "pv i = last (RL_NONE # xs)" "dseg nx pv i (nx i) ys RL_NONE"
    using d by (auto simp: dseg_append)
  have l: "dseg nx' pv RL_NONE (if xs = [] then nx i else c) xs (nx i)"
  proof (cases xs rule: rev_cases)
    case Nil
    then show ?thesis by simp
  next
    case (snoc zs z)
    have "dseg (nx(z := nx i)) pv RL_NONE c (zs @ [z]) (nx i)" by (rule dseg_relink_last) (use x(1) dist snoc in auto)
    then show ?thesis using snoc by (simp add: nx'_def)
  qed
  have l': "dseg nx' pv' RL_NONE (if xs = [] then nx i else c) xs (nx i)"
    by (rule dseg_cong [OF l]) (use dist in \<open>cases ys; auto simp: pv'_def\<close>)
  have "dseg nx pv' (last (RL_NONE # xs)) (nx i) ys RL_NONE"
  proof (cases ys)
    case Nil
    then show ?thesis using x(3) by simp
  next
    case (Cons z zs)
    have "dseg nx (pv(z := pv i)) (pv i) (nx i) (z # zs) RL_NONE" by (rule dseg_relink_first) (use x(3) dist Cons in auto)
    then show ?thesis using Cons x(2) by (simp add: pv'_def)
  qed
  then have "dseg nx' pv' (last (RL_NONE # xs)) (nx i) ys RL_NONE"
  proof (rule dseg_cong)
    fix j assume "j \<in> set ys"
    then have "xs \<noteq> [] \<Longrightarrow> j \<noteq> last xs" using dist last_in_set [of xs] by (metis disjoint_iff distinct_append set_subset_Cons subsetD)
    then show "nx' j = nx j \<and> pv' j = pv' j" by (simp add: nx'_def)
  qed
  then show ?thesis using l' unfolding dseg_append nx'_def pv'_def by blast
qed

lemma dseg_push:
  assumes d: "dseg nx pv RL_NONE c L RL_NONE" and i: "i \<notin> set L" "i \<noteq> RL_NONE"
  shows "dseg (nx(i := c)) ((if L = [] then pv else pv(c := i))(i := RL_NONE)) RL_NONE i (i # L) RL_NONE"
proof -
  have "dseg nx (if L = [] then pv else pv(c := i)) i c L RL_NONE"
  proof (cases L)
    case (Cons z zs)
    have "dseg nx (pv(z := i)) i c (z # zs) RL_NONE"
      by (rule dseg_relink_first) (use d Cons chain_distinct [OF dseg_chain [OF d]] in auto)
    then show ?thesis using Cons d by simp
  qed (use d in simp)
  then have "dseg (nx(i := c)) ((if L = [] then pv else pv(c := i))(i := RL_NONE)) i c L RL_NONE"
    by (rule dseg_cong) (use i in auto)
  then show ?thesis using i by simp
qed


subsection \<open>The hash table\<close>

definition hash_of :: "RegionList \<Rightarrow> int \<Rightarrow> nat" where
  "hash_of rl off = nat (off mod 2 ^ 32) mod rl_nchains rl"

definition hash_slot :: "RegionList \<Rightarrow> nat \<Rightarrow> bool" where
  "hash_slot rl i \<longleftrightarrow> 4 \<le> i \<and> i < rl_nalloc rl + RL_FREE_OVERHEAD"

definition hash_chain :: "RegionList \<Rightarrow> nat \<Rightarrow> nat list \<Rightarrow> bool" where
  "hash_chain rl h C \<longleftrightarrow> dseg (\<lambda>i. rg_next (rp rl ! i)) (\<lambda>i. rg_prev (rp rl ! i)) RL_NONE (rh_chains rl ! h) C RL_NONE \<and>
     (\<forall>i \<in> set C. hash_slot rl i \<and> hash_of rl (slot_off (rp rl) i) = h)"

text \<open>\<open>U\<close> is the set of the slots in the table; no two of them describe the same offset.\<close>

definition hash_ok :: "RegionList \<Rightarrow> nat set \<Rightarrow> bool" where
  "hash_ok rl U \<longleftrightarrow> rh_magic rl = RL_MAGIC \<and> 0 < rl_nchains rl \<and> rl_nchains rl \<le> length (rh_chains rl) \<and>
     rl_nalloc rl + RL_FREE_OVERHEAD \<le> length (rp rl) \<and> rl_nalloc rl + RL_FREE_OVERHEAD \<le> RL_NONE \<and> inj_on (slot_off (rp rl)) U \<and>
     (\<exists>Cs. (\<forall>h < rl_nchains rl. hash_chain rl h (Cs h)) \<and> U = (\<Union>h < rl_nchains rl. set (Cs h)))"

definition same_links :: "Region \<Rightarrow> Region \<Rightarrow> bool" where
  "same_links a b \<longleftrightarrow> rg_offset a = rg_offset b \<and> rg_next a = rg_next b \<and> rg_prev a = rg_prev b"

definition all_alloc :: "RegionList \<Rightarrow> nat set \<Rightarrow> bool" where
  "all_alloc rl U \<longleftrightarrow> (\<forall>i \<in> U. IsAlloc (rp rl ! i))"

lemma hash_okD:
  assumes "hash_ok rl U"
  shows "rh_magic rl = RL_MAGIC" "0 < rl_nchains rl" "rl_nchains rl \<le> length (rh_chains rl)"
    "inj_on (slot_off (rp rl)) U" "HashOffset off rl = Some (hash_of rl off)" "hash_of rl off < rl_nchains rl"
    "\<exists>C. hash_chain rl (hash_of rl off) C \<and> set C = {i \<in> U. hash_of rl (slot_off (rp rl) i) = hash_of rl off}"
    "i \<in> U \<Longrightarrow> hash_slot rl i" "hash_slot rl i \<Longrightarrow> i < length (rp rl) \<and> i \<noteq> RL_NONE"
proof -
  obtain Cs where C: "\<And>h. h < rl_nchains rl \<Longrightarrow> hash_chain rl h (Cs h)" "U = (\<Union>h < rl_nchains rl. set (Cs h))"
    using assms unfolding hash_ok_def by blast
  show h: "rh_magic rl = RL_MAGIC" "0 < rl_nchains rl" "rl_nchains rl \<le> length (rh_chains rl)" "inj_on (slot_off (rp rl)) U"
    using assms unfolding hash_ok_def by blast+
  show "HashOffset off rl = Some (hash_of rl off)" using h(2) by (simp add: HashOffset_def hash_of_def)
  show l: "hash_of rl off < rl_nchains rl" using h(2) by (simp add: hash_of_def)
  have "set (Cs (hash_of rl off)) = {i \<in> U. hash_of rl (slot_off (rp rl) i) = hash_of rl off}"
    using l C(1) unfolding C(2) hash_chain_def by auto
  then show "\<exists>C. hash_chain rl (hash_of rl off) C \<and> set C = {i \<in> U. hash_of rl (slot_off (rp rl) i) = hash_of rl off}"
    using C(1) [OF l] by blast
  show "i \<in> U \<Longrightarrow> hash_slot rl i" using C unfolding hash_chain_def by auto
  show "hash_slot rl i \<Longrightarrow> i < length (rp rl) \<and> i \<noteq> RL_NONE" using assms unfolding hash_ok_def hash_slot_def by auto
qed

text \<open>A table changes in one chain at a time.\<close>

lemma hash_ok_step:
  assumes ok: "hash_ok rl U" and h: "h < rl_nchains rl" and old: "hash_chain rl h C" and new: "hash_chain rl' h C'"
    and same: "rh_magic rl' = rh_magic rl" "rl_nchains rl' = rl_nchains rl" "rl_nalloc rl' = rl_nalloc rl" "length (rp rl') = length (rp rl)"
      "length (rh_chains rl') = length (rh_chains rl)"
    and ch: "\<And>k. k \<noteq> h \<Longrightarrow> rh_chains rl' ! k = rh_chains rl ! k"
    and rps: "\<And>j. j \<in> U \<Longrightarrow> hash_of rl (slot_off (rp rl) j) \<noteq> h \<Longrightarrow> same_links (rp rl' ! j) (rp rl ! j)"
    and inj: "inj_on (slot_off (rp rl')) ((U - set C) \<union> set C')"
  shows "hash_ok rl' ((U - set C) \<union> set C')"
proof -
  obtain Cs where C: "\<And>h. h < rl_nchains rl \<Longrightarrow> hash_chain rl h (Cs h)" "U = (\<Union>h < rl_nchains rl. set (Cs h))"
    using ok unfolding hash_ok_def by blast
  have Ch: "Cs h = C" using C(1) [OF h] old chain_unique dseg_chain unfolding hash_chain_def by metis
  define Ds where "Ds = Cs(h := C')"
  have keep: "hash_chain rl' k (Cs k)" if k: "k < rl_nchains rl" "k \<noteq> h" for k
  proof -
    have j: "same_links (rp rl' ! j) (rp rl ! j)" if "j \<in> set (Cs k)" for j
      by (rule rps) (use that k C(1) [OF k(1)] in \<open>auto simp: C(2) hash_chain_def\<close>)
    have "dseg (\<lambda>i. rg_next (rp rl' ! i)) (\<lambda>i. rg_prev (rp rl' ! i)) RL_NONE (rh_chains rl' ! k) (Cs k) RL_NONE"
      unfolding ch [OF k(2)] by (rule dseg_cong) (use C(1) [OF k(1)] j in \<open>auto simp: hash_chain_def same_links_def\<close>)
    then show ?thesis using C(1) [OF k(1)] j same by (simp add: hash_chain_def hash_slot_def hash_of_def same_links_def)
  qed
  have "\<forall>k < rl_nchains rl'. hash_chain rl' k (Ds k)" using keep new same by (simp add: Ds_def)
  moreover have "(U - set C) \<union> set C' = (\<Union>k < rl_nchains rl'. set (Ds k))"
  proof -
    have "x \<notin> set C" if "k < rl_nchains rl" "k \<noteq> h" "x \<in> set (Cs k)" for k x
      using C(1) [OF that(1)] old that(2,3) unfolding hash_chain_def by auto
    then show ?thesis using h Ch unfolding C(2) same Ds_def by (auto split: if_splits)
  qed
  ultimately show ?thesis using ok inj same unfolding hash_ok_def by auto
qed

lemma hash_ok_keeps:
  assumes ok: "hash_ok rl U" and k: "same_hash rl rl'" "length (rp rl') = length (rp rl)" and rps: "\<And>j. j \<in> U \<Longrightarrow> same_links (rp rl' ! j) (rp rl ! j)"
  shows "hash_ok rl' U"
proof -
  obtain C where C: "hash_chain rl (hash_of rl 0) C" "set C = {i \<in> U. hash_of rl (slot_off (rp rl) i) = hash_of rl 0}"
    using hash_okD(7) [OF ok, of 0] by blast
  have s: "rh_chains rl' = rh_chains rl" "rl_nchains rl' = rl_nchains rl" "rh_magic rl' = rh_magic rl" "rl_nalloc rl' = rl_nalloc rl"
    using k(1) by (auto simp: same_hash_def)
  have "dseg (\<lambda>i. rg_next (rp rl' ! i)) (\<lambda>i. rg_prev (rp rl' ! i)) RL_NONE (rh_chains rl' ! hash_of rl 0) C RL_NONE"
    unfolding s by (rule dseg_cong) (use C rps in \<open>auto simp: hash_chain_def same_links_def\<close>)
  then have "hash_chain rl' (hash_of rl 0) C" using C rps s by (auto simp: hash_chain_def hash_slot_def hash_of_def same_links_def)
  moreover have "inj_on (slot_off (rp rl')) U" using hash_okD(4) [OF ok] rps by (simp add: inj_on_def same_links_def)
  moreover have "(U - set C) \<union> set C = U" using C(2) by auto
  ultimately show ?thesis using hash_ok_step [OF ok hash_okD(6) [OF ok] C(1), of rl' C] s k(2) rps by simp
qed


lemma rl_Find_loop_chain:
  assumes "dseg (\<lambda>i. rg_next (rps ! i)) pv p c C RL_NONE" "\<And>i. i \<in> set C \<Longrightarrow> i < length rps"
    "\<And>i. i \<in> set C \<Longrightarrow> slot_off rps i = off \<Longrightarrow> IsAlloc (rps ! i)"
  shows "rl_Find_loop off rps c = Some (case find (\<lambda>i. slot_off rps i = off) C of None \<Rightarrow> RL_NONE | Some i \<Rightarrow> i)"
  using assms
proof (induction C arbitrary: p c)
  case Nil
  then show ?case by (subst rl_Find_loop.simps) simp
next
  case (Cons i C)
  have "c = i" "i \<noteq> RL_NONE" "i < length rps" using Cons.prems by auto
  moreover have "slot_off rps i = off \<Longrightarrow> IsAlloc (rps ! i)" using Cons.prems(3) by simp
  moreover have "rl_Find_loop off rps (rg_next (rps ! i)) = Some (case find (\<lambda>i. slot_off rps i = off) C of None \<Rightarrow> RL_NONE | Some i \<Rightarrow> i)"
    by (rule Cons.IH) (use Cons.prems in auto)
  ultimately show ?case by (subst rl_Find_loop.simps) auto
qed

lemma rl_Find_spec:
  assumes ok: "hash_ok rl U" "all_alloc rl U"
  shows "i \<in> U \<Longrightarrow> slot_off (rp rl) i = off \<Longrightarrow> rl_Find off rl = Some i"
    and "off \<notin> slot_off (rp rl) ` U \<Longrightarrow> rl_Find off rl = Some RL_NONE"
proof -
  obtain C where C: "hash_chain rl (hash_of rl off) C" "set C = {i \<in> U. hash_of rl (slot_off (rp rl) i) = hash_of rl off}"
    using hash_okD(7) [OF ok(1)] by blast
  have "rl_Find_loop off (rp rl) (rh_chains rl ! hash_of rl off) =
      Some (case find (\<lambda>i. slot_off (rp rl) i = off) C of None \<Rightarrow> RL_NONE | Some i \<Rightarrow> i)"
    using C ok(2) hash_okD(8,9) [OF ok(1)] unfolding hash_chain_def all_alloc_def by (intro rl_Find_loop_chain) auto
  then have run: "rl_Find off rl = Some (case find (\<lambda>i. slot_off (rp rl) i = off) C of None \<Rightarrow> RL_NONE | Some i \<Rightarrow> i)"
    using hash_okD(1,3,5) [OF ok(1)] hash_okD(6) [OF ok(1), of off] by (simp add: rl_Find_def)
  show "rl_Find off rl = Some RL_NONE" if "off \<notin> slot_off (rp rl) ` U"
  proof -
    have "find (\<lambda>i. slot_off (rp rl) i = off) C = None" using C(2) that by (auto simp: find_None_iff)
    then show ?thesis using run by simp
  qed
  show "rl_Find off rl = Some i" if i: "i \<in> U" "slot_off (rp rl) i = off"
  proof -
    have "i \<in> set C" using C(2) i by simp
    then obtain j where j: "find (\<lambda>i. slot_off (rp rl) i = off) C = Some j"
      using i(2) by (cases "find (\<lambda>i. slot_off (rp rl) i = off) C") (auto simp: find_None_iff)
    then have "j \<in> set C" "slot_off (rp rl) j = off" by (auto simp: find_Some_iff)
    then have "j = i" using C(2) i hash_okD(4) [OF ok(1)] by (auto simp: inj_on_def)
    then show ?thesis using run j by simp
  qed
qed

text \<open>What the hash operations leave alone: every field but the links of the slots in \<open>S\<close> and the chain heads.\<close>

definition links_only :: "nat set \<Rightarrow> RegionList \<Rightarrow> RegionList \<Rightarrow> bool" where
  "links_only S rl rl' \<longleftrightarrow> rl' = rl\<lparr>rp := rp rl', rh_chains := rh_chains rl'\<rparr> \<and> length (rp rl') = length (rp rl) \<and>
     length (rh_chains rl') = length (rh_chains rl) \<and> (\<forall>j. j \<notin> S \<longrightarrow> rp rl' ! j = rp rl ! j) \<and>
     (\<forall>j. slot_off (rp rl') j = slot_off (rp rl) j \<and> rg_extent (rp rl' ! j) = rg_extent (rp rl ! j))"

lemma links_onlyD:
  assumes "links_only S rl rl'"
  shows "rl' = rl\<lparr>rp := rp rl', rh_chains := rh_chains rl'\<rparr>" "length (rp rl') = length (rp rl)" "j \<notin> S \<Longrightarrow> rp rl' ! j = rp rl ! j"
    "slot_off (rp rl') j = slot_off (rp rl) j" "rg_extent (rp rl' ! j) = rg_extent (rp rl ! j)" "length (rh_chains rl') = length (rh_chains rl)"
  using assms unfolding links_only_def by blast+

lemma AddToHash_spec:
  assumes ok: "hash_ok rl U" "all_alloc rl U" and i: "hash_slot rl i" "i \<notin> U" "IsAlloc (rp rl ! i)" "slot_off (rp rl) i \<notin> slot_off (rp rl) ` U"
  shows "\<exists>rl'. AddToHash i rl = Some rl' \<and> hash_ok rl' (insert i U) \<and> all_alloc rl' (insert i U) \<and> links_only (insert i U) rl rl'"
proof -
  define h where "h = hash_of rl (slot_off (rp rl) i)"
  obtain C where C: "hash_chain rl h C" "set C = {j \<in> U. hash_of rl (slot_off (rp rl) j) = h}"
    using hash_okD(7) [OF ok(1)] h_def by blast
  have h: "h < rl_nchains rl" "h < length (rh_chains rl)" using hash_okD(3,6) [OF ok(1)] order.strict_trans2 unfolding h_def by blast+
  have il: "i < length (rp rl)" "i \<noteq> RL_NONE" using hash_okD(9) [OF ok(1) i(1)] by simp_all
  have iC: "i \<notin> set C" using C(2) i(2) by simp
  let ?c = "rh_chains rl ! h"
  have d: "dseg (\<lambda>i. rg_next (rp rl ! i)) (\<lambda>i. rg_prev (rp rl ! i)) RL_NONE ?c C RL_NONE" using C(1) by (simp add: hash_chain_def)
  have c: "?c = hd (C @ [RL_NONE])" by (rule dseg_head [OF d])
  have cin: "?c \<in> set C \<and> ?c < length (rp rl) \<and> ?c \<noteq> RL_NONE \<and> IsAlloc (rp rl ! ?c) \<and> ?c \<noteq> i" if "C \<noteq> []"
  proof -
    have "?c \<in> set C" using c that by simp
    moreover from this have "?c \<in> U" using C(2) by simp
    ultimately show ?thesis using hash_okD(8,9) [OF ok(1)] ok(2) i(2) unfolding all_alloc_def by blast
  qed
  define rps where "rps = (if C = [] then rp rl else (rp rl)[?c := (rp rl ! ?c)\<lparr>rg_prev := i\<rparr>])"
  define rps' where "rps' = rps[i := (rps ! i)\<lparr>rg_next := ?c, rg_prev := RL_NONE\<rparr>]"
  define rl' where "rl' = rl\<lparr>rp := rps', rh_chains := (rh_chains rl)[h := i]\<rparr>"
  have run: "AddToHash i rl = Some rl'"
    using hash_okD(1,5) [OF ok(1)] il i(3) h cin c
    by (cases "C = []") (simp_all add: AddToHash_def h_def [symmetric] rl'_def rps'_def rps_def)
  have len: "length rps' = length (rp rl)" by (simp add: rps'_def rps_def)
  have nx: "(\<lambda>j. rg_next (rps' ! j)) = (\<lambda>j. rg_next (rp rl ! j))(i := ?c)"
    using il cin by (auto simp: fun_eq_iff rps'_def rps_def nth_list_update)
  have pv: "(\<lambda>j. rg_prev (rps' ! j)) = ((if C = [] then (\<lambda>j. rg_prev (rp rl ! j)) else (\<lambda>j. rg_prev (rp rl ! j))(?c := i)))(i := RL_NONE)"
    using il cin by (auto simp: fun_eq_iff rps'_def rps_def nth_list_update)
  have data: "slot_off rps' j = slot_off (rp rl) j \<and> rg_extent (rps' ! j) = rg_extent (rp rl ! j)" for j
    using il cin by (cases "C = []") (auto simp: rps'_def rps_def nth_list_update)
  have other: "rps' ! j = rp rl ! j" if "j \<notin> insert i (set C)" for j
    using that il cin by (cases "C = []") (auto simp: rps'_def rps_def nth_list_update)
  have lo: "links_only (insert i U) rl rl'" using len data other C(2) by (auto simp: links_only_def rl'_def)
  have "dseg (\<lambda>j. rg_next (rps' ! j)) (\<lambda>j. rg_prev (rps' ! j)) RL_NONE i (i # C) RL_NONE"
    unfolding nx pv by (rule dseg_push [OF d iC il(2)])
  then have new: "hash_chain rl' h (i # C)"
    using C h(2) i(1) data by (auto simp: hash_chain_def rl'_def hash_slot_def hash_of_def h_def)
  have "inj_on (slot_off (rp rl')) (insert i U)"
    using hash_okD(4) [OF ok(1)] i(4) data by (simp add: rl'_def inj_on_def) (metis imageI)
  moreover have U: "(U - set C) \<union> set (i # C) = insert i U" using C(2) by auto
  moreover have "rp rl' ! j = rp rl ! j" if "j \<in> U" "hash_of rl (slot_off (rp rl) j) \<noteq> h" for j
    using that C(2) i(2) other [of j] by (auto simp: rl'_def)
  ultimately have "hash_ok rl' ((U - set C) \<union> set (i # C))"
    by (intro hash_ok_step [OF ok(1) h(1) C(1) new]) (simp_all add: rl'_def len same_links_def)
  then have "hash_ok rl' (insert i U)" unfolding U .
  moreover have "all_alloc rl' (insert i U)" using ok(2) i(3) data by (auto simp: all_alloc_def rl'_def IsAlloc_def)
  ultimately show ?thesis using run lo by blast
qed


lemma RemoveFromHash_spec:
  assumes ok: "hash_ok rl U" "all_alloc rl (U - {i})" and i: "i \<in> U"
  shows "\<exists>rl'. RemoveFromHash i rl = Some rl' \<and> hash_ok rl' (U - {i}) \<and> all_alloc rl' (U - {i}) \<and> links_only (U - {i}) rl rl'"
proof -
  define h where "h = hash_of rl (slot_off (rp rl) i)"
  obtain C where C: "hash_chain rl h C" "set C = {j \<in> U. hash_of rl (slot_off (rp rl) j) = h}"
    using hash_okD(7) [OF ok(1)] h_def by blast
  have h: "h < rl_nchains rl" "h < length (rh_chains rl)" using hash_okD(3,6) [OF ok(1)] order.strict_trans2 unfolding h_def by blast+
  obtain xs ys where xy: "C = xs @ i # ys" using C(2) i h_def split_list [of i C] by auto
  let ?c = "rh_chains rl ! h" and ?n = "\<lambda>j. rg_next (rp rl ! j)" and ?p = "\<lambda>j. rg_prev (rp rl ! j)"
  have d: "dseg ?n ?p RL_NONE ?c (xs @ i # ys) RL_NONE" using C(1) xy by (simp add: hash_chain_def)
  have dist: "distinct (xs @ i # ys)" by (rule chain_distinct [OF dseg_chain [OF d]])
  have pi: "?p i = last (RL_NONE # xs)" and ni: "?n i = hd (ys @ [RL_NONE])"
    using d dseg_head [of ?n ?p i "?n i" ys RL_NONE] by (auto simp: dseg_append)
  have bnd: "j < length (rp rl) \<and> j \<noteq> RL_NONE" if "j \<in> set C" for j using that C(2) hash_okD(8,9) [OF ok(1)] by blast
  have il: "i < length (rp rl)" using bnd xy by simp
  have x: "last xs < length (rp rl)" "last xs \<noteq> RL_NONE" "last xs \<noteq> i" "last xs \<in> set C" if "xs \<noteq> []"
    using that bnd [of "last xs"] xy dist last_in_set [OF that] by auto
  have y: "hd ys < length (rp rl)" "hd ys \<noteq> RL_NONE" "hd ys \<noteq> i" "hd ys \<in> set C" if "ys \<noteq> []"
    using that bnd [of "hd ys"] xy dist hd_in_set [OF that] by auto
  have xy': "last xs \<noteq> hd ys" if "xs \<noteq> []" "ys \<noteq> []" using dist that by (metis disjoint_iff distinct_append hd_in_set last_in_set list.set_intros(2))
  have ya: "IsAlloc (rp rl ! hd ys)" if "ys \<noteq> []" using y(3,4) [OF that] C(2) ok(2) by (simp add: all_alloc_def)
  define rps where "rps = (if xs = [] then rp rl else (rp rl)[last xs := (rp rl ! last xs)\<lparr>rg_next := ?n i\<rparr>])"
  define rps' where "rps' = (if ys = [] then rps else rps[hd ys := (rps ! hd ys)\<lparr>rg_prev := ?p i\<rparr>])"
  define rl' where "rl' = rl\<lparr>rp := rps', rh_chains := (if xs = [] then (rh_chains rl)[h := ?n i] else rh_chains rl)\<rparr>"
  have len: "length rps' = length (rp rl)" by (simp add: rps'_def rps_def)
  have run: "RemoveFromHash i rl = Some rl'"
    using il pi ni x y ya xy' h hash_okD(5) [OF ok(1), of "slot_off (rp rl) i"]
    by (cases "xs = []"; cases "ys = []")
       (simp_all add: RemoveFromHash_def Let_def rl'_def rps'_def rps_def h_def [symmetric])
  have nx: "(\<lambda>j. rg_next (rps' ! j)) = (if xs = [] then ?n else ?n(last xs := ?n i))"
    and pv: "(\<lambda>j. rg_prev (rps' ! j)) = (if ys = [] then ?p else ?p(hd ys := ?p i))"
    using xy' by (cases "xs = []"; cases "ys = []"; simp add: fun_eq_iff rps'_def rps_def nth_list_update x(1) y(1))+
  have data: "slot_off rps' j = slot_off (rp rl) j \<and> rg_extent (rps' ! j) = rg_extent (rp rl ! j)" for j
    using xy' by (cases "xs = []"; cases "ys = []") (simp_all add: rps'_def rps_def nth_list_update x(1) y(1))
  have other: "rps' ! j = rp rl ! j" if "j \<notin> set C - {i}" for j
  proof -
    have "xs \<noteq> [] \<Longrightarrow> j \<noteq> last xs" "ys \<noteq> [] \<Longrightarrow> j \<noteq> hd ys" using that x(3,4) y(3,4) by auto
    then show ?thesis by (cases "xs = []"; cases "ys = []") (simp_all add: rps'_def rps_def)
  qed
  have lo: "links_only (U - {i}) rl rl'" using len data other C(2) by (auto simp: links_only_def rl'_def)
  have hd: "rh_chains rl' ! h = (if xs = [] then ?n i else ?c)" using h(2) by (simp add: rl'_def)
  have "dseg (\<lambda>j. rg_next (rps' ! j)) (\<lambda>j. rg_prev (rps' ! j)) RL_NONE (if xs = [] then ?n i else ?c) (xs @ ys) RL_NONE"
    unfolding nx pv by (rule dseg_remove [OF d dist])
  then have new: "hash_chain rl' h (xs @ ys)"
    using C(1) data unfolding hash_chain_def hd by (auto simp: rl'_def hash_slot_def hash_of_def xy)
  have U: "(U - set C) \<union> set (xs @ ys) = U - {i}" using C(2) xy dist i by auto
  have "inj_on (slot_off (rp rl')) (U - {i})" using hash_okD(4) [OF ok(1)] data by (auto simp: rl'_def inj_on_def)
  moreover have "rp rl' ! j = rp rl ! j" if "j \<in> U" "hash_of rl (slot_off (rp rl) j) \<noteq> h" for j
    using that C(2) other [of j] by (simp add: rl'_def)
  ultimately have "hash_ok rl' ((U - set C) \<union> set (xs @ ys))"
    by (intro hash_ok_step [OF ok(1) h(1) C(1) new]) (simp_all add: rl'_def len U same_links_def del: set_append)
  moreover have "all_alloc rl' (U - {i})" using ok(2) data by (auto simp: all_alloc_def rl'_def IsAlloc_def)
  ultimately show ?thesis using run lo unfolding U by blast
qed


subsection \<open>Returning a span to the free space\<close>

definition put_span :: "span \<Rightarrow> span list \<Rightarrow> span list" where
  "put_span s ss = coalesce (takeWhile (\<lambda>t. fst t < fst s) ss) s (dropWhile (\<lambda>t. fst t < fst s) ss)"

definition max_span :: "span list \<Rightarrow> nat" where
  "max_span ss = Max (insert 0 (snd ` set ss))"

definition cover :: "span list \<Rightarrow> int set" where
  "cover ss = (\<Union>s \<in> set ss. {fst s ..< fst s + int (snd s)})"

text \<open>Spans in order, no two of them overlapping; and no two neighbours touching.\<close>

definition in_order :: "span list \<Rightarrow> bool" where
  "in_order ss \<longleftrightarrow> sorted_wrt (\<lambda>s t. fst s + int (snd s) \<le> fst t) ss"

definition joined :: "span list \<Rightarrow> bool" where
  "joined ss \<longleftrightarrow> successively (\<lambda>s t. \<not> adjacent s t) ss"

lemma cover_simps [simp]:
  "cover [] = {}" "cover (s # ss) = {fst s ..< fst s + int (snd s)} \<union> cover ss" "cover (ss @ ts) = cover ss \<union> cover ts"
  by (auto simp: cover_def)

lemma max_span_le: "max_span ss \<le> k \<longleftrightarrow> (\<forall>s \<in> set ss. snd s \<le> k)"
  by (simp add: max_span_def)

lemma max_ext_spans: "max_ext rps (set L) = max_span (spans rps L)"
  unfolding max_ext_def max_span_def spans_def span_of_def by (simp add: image_image)

lemma eat_right_cases:
  obtains "eat_right s rs = (s, rs)" "rs = [] \<or> \<not> adjacent s (hd rs)"
  | t ts where "rs = t # ts" "adjacent s t" "eat_right s rs = ((fst s, snd s + snd t), ts)"
  by (cases rs) auto

lemma eat_left_cases:
  obtains "eat_left ls s = (ls, s)" "ls = [] \<or> \<not> adjacent (last ls) s"
  | t ts where "ls = ts @ [t]" "adjacent t s" "eat_left ls s = (ts, (fst t, snd t + snd s))"
  by (cases ls rule: rev_cases) (auto simp: eat_left_def)

lemma coalesce_max:
  "max_span (coalesce ls s rs) = max (max_span (ls @ rs)) (snd (snd (eat_left ls (fst (eat_right s rs)))))"
proof -
  have "max_span (coalesce ls s rs) \<le> k \<longleftrightarrow> max (max_span (ls @ rs)) (snd (snd (eat_left ls (fst (eat_right s rs))))) \<le> k" for k
    by (rule eat_right_cases [of s rs]; rule eat_left_cases [of ls "fst (eat_right s rs)"])
       (auto simp: coalesce_def max_span_le)
  then show ?thesis by (meson order.antisym order.refl)
qed

lemma coalesce_cover: "cover (coalesce ls s rs) = cover ls \<union> cover [s] \<union> cover rs"
  by (rule eat_right_cases [of s rs]; rule eat_left_cases [of ls "fst (eat_right s rs)"])
     (auto simp: coalesce_def adjacent_def)

lemma coalesce_bytes: "sum_list (map snd (coalesce ls s rs)) = sum_list (map snd ls) + snd s + sum_list (map snd rs)"
  by (rule eat_right_cases [of s rs]; rule eat_left_cases [of ls "fst (eat_right s rs)"])
     (auto simp: coalesce_def)

lemma coalesce_in_order:
  assumes "in_order (ls @ s # rs)"
  shows "in_order (coalesce ls s rs)"
  using assms
  by (rule_tac eat_right_cases [of s rs]; rule_tac eat_left_cases [of ls "fst (eat_right s rs)"])
     (auto simp: coalesce_def in_order_def sorted_wrt_append adjacent_def)

lemma coalesce_joined:
  assumes "joined ls" "joined rs"
  shows "joined (coalesce ls s rs)"
  using assms
  by (rule_tac eat_right_cases [of s rs]; rule_tac eat_left_cases [of ls "fst (eat_right s rs)"])
     (auto simp: coalesce_def joined_def successively_append_iff successively_Cons adjacent_def)

lemma put_span_cover: "cover (put_span s ss) = cover ss \<union> {fst s ..< fst s + int (snd s)}"
proof -
  have "cover ss = cover (takeWhile (\<lambda>t. fst t < fst s) ss) \<union> cover (dropWhile (\<lambda>t. fst t < fst s) ss)"
    by (metis cover_simps(3) takeWhile_dropWhile_id)
  then show ?thesis by (auto simp: put_span_def coalesce_cover)
qed

lemma put_span_bytes: "sum_list (map snd (put_span s ss)) = sum_list (map snd ss) + snd s"
proof -
  have "sum_list (map snd ss) = sum_list (map snd (takeWhile (\<lambda>t. fst t < fst s) ss)) + sum_list (map snd (dropWhile (\<lambda>t. fst t < fst s) ss))"
    by (metis map_append sum_list_append takeWhile_dropWhile_id)
  then show ?thesis by (simp add: put_span_def coalesce_bytes)
qed

lemma put_span_joined: "joined ss \<Longrightarrow> joined (put_span s ss)"
  unfolding put_span_def joined_def using coalesce_joined [unfolded joined_def]
  by (metis successively_append_iff takeWhile_dropWhile_id)


lemma takeWhile_spans:
  assumes "\<And>x. x \<in> set xs \<Longrightarrow> slot_off rps x < off" "\<And>y. y \<in> set ys \<Longrightarrow> off \<le> slot_off rps y"
  shows "takeWhile (\<lambda>t. fst t < off) (spans rps (xs @ ys)) = spans rps xs \<and> dropWhile (\<lambda>t. fst t < off) (spans rps (xs @ ys)) = spans rps ys"
proof -
  have "takeWhile (\<lambda>t. fst t < off) (spans rps ys) = [] \<and> dropWhile (\<lambda>t. fst t < off) (spans rps ys) = spans rps ys"
    using assms(2) [of "hd ys"] by (cases ys) (auto simp: span_of_def)
  moreover have "\<forall>t \<in> set (spans rps xs). fst t < off" using assms(1) by (auto simp: spans_def span_of_def)
  ultimately show ?thesis by (simp add: takeWhile_append2 dropWhile_append2 spans_simps)
qed

lemma rl_core_fields [simp]:
  "rl_core G (rl\<lparr>maxfextent := x\<rparr>) fb A FO hO FE hE E \<longleftrightarrow> rl_core G rl fb A FO hO FE hE E"
  "rl_core G (rl\<lparr>maxfree := x\<rparr>) fb A FO hO FE hE E \<longleftrightarrow> rl_core G rl fb A FO hO FE hE E"
  "rl_core G (rl\<lparr>nbytes := x\<rparr>) fb A FO hO FE hE E \<longleftrightarrow> rl_core G rl fb A FO hO FE hE E"
  "rl_core G (rl\<lparr>rh_chains := ch\<rparr>) fb A FO hO FE hE E \<longleftrightarrow> rl_core G rl fb A FO hO FE hE E"
  by (simp_all add: rl_core_def)

text \<open>A slot that is in use: neither on the free lists nor among the empty slots, and fit to describe a free region.\<close>

definition in_use :: "RegionList \<Rightarrow> nat list \<Rightarrow> nat list \<Rightarrow> nat \<Rightarrow> bool" where
  "in_use rl FO E i \<longleftrightarrow> region_ok (rp rl) (rl_nalloc rl + RL_FREE_OVERHEAD) i \<and> i \<notin> set FO \<and> i \<notin> set E \<and>
     slot_off (rp rl) i \<notin> slot_off (rp rl) ` set FO \<and> 0 < rl_nelems rl"

lemma release_core:
  assumes c: "rl_core G rl fb A FO hO FE hE E" and i: "in_use rl FO E i" and sp: "2 \<le> spares fb"
  shows "\<exists>rl1 fb1 r1 A1 hO1 hE1. ReleaseRegion i (rl\<lparr>rl_nelems := sz_dec (rl_nelems rl)\<rparr>) fb r = Some (0, rl1, fb1, r1) \<and>
    spares fb \<le> spares fb1 + 2 \<and> rl_core G rl1 fb1 A1 (insort_key (slot_off (rp rl)) i FO) hO1 (insort_key (ekey (rp rl)) i FE) hE1 E \<and>
    keeps {i} (rl\<lparr>rl_nelems := rl_nelems rl - 1\<rparr>) rl1 \<and> slot_off (rp rl1) i = slot_off (rp rl) i \<and> rg_extent (rp rl1 ! i) = rg_extent (rp rl ! i)"
proof -
  note C = rl_coreD [OF c] and S = rl_core_sizes [OF c]
  have ne: "0 < rl_nelems rl" using i by (simp add: in_use_def)
  define rl0 where "rl0 = rl\<lparr>rl_nelems := rl_nelems rl - 1\<rparr>"
  have dec: "rl\<lparr>rl_nelems := sz_dec (rl_nelems rl)\<rparr> = rl0"
    using ne S(1,2) by (simp add: rl0_def sz_sub_small [of 1, simplified] Suc_le_eq SIZE_NONE_def)
  have l: "rl_lists G rl0 fb A FO hO FE hE" using C(1) by (simp add: rl0_def)
  have ok: "region_ok (rp rl0) (rl_nalloc rl0 + RL_FREE_OVERHEAD) i" "slot_off (rp rl0) i \<notin> slot_off (rp rl0) ` (set FO \<union> set FE)"
    using i C(2) by (simp_all add: in_use_def rl0_def)
  obtain st rl1 fb1 r1 where run: "ReleaseRegion i rl0 fb r = Some (st, rl1, fb1, r1)"
    and alt: "st \<noteq> 0 \<and> spares fb \<le> 1 \<and> towers_only {i} rl0 rl1 \<and> (\<exists>A' hO'. rl_lists G rl1 fb1 A' FO hO' FE hE) \<or>
     st = 0 \<and> spares fb \<le> spares fb1 + 2 \<and> (\<exists>rl2. towers_only {i} rl0 rl2 \<and> rl1 = rl2\<lparr>rl_nfree := sz_inc (rl_nfree rl0)\<rparr>) \<and>
       (\<exists>A' hO' hE'. rl_lists G rl1 fb1 A' (insort_key (slot_off (rp rl0)) i FO) hO' (insort_key (ekey (rp rl0)) i FE) hE')"
    using ReleaseRegion_spec [OF l ok, of r] by blast
  have rp0: "rp rl0 = rp rl" by (simp add: rl0_def)
  have "st = 0" using alt sp by linarith
  with alt obtain rl2 A' hO' hE' where z: "st = 0" "spares fb \<le> spares fb1 + 2" "towers_only {i} rl0 rl2"
    "rl1 = rl2\<lparr>rl_nfree := sz_inc (rl_nfree rl0)\<rparr>"
    "rl_lists G rl1 fb1 A' (insort_key (slot_off (rp rl)) i FO) hO' (insort_key (ekey (rp rl)) i FE) hE'"
    unfolding rp0 by blast
  note F = towers_only_fields [OF z(3)] and k = towers_only_keeps [OF z(3)]
  have nf: "sz_inc (rl_nfree rl) = Suc (length FO)" using C(7) S(1,3) by (simp add: sz_add_small SIZE_NONE_def)
  have other: "rp rl2 ! j = rp rl ! j" if "j \<noteq> i" for j using keepsD(2) [OF k, of j] that by (simp add: rl0_def)
  have emp: "chain (\<lambda>j. rg_next (rp rl1 ! j)) (rl_empty rl1) E"
    by (simp add: z(4) F rl0_def) (rule chain_next_cong [OF C(3)], rule other, use i in \<open>auto simp: in_use_def\<close>)
  have cnt: "rl_nelems rl - 1 + Suc (length FO) + length E = rl_nalloc rl" using C(6-8) ne by linarith
  have "rl_core G rl1 fb1 A' (insort_key (slot_off (rp rl)) i FO) hO' (insort_key (ekey (rp rl)) i FE) hE' E"
    unfolding rl_core_def using z(5) emp C(2,4-6) i cnt nf
    by (simp add: set_insort_key z(4) F rl0_def in_use_def)
  moreover have "keeps {i} rl0 rl1" using k by (simp add: z(4) keeps_def same_hash_def rl0_def)
  ultimately show ?thesis
    using run z(1,2) towers_onlyD(4,5) [OF z(3), of i] unfolding dec rl0_def [symmetric]
    by (intro exI [of _ rl1] exI [of _ fb1] exI [of _ r1] exI [of _ A'] exI [of _ hO'] exI [of _ hE'] conjI) (simp_all add: z(4) rl0_def)
qed

text \<open>
  What \<open>Put\<close> and \<open>Free\<close> share: the region is returned to the free space, joined with its neighbours, and the largest
  extent is right again.
\<close>

lemma give_back:
  assumes c: "rl_core G rl fb A FO hO FE hE E" and m: "maxfextent rl = max_ext (rp rl) (set FO)"
    and i: "in_use rl FO E i" and sp: "4 \<le> spares fb"
  shows "\<exists>rl1 fb1 r1 rl2 fb2 r2 FO' E'. ReleaseRegion i (rl\<lparr>rl_nelems := sz_dec (rl_nelems rl)\<rparr>) fb r = Some (0, rl1, fb1, r1) \<and>
    Consolidate i rl1 fb1 r1 = Some (rl2, fb2, r2) \<and> rl_inv G rl2 fb2 FO' E' \<and>
    spans (rp rl2) FO' = put_span (span_of (rp rl) i) (spans (rp rl) FO) \<and>
    set FO' \<union> set E' = insert i (set FO \<union> set E) \<and> set FO' \<subseteq> insert i (set FO) \<and>
    length (rp rl2) = length (rp rl) \<and> (\<forall>j. j \<notin> insert i (set FO) \<longrightarrow> rp rl2 ! j = rp rl ! j) \<and> same_hash rl rl2 \<and>
    rl_nelems rl2 = rl_nelems rl - 1 \<and> nbytes rl2 = nbytes rl \<and> maxbytes rl2 = maxbytes rl \<and>
    spares fb \<le> spares fb2 + 4"
proof -
  have ok: "region_ok (rp rl) (rl_nalloc rl + RL_FREE_OVERHEAD) i" using i by (simp add: in_use_def)
  have sp2: "2 \<le> spares fb" using sp by simp
  obtain rl1 fb1 r1 A1 hO1 hE1 where a: "ReleaseRegion i (rl\<lparr>rl_nelems := sz_dec (rl_nelems rl)\<rparr>) fb r = Some (0, rl1, fb1, r1)"
    "spares fb \<le> spares fb1 + 2" "rl_core G rl1 fb1 A1 (insort_key (slot_off (rp rl)) i FO) hO1 (insort_key (ekey (rp rl)) i FE) hE1 E"
    "keeps {i} (rl\<lparr>rl_nelems := rl_nelems rl - 1\<rparr>) rl1" "slot_off (rp rl1) i = slot_off (rp rl) i" "rg_extent (rp rl1 ! i) = rg_extent (rp rl ! i)"
    using release_core [OF c i sp2, of r] by (elim exE conjE) (rule that)
  obtain xs ys where xy: "FO = xs @ ys" "\<And>x. x \<in> set xs \<Longrightarrow> slot_off (rp rl) x < slot_off (rp rl) i"
    "\<And>y. y \<in> set ys \<Longrightarrow> slot_off (rp rl) i \<le> slot_off (rp rl) y"
    by (rule by_key_split [OF rl_listsD(7) [OF rl_coreD(1) [OF c]], of "slot_off (rp rl) i"]) (rule that)
  have ins: "insort_key (slot_off (rp rl)) i FO = xs @ i # ys" unfolding xy(1) by (rule insort_key_split) (use xy(2,3) in auto)
  have sp1: "2 \<le> spares fb1" using sp a(2) by simp
  obtain rl2 fb2 r2 A2 FO' FE' hE' E' x where b: "Consolidate i rl1 fb1 r1 = Some (rl2\<lparr>maxfextent := max (maxfextent rl1) x\<rparr>, fb2, r2)"
    "rl_core G rl2 fb2 A2 FO' hO1 FE' hE' E'" "spans (rp rl2) FO' = coalesce (spans (rp rl1) xs) (span_of (rp rl1) i) (spans (rp rl1) ys)"
    "keeps (set (xs @ i # ys)) rl1 rl2" "set FO' \<union> set E' = set (xs @ i # ys) \<union> set E" "set FO' \<subseteq> set (xs @ i # ys)"
    "x = snd (snd (eat_left (spans (rp rl1) xs) (fst (eat_right (span_of (rp rl1) i) (spans (rp rl1) ys)))))" "spares fb1 \<le> spares fb2 + 2"
    using Consolidate_spec [OF a(3) [unfolded ins] sp1, of r1] by (elim exE conjE) (rule that)
  note K = keepsD [OF a(4), simplified] and L = keepsD [OF b(4)]
  have ni: "i \<notin> set xs" "i \<notin> set ys" using i xy(1) by (auto simp: in_use_def)
  have sp3: "spans (rp rl1) xs = spans (rp rl) xs" "spans (rp rl1) ys = spans (rp rl) ys"
    by (rule spans_cong, rule K(2), use ni in auto)+
  have si: "span_of (rp rl1) i = span_of (rp rl) i" using a(5,6) by (simp add: span_of_def GetExtent_def)
  have put: "spans (rp rl2) FO' = put_span (span_of (rp rl) i) (spans (rp rl) FO)"
    using takeWhile_spans [of xs "rp rl" "slot_off (rp rl) i" ys, OF xy(2,3)] unfolding b(3) sp3 si put_span_def xy(1)
    by (simp add: span_of_def)
  have "max_ext (rp rl2) (set FO') = max (maxfextent rl1) x"
    using keepsD(5) [OF a(4)] m unfolding max_ext_spans b(3,7) coalesce_max sp3 si xy(1) by simp
  then have inv: "rl_inv G (rl2\<lparr>maxfextent := max (maxfextent rl1) x\<rparr>) fb2 FO' E'"
    using b(2) unfolding rl_inv_def by (intro conjI exI [of _ A2] exI [of _ hO1] exI [of _ FE'] exI [of _ hE']) simp_all
  have other: "rp rl2 ! j = rp rl ! j" if "j \<notin> insert i (set FO)" for j using that K(2) [of j] L(2) [of j] xy(1) by simp
  have "set FO' \<union> set E' = insert i (set FO \<union> set E)" "set FO' \<subseteq> insert i (set FO)" using b(5,6) xy(1) by auto
  moreover have "same_hash rl (rl2\<lparr>maxfextent := max (maxfextent rl1) x\<rparr>)" using K(3) L(3) by (simp add: same_hash_def)
  moreover have "length (rp rl2) = length (rp rl)" "rl_nelems rl2 = rl_nelems rl - 1" "nbytes rl2 = nbytes rl" "maxbytes rl2 = maxbytes rl"
    using K(1,4,6,7) L(1,4,6,7) by simp_all
  moreover have "spares fb \<le> spares fb2 + 4" using a(2) b(8) by simp
  ultimately show ?thesis using a(1) b(1) inv put other
    by (intro exI [of _ rl1] exI [of _ fb1] exI [of _ r1] exI [of _ "rl2\<lparr>maxfextent := max (maxfextent rl1) x\<rparr>"] exI [of _ fb2] exI [of _ r2]
        exI [of _ FO'] exI [of _ E'] conjI) simp_all
qed


lemma rl_inv_maxfree [simp]: "rl_inv G (rl\<lparr>maxfree := x\<rparr>) fb FO E \<longleftrightarrow> rl_inv G rl fb FO E"
  by (simp add: rl_inv_def)

lemma rl_invD:
  assumes "rl_inv G rl fb FO E"
  obtains A hO FE hE where "rl_core G rl fb A FO hO FE hE E" "maxfextent rl = max_ext (rp rl) (set FO)"
  using assms unfolding rl_inv_def by blast

lemma rl_inv_count: "rl_inv G rl fb FO E \<Longrightarrow> rl_nelems rl + rl_nfree rl + nempty rl = rl_nalloc rl"
  by (auto simp: rl_inv_def rl_core_def)

lemma GetExtent_even [simp]: "even (GetExtent r)" "GetExtent (r\<lparr>rg_extent := GetExtent r'\<rparr>) = GetExtent r'"
  by (simp_all add: GetExtent_def)

lemma hash_ok_finite: "hash_ok rl U \<Longrightarrow> finite U"
  using finite_subset [of U "{..< length (rp rl)}"] hash_okD(8,9) by blast

lemma rl_core_cong:
  assumes c: "rl_core G rl fb A FO hO FE hE E" and same: "\<And>x. x < 4 \<or> x \<in> set FO \<union> set E \<Longrightarrow> rps ! x = rp rl ! x"
    and len: "length rps = length (rp rl)"
  shows "rl_core G (rl\<lparr>rp := rps\<rparr>) fb A FO hO FE hE E"
proof -
  note C = rl_coreD [OF c]
  have "rl_lists G (rl\<lparr>rp := rps\<rparr>) fb A FO hO FE hE" by (rule rl_lists_cong [OF C(1) _ len]) (use same C(2) in auto)
  moreover have "chain (\<lambda>i. rg_next (rps ! i)) (rl_empty rl) E" by (rule chain_next_cong [OF C(3)]) (use same in auto)
  ultimately show ?thesis using C unfolding rl_core_def by simp
qed

lemma ClearAlloc_links: "same_links (rps[i := ClearAlloc (rps ! i)] ! j) (rps ! j)"
  by (cases "i < length rps"; cases "j = i") (simp_all add: same_links_def ClearAlloc_def list_update_beyond)

subsection \<open>The data section is partitioned into regions\<close>

definition reg :: "Region list \<Rightarrow> nat \<Rightarrow> int set" where
  "reg rps i = {slot_off rps i ..< slot_off rps i + int (slot_ext rps i)}"

definition space_ok :: "Region list \<Rightarrow> nat set \<Rightarrow> int set \<Rightarrow> bool" where
  "space_ok rps S D \<longleftrightarrow> (\<forall>i \<in> S. 0 < slot_ext rps i) \<and> (\<forall>i \<in> S. \<forall>j \<in> S. i \<noteq> j \<longrightarrow> reg rps i \<inter> reg rps j = {}) \<and>
     (\<Union>i \<in> S. reg rps i) = D"

lemma space_okD:
  assumes "space_ok rps S D"
  shows "i \<in> S \<Longrightarrow> 0 < slot_ext rps i" "i \<in> S \<Longrightarrow> j \<in> S \<Longrightarrow> i \<noteq> j \<Longrightarrow> reg rps i \<inter> reg rps j = {}" "i \<in> S \<Longrightarrow> reg rps i \<subseteq> D"
    "(\<Union>i \<in> S. reg rps i) = D"
  using assms unfolding space_ok_def by blast+

lemma space_ok_cong:
  assumes "space_ok rps S D" "\<And>i. i \<in> S \<Longrightarrow> span_of rps' i = span_of rps i"
  shows "space_ok rps' S D"
proof -
  have "slot_ext rps' i = slot_ext rps i" "reg rps' i = reg rps i" if "i \<in> S" for i
    using assms(2) [OF that] by (simp_all add: span_of_def reg_def)
  then show ?thesis using assms(1) unfolding space_ok_def by simp
qed

lemma space_ok_off:
  assumes "space_ok rps S D" "i \<in> S" "j \<in> S" "slot_off rps i = slot_off rps j"
  shows "i = j"
proof (rule ccontr)
  assume "i \<noteq> j"
  then have "reg rps i \<inter> reg rps j = {}" using space_okD(2) assms by blast
  moreover have "slot_off rps i \<in> reg rps i" "slot_off rps i \<in> reg rps j"
    using space_okD(1) [OF assms(1)] assms(2-4) by (simp_all add: reg_def)
  ultimately show False by blast
qed

lemma cover_spans: "cover (spans rps L) = (\<Union>i \<in> set L. reg rps i)"
  by (simp add: cover_def spans_def span_of_def reg_def)

lemma sorted_spans:
  assumes "by_key (slot_off rps) FO" "space_ok rps (set FO) D"
  shows "in_order (spans rps FO)"
  using assms
proof (induction FO arbitrary: D)
  case (Cons i FO)
  note sp = space_okD [OF Cons.prems(2)]
  have "space_ok rps (set FO) (\<Union>j \<in> set FO. reg rps j)" using Cons.prems(2) by (auto simp: space_ok_def)
  then have "in_order (spans rps FO)" using Cons by simp
  moreover have "slot_off rps i + int (slot_ext rps i) \<le> slot_off rps j" if j: "j \<in> set FO" for j
  proof (rule ccontr)
    assume n: "\<not> slot_off rps i + int (slot_ext rps i) \<le> slot_off rps j"
    have lt: "slot_off rps i < slot_off rps j" using Cons.prems(1) j by simp
    then have "slot_off rps j \<in> reg rps i" using n by (simp add: reg_def)
    moreover have "slot_off rps j \<in> reg rps j" using sp(1) [of j] j by (simp add: reg_def)
    ultimately show False using sp(2) [of i j] lt j by auto
  qed
  ultimately show ?case by (auto simp: in_order_def spans_def span_of_def)
qed (simp add: in_order_def)

text \<open>A list of spans in order is a partition of what it covers.\<close>

lemma in_order_space:
  assumes "in_order (spans rps L)" "\<And>s. s \<in> set (spans rps L) \<Longrightarrow> 0 < snd s" "distinct L"
  shows "space_ok rps (set L) (cover (spans rps L))"
proof -
  have pos: "0 < slot_ext rps i" if "i \<in> set L" for i using assms(2) [of "span_of rps i"] that by (auto simp: spans_def span_of_def)
  have "sorted_wrt (\<lambda>i j. slot_off rps i + int (slot_ext rps i) \<le> slot_off rps j) L"
    using assms(1) by (simp add: in_order_def spans_def sorted_wrt_map span_of_def)
  then have "\<forall>i \<in> set L. \<forall>j \<in> set L. i \<noteq> j \<longrightarrow> reg rps i \<inter> reg rps j = {}"
    by (induction L) (auto simp: reg_def)
  then show ?thesis using pos unfolding space_ok_def cover_spans by blast
qed

lemma space_ok_Un:
  assumes "space_ok rps S D" "space_ok rps T D'" "D \<inter> D' = {}"
  shows "space_ok rps (S \<union> T) (D \<union> D')"
proof -
  have "reg rps i \<inter> reg rps j = {}" if "i \<in> S" "j \<in> T" for i j
    using space_okD(3) [OF assms(1) that(1)] space_okD(3) [OF assms(2) that(2)] assms(3) by blast
  then show ?thesis using assms(1,2) unfolding space_ok_def by blast
qed

lemma space_ok_sub:
  assumes "space_ok rps (S \<union> T) D" "S \<inter> T = {}"
  shows "space_ok rps S (\<Union>i \<in> S. reg rps i)" "(\<Union>i \<in> S. reg rps i) \<inter> (\<Union>i \<in> T. reg rps i) = {}"
    "D = (\<Union>i \<in> S. reg rps i) \<union> (\<Union>i \<in> T. reg rps i)"
proof -
  show "space_ok rps S (\<Union>i \<in> S. reg rps i)" using assms(1) unfolding space_ok_def by blast
  have "reg rps i \<inter> reg rps j = {}" if "i \<in> S" "j \<in> T" for i j
    by (rule space_okD(2) [OF assms(1)]) (use that assms(2) in auto)
  then show "(\<Union>i \<in> S. reg rps i) \<inter> (\<Union>i \<in> T. reg rps i) = {}" by blast
  show "D = (\<Union>i \<in> S. reg rps i) \<union> (\<Union>i \<in> T. reg rps i)" using space_okD(4) [OF assms(1)] by blast
qed


subsection \<open>The whole table\<close>

text \<open>
  \<open>FO\<close> are the slots of the free regions by offset, \<open>E\<close> the empty slots, \<open>U\<close> the slots of the allocated regions in
  the hash table and \<open>W\<close> those that were taken from the free space and are not yet in the hash table. The regions of
  \<open>FO\<close>, \<open>U\<close> and \<open>W\<close> partition the data section \<open>D\<close>.
\<close>

definition rl_table :: "guests \<Rightarrow> RegionList \<Rightarrow> FreeBlock \<Rightarrow> nat list \<Rightarrow> nat list \<Rightarrow> nat set \<Rightarrow> nat set \<Rightarrow> int set \<Rightarrow> bool" where
  "rl_table G rl fb FO E U W D \<longleftrightarrow> rl_inv G rl fb FO E \<and> hash_ok rl U \<and> all_alloc rl U \<and>
     (\<forall>i \<in> W. hash_slot rl i \<and> IsFree (rp rl ! i)) \<and> finite W \<and> U \<inter> W = {} \<and> (U \<union> W) \<inter> (set FO \<union> set E) = {} \<and>
     space_ok (rp rl) (set FO \<union> (U \<union> W)) D \<and> D \<subseteq> {0 ..< huge_off_t} \<and> card U + card W = rl_nelems rl"

lemma rl_tableD:
  assumes "rl_table G rl fb FO E U W D"
  shows "rl_inv G rl fb FO E" "hash_ok rl U" "all_alloc rl U" "i \<in> W \<Longrightarrow> hash_slot rl i" "i \<in> W \<Longrightarrow> IsFree (rp rl ! i)"
    "finite W" "U \<inter> W = {}" "(U \<union> W) \<inter> (set FO \<union> set E) = {}" "space_ok (rp rl) (set FO \<union> (U \<union> W)) D" "D \<subseteq> {0 ..< huge_off_t}"
    "card U + card W = rl_nelems rl" "finite U"
  using assms hash_ok_finite unfolding rl_table_def by blast+

lemma hash_fields [simp]:
  "hash_ok (rl\<lparr>maxfree := x\<rparr>) U \<longleftrightarrow> hash_ok rl U" "hash_ok (rl\<lparr>nbytes := x\<rparr>) U \<longleftrightarrow> hash_ok rl U"
  "all_alloc (rl\<lparr>maxfree := x\<rparr>) U \<longleftrightarrow> all_alloc rl U" "hash_slot (rl\<lparr>maxfree := x\<rparr>) i \<longleftrightarrow> hash_slot rl i"
  by (simp_all add: hash_ok_def all_alloc_def hash_chain_def hash_slot_def hash_of_def)

lemma rl_table_maxfree [simp]: "rl_table G (rl\<lparr>maxfree := x\<rparr>) fb FO E U W D \<longleftrightarrow> rl_table G rl fb FO E U W D"
  by (simp add: rl_table_def)

lemma table_bounds:
  assumes t: "rl_table G rl fb FO E U W D" and i: "i \<in> set FO \<union> (U \<union> W)"
  shows "0 \<le> slot_off (rp rl) i" "slot_off (rp rl) i + int (slot_ext (rp rl) i) \<le> huge_off_t"
proof -
  note T = rl_tableD [OF t]
  have "0 < slot_ext (rp rl) i" by (rule space_okD(1) [OF T(9) i])
  then have "slot_off (rp rl) i \<in> reg (rp rl) i" "slot_off (rp rl) i + int (slot_ext (rp rl) i) - 1 \<in> reg (rp rl) i"
    by (simp_all add: reg_def)
  moreover have "reg (rp rl) i \<subseteq> {0 ..< huge_off_t}" using space_okD(3) [OF T(9) i] T(10) by blast
  ultimately have "slot_off (rp rl) i \<in> {0 ..< huge_off_t}" "slot_off (rp rl) i + int (slot_ext (rp rl) i) - 1 \<in> {0 ..< huge_off_t}" by blast+
  then show "0 \<le> slot_off (rp rl) i" "slot_off (rp rl) i + int (slot_ext (rp rl) i) \<le> huge_off_t" by simp_all
qed

lemma table_slot:
  assumes t: "rl_table G rl fb FO E U W D" and i: "i \<in> U \<union> W"
  shows "hash_slot rl i" "i < length (rp rl)" "i \<noteq> RL_NONE" "4 \<le> i"
proof -
  note T = rl_tableD [OF t]
  show h: "hash_slot rl i" using i hash_okD(8) [OF T(2)] T(4) by blast
  show "i < length (rp rl)" "i \<noteq> RL_NONE" using hash_okD(9) [OF T(2) h] by simp_all
  show "4 \<le> i" using h by (simp add: hash_slot_def)
qed

text \<open>Rewriting busy slots without touching offsets and extents.\<close>

lemma table_recolor:
  assumes t: "rl_table G rl fb FO E U W D" and eq: "rl' = rl\<lparr>rp := rp rl', nbytes := nbytes rl', rh_chains := rh_chains rl'\<rparr>"
    and len: "length (rp rl') = length (rp rl)" and h: "hash_ok rl' U'" "all_alloc rl' U'" and w: "\<And>i. i \<in> W' \<Longrightarrow> IsFree (rp rl' ! i)"
    and UW: "U' \<union> W' = U \<union> W" "U' \<inter> W' = {}"
    and other: "\<And>x. x \<notin> U \<union> W \<Longrightarrow> rp rl' ! x = rp rl ! x" and sp: "\<And>x. span_of (rp rl') x = span_of (rp rl) x"
  shows "rl_table G rl' fb FO E U' W' D"
proof -
  note T = rl_tableD [OF t]
  obtain A hO FE hE where c: "rl_core G rl fb A FO hO FE hE E" and m: "maxfextent rl = max_ext (rp rl) (set FO)" using rl_invD [OF T(1)] .
  have same: "rp rl' ! x = rp rl ! x" if "x < 4 \<or> x \<in> set FO \<union> set E" for x
  proof (rule other)
    show "x \<notin> U \<union> W" using that T(8) table_slot(4) [OF t, of x] by (meson disjoint_iff not_le)
  qed
  have "rl_core G (rl\<lparr>rp := rp rl'\<rparr>) fb A FO hO FE hE E" by (rule rl_core_cong [OF c same len])
  then have c': "rl_core G rl' fb A FO hO FE hE E" by (subst eq) (simp only: rl_core_fields)
  have "max_ext (rp rl') (set FO) = max_ext (rp rl) (set FO)" using sp by (simp add: max_ext_def span_of_def)
  then have inv: "rl_inv G rl' fb FO E" using c' m arg_cong [OF eq, of maxfextent] unfolding rl_inv_def by auto
  have n: "rl_nalloc rl' = rl_nalloc rl" "rl_nelems rl' = rl_nelems rl" using arg_cong [OF eq, of rl_nalloc] arg_cong [OF eq, of rl_nelems] by simp_all
  have fin: "finite U'" "finite W'" using T(6,12) UW(1) by (metis finite_Un)+
  have "card U' + card W' = card (U \<union> W)" using UW fin by (metis card_Un_disjoint)
  also have "\<dots> = rl_nelems rl'" using T(6,7,11,12) n(2) by (simp add: card_Un_disjoint)
  finally have cnt: "card U' + card W' = rl_nelems rl'" .
  have "hash_slot rl' i" if "i \<in> W'" for i
  proof -
    have "i \<in> U \<union> W" using that UW(1) by blast
    then show ?thesis using table_slot(1) [OF t] n(1) by (simp add: hash_slot_def)
  qed
  then have "\<forall>i \<in> W'. hash_slot rl' i \<and> IsFree (rp rl' ! i)" using w by simp
  moreover have "space_ok (rp rl') (set FO \<union> (U' \<union> W')) D" unfolding UW(1) by (rule space_ok_cong [OF T(9) sp])
  ultimately show ?thesis using inv h fin(2) UW(2) T(8,10) cnt unfolding rl_table_def UW(1) by blast
qed

text \<open>Returning a taken region to the free space.\<close>

lemma table_in_use:
  assumes t: "rl_table G rl fb FO E U W D" and i: "i \<in> W"
  shows "in_use rl FO E i"
proof -
  note T = rl_tableD [OF t]
  have "even (rg_extent (rp rl ! i))" using T(5) [OF i] by (simp add: IsFree_def IsAlloc_def)
  then have "region_ok (rp rl) (rl_nalloc rl + RL_FREE_OVERHEAD) i"
    using table_bounds [OF t, of i] T(4) [OF i] i by (auto simp: region_ok_def hash_slot_def GetExtent_def)
  moreover have "slot_off (rp rl) i \<notin> slot_off (rp rl) ` set FO"
    using space_ok_off [OF T(9), of i] i T(8) by blast
  moreover have "0 < rl_nelems rl" using T(6,11) i card_gt_0_iff [of W] by auto
  ultimately show ?thesis using T(8) i unfolding in_use_def by blast
qed

lemma coalesce_pos:
  assumes "\<forall>t \<in> set (ls @ s # rs). 0 < snd t"
  shows "\<forall>t \<in> set (coalesce ls s rs). 0 < snd t"
  using assms
  by (rule_tac eat_right_cases [of s rs]; rule_tac eat_left_cases [of ls "fst (eat_right s rs)"]) (auto simp: coalesce_def)


lemma table_put_space:
  assumes t: "rl_table G rl fb FO E U {i} D" and FO: "by_key (slot_off (rp rl)) FO"
  shows "in_order (put_span (span_of (rp rl) i) (spans (rp rl) FO))" "\<forall>s \<in> set (put_span (span_of (rp rl) i) (spans (rp rl) FO)). 0 < snd s"
proof -
  note T = rl_tableD [OF t]
  let ?off = "slot_off (rp rl) i"
  have ni: "i \<notin> set FO" "?off \<notin> slot_off (rp rl) ` set FO" using table_in_use [OF t, of i] by (simp_all add: in_use_def)
  obtain xs ys where xy: "FO = xs @ ys" "\<And>x. x \<in> set xs \<Longrightarrow> slot_off (rp rl) x < ?off" "\<And>y. y \<in> set ys \<Longrightarrow> ?off \<le> slot_off (rp rl) y"
    by (rule by_key_split [OF FO, of ?off]) (rule that)
  have "?off < slot_off (rp rl) y" if "y \<in> set ys" for y using xy(1,3) that ni(2) by (metis UnCI image_eqI order_le_less set_append)
  then have "by_key (slot_off (rp rl)) (xs @ i # ys)" using FO xy(1,2) by (force simp: less_trans)
  moreover have "set FO \<union> (U \<union> {i}) = set (xs @ i # ys) \<union> U" using xy(1) by auto
  then have sub: "space_ok (rp rl) (set (xs @ i # ys) \<union> U) D" using T(9) by simp
  have "set (xs @ i # ys) \<inter> U = {}" using T(7,8) xy(1) by auto
  from space_ok_sub(1) [OF sub this] have sp: "space_ok (rp rl) (set (xs @ i # ys)) (\<Union>j \<in> set (xs @ i # ys). reg (rp rl) j)" .
  ultimately have "in_order (spans (rp rl) (xs @ i # ys))" by (rule sorted_spans)
  then have "in_order (coalesce (spans (rp rl) xs) (span_of (rp rl) i) (spans (rp rl) ys))" by (simp add: coalesce_in_order)
  moreover have "\<forall>s \<in> set (coalesce (spans (rp rl) xs) (span_of (rp rl) i) (spans (rp rl) ys)). 0 < snd s"
    using space_okD(1) [OF sp] by (intro coalesce_pos) (auto simp: spans_def span_of_def)
  moreover have "put_span (span_of (rp rl) i) (spans (rp rl) FO) = coalesce (spans (rp rl) xs) (span_of (rp rl) i) (spans (rp rl) ys)"
    using takeWhile_spans [of xs "rp rl" ?off ys, OF xy(2,3)] unfolding put_span_def xy(1) by (simp add: span_of_def)
  ultimately show "in_order (put_span (span_of (rp rl) i) (spans (rp rl) FO))" "\<forall>s \<in> set (put_span (span_of (rp rl) i) (spans (rp rl) FO)). 0 < snd s"
    by simp_all
qed

lemma table_give:
  assumes t: "rl_table G rl fb FO E U {i} D" and sp: "4 \<le> spares fb"
  shows "\<exists>rl1 fb1 r1 rl2 fb2 r2 FO' E'. ReleaseRegion i (rl\<lparr>rl_nelems := sz_dec (rl_nelems rl)\<rparr>) fb r = Some (0, rl1, fb1, r1) \<and>
    Consolidate i rl1 fb1 r1 = Some (rl2, fb2, r2) \<and> rl_table G rl2 fb2 FO' E' U {} D \<and>
    spans (rp rl2) FO' = put_span (span_of (rp rl) i) (spans (rp rl) FO) \<and> (\<forall>j \<in> U. span_of (rp rl2) j = span_of (rp rl) j) \<and>
    rl_nalloc rl2 = rl_nalloc rl \<and> nbytes rl2 = nbytes rl \<and> maxbytes rl2 = maxbytes rl \<and>
    spares fb \<le> spares fb2 + 4"
proof -
  note T = rl_tableD [OF t]
  obtain A hO FE hE where c: "rl_core G rl fb A FO hO FE hE E" "maxfextent rl = max_ext (rp rl) (set FO)" using rl_invD [OF T(1)] .
  have iu: "in_use rl FO E i" by (rule table_in_use [OF t]) simp
  obtain rl1 fb1 r1 rl2 fb2 r2 FO' E' where g:
    "ReleaseRegion i (rl\<lparr>rl_nelems := sz_dec (rl_nelems rl)\<rparr>) fb r = Some (0, rl1, fb1, r1)" "Consolidate i rl1 fb1 r1 = Some (rl2, fb2, r2)"
    "rl_inv G rl2 fb2 FO' E'" "spans (rp rl2) FO' = put_span (span_of (rp rl) i) (spans (rp rl) FO)"
    "set FO' \<union> set E' = insert i (set FO \<union> set E)" "set FO' \<subseteq> insert i (set FO)" "length (rp rl2) = length (rp rl)"
    "\<forall>j. j \<notin> insert i (set FO) \<longrightarrow> rp rl2 ! j = rp rl ! j" "same_hash rl rl2" "rl_nelems rl2 = rl_nelems rl - 1" "nbytes rl2 = nbytes rl"
    "maxbytes rl2 = maxbytes rl" "spares fb \<le> spares fb2 + 4"
    using give_back [OF c iu sp, of r] by (elim exE conjE) (rule that)
  have u: "rp rl2 ! j = rp rl ! j" if "j \<in> U" for j
  proof -
    have "j \<notin> insert i (set FO)" using that T(7,8) by blast
    then show ?thesis using g(8) by blast
  qed
  have spu: "span_of (rp rl2) j = span_of (rp rl) j" if "j \<in> U" for j using u [OF that] by (simp add: span_of_def)
  have h: "hash_ok rl2 U" by (rule hash_ok_keeps [OF T(2) g(9,7)]) (use u in \<open>auto simp: same_links_def\<close>)
  have al: "all_alloc rl2 U" using T(3) u unfolding all_alloc_def by simp
  obtain A' hO' FE' hE' where c': "rl_core G rl2 fb2 A' FO' hO' FE' hE' E'" using rl_invD [OF g(3)] .
  note P = table_put_space [OF t rl_listsD(7) [OF rl_coreD(1) [OF c(1)]], folded g(4)]
  have free: "space_ok (rp rl2) (set FO') (cover (spans (rp rl2) FO'))"
    by (rule in_order_space [OF P(1)]) (use P(2) rl_core_sizes(5) [OF c'] in auto)
  have ni: "set FO \<union> (U \<union> {i}) = U \<union> insert i (set FO)" "U \<inter> insert i (set FO) = {}" using T(7,8) by auto
  note S = space_ok_sub [OF T(9) [unfolded ni(1)] ni(2)]
  have regs: "reg (rp rl2) j = reg (rp rl) j" if "j \<in> U" for j using spu [OF that] by (simp add: span_of_def reg_def)
  have busy: "space_ok (rp rl2) U (\<Union>j \<in> U. reg (rp rl) j)" by (rule space_ok_cong [OF S(1) spu])
  have cov: "cover (spans (rp rl2) FO') = (\<Union>j \<in> insert i (set FO). reg (rp rl) j)"
    unfolding g(4) put_span_cover cover_spans by (auto simp: reg_def span_of_def)
  have dj: "cover (spans (rp rl2) FO') \<inter> (\<Union>j \<in> U. reg (rp rl) j) = {}" unfolding cov using S(2) by (simp only: Int_commute)
  have "D = cover (spans (rp rl2) FO') \<union> (\<Union>j \<in> U. reg (rp rl) j)" using S(3) cov by (simp only: Un_commute)
  then have "space_ok (rp rl2) (set FO' \<union> (U \<union> {})) D" using space_ok_Un [OF free busy dj] by simp
  moreover have "(U \<union> {}) \<inter> (set FO' \<union> set E') = {}" unfolding g(5) using T(7,8) by blast
  moreover have "card U + card {} = rl_nelems rl2" using T(11) g(10) by simp
  ultimately have "rl_table G rl2 fb2 FO' E' U {} D" using g(3) h al T(10) unfolding rl_table_def by blast
  then show ?thesis using g(1,2,4,9,11,12,13) spu unfolding same_hash_def by blast
qed


lemma rl_Put_spec:
  assumes t: "rl_table G rl fb FO E U {i} D" and i: "i < rl_nalloc rl" and sp: "4 \<le> spares fb"
  shows "\<exists>rl' fb' r' FO' E'. rl_Put i rl fb r = Some (rl', fb', r') \<and> rl_table G rl' fb' FO' E' U {} D \<and>
    spans (rp rl') FO' = put_span (span_of (rp rl) i) (spans (rp rl) FO) \<and> (\<forall>j \<in> U. span_of (rp rl') j = span_of (rp rl) j) \<and>
    rl_nalloc rl' = rl_nalloc rl \<and> nbytes rl' = nbytes rl \<and> maxbytes rl' = maxbytes rl \<and> spares fb \<le> spares fb' + 4"
proof -
  obtain rl1 fb1 r1 rl2 fb2 r2 FO' E' where g:
    "ReleaseRegion i (rl\<lparr>rl_nelems := sz_dec (rl_nelems rl)\<rparr>) fb r = Some (0, rl1, fb1, r1)" "Consolidate i rl1 fb1 r1 = Some (rl2, fb2, r2)"
    "rl_table G rl2 fb2 FO' E' U {} D" "spans (rp rl2) FO' = put_span (span_of (rp rl) i) (spans (rp rl) FO)"
    "\<forall>j \<in> U. span_of (rp rl2) j = span_of (rp rl) j" "rl_nalloc rl2 = rl_nalloc rl" "nbytes rl2 = nbytes rl" "maxbytes rl2 = maxbytes rl"
    "spares fb \<le> spares fb2 + 4"
    using table_give [OF t sp, of r] by (elim exE conjE) (rule that)
  have "rl_Put i rl fb r = Some (rl2\<lparr>maxfree := max (rl_nfree rl2) (maxfree rl2)\<rparr>, fb2, r2)"
    using g(1,2) i rl_inv_count [OF rl_tableD(1) [OF g(3)]] by (simp add: rl_Put_def)
  then show ?thesis using g(3-)
    by (rule_tac exI [of _ "rl2\<lparr>maxfree := max (rl_nfree rl2) (maxfree rl2)\<rparr>"], rule_tac exI [of _ fb2], rule_tac exI [of _ r2],
        rule_tac exI [of _ FO'], rule_tac exI [of _ E']) simp
qed

text \<open>\<open>Free\<close> clears the allocation bit and takes the region out of the hash table before it returns it.\<close>

lemma unhash_table:
  assumes t: "rl_table G rl fb FO E U {} D" and i: "i \<in> U"
  defines "rl0 \<equiv> rl\<lparr>rp := (rp rl)[i := ClearAlloc (rp rl ! i)], nbytes := sz_sub (nbytes rl) (slot_ext (rp rl) i)\<rparr>"
  shows "\<exists>rl1. RemoveFromHash i rl0 = Some rl1 \<and> rl_table G rl1 fb FO E (U - {i}) {i} D \<and> (\<forall>j. span_of (rp rl1) j = span_of (rp rl) j) \<and>
    nbytes rl1 = sz_sub (nbytes rl) (slot_ext (rp rl) i) \<and> maxbytes rl1 = maxbytes rl \<and> rl_nalloc rl1 = rl_nalloc rl"
proof -
  note T = rl_tableD [OF t]
  have ib: "i < length (rp rl)" using table_slot(2) [OF t] i by blast
  have d0: "slot_off (rp rl0) j = slot_off (rp rl) j" "slot_ext (rp rl0) j = slot_ext (rp rl) j" "j \<noteq> i \<Longrightarrow> rp rl0 ! j = rp rl ! j" for j
    using ib by (cases "j = i"; simp add: rl0_def ClearAlloc_def)+
  have h0: "hash_ok rl0 U" by (rule hash_ok_keeps [OF T(2)]) (simp_all add: rl0_def same_hash_def ClearAlloc_links)
  have a0: "all_alloc rl0 (U - {i})" using T(3) d0(3) by (simp add: all_alloc_def)
  obtain rl1 where r: "RemoveFromHash i rl0 = Some rl1" "hash_ok rl1 (U - {i})" "all_alloc rl1 (U - {i})" "links_only (U - {i}) rl0 rl1"
    using RemoveFromHash_spec [OF h0 a0 i] by blast
  note L = links_onlyD [OF r(4)]
  have len: "length (rp rl1) = length (rp rl)" using L(2) by (simp add: rl0_def)
  have sp: "span_of (rp rl1) j = span_of (rp rl) j" for j
    using L(4,5) [of j] d0(1,2) [of j] by (simp add: span_of_def GetExtent_def)
  have other: "rp rl1 ! j = rp rl ! j" if "j \<notin> U" for j using that i L(3) [of j] d0(3) [of j] by (metis DiffD1)
  have "rg_extent (rp rl1 ! i) = slot_ext (rp rl) i" using L(5) [of i] ib by (simp add: rl0_def ClearAlloc_def)
  then have fr: "IsFree (rp rl1 ! j)" if "j \<in> {i}" for j using that by (simp add: IsFree_def IsAlloc_def)
  have e: "nbytes rl1 = sz_sub (nbytes rl) (slot_ext (rp rl) i)" "maxbytes rl1 = maxbytes rl" "rl_nalloc rl1 = rl_nalloc rl"
    using arg_cong [OF L(1), of nbytes] arg_cong [OF L(1), of maxbytes] arg_cong [OF L(1), of rl_nalloc] by (simp_all add: rl0_def)
  have "rl1 = rl0\<lparr>rp := rp rl1, rh_chains := rh_chains rl1\<rparr>" by (rule L(1))
  also have "\<dots> = rl\<lparr>rp := rp rl1, nbytes := nbytes rl1, rh_chains := rh_chains rl1\<rparr>" unfolding e(1) by (simp add: rl0_def)
  finally have eq: "rl1 = rl\<lparr>rp := rp rl1, nbytes := nbytes rl1, rh_chains := rh_chains rl1\<rparr>" .
  have "rl_table G rl1 fb FO E (U - {i}) {i} D"
    by (rule table_recolor [OF t eq len r(2,3) fr _ _ _ sp]) (use i other in auto)
  then show ?thesis using r(1) sp e by blast
qed

lemma rl_Free_spec:
  assumes t: "rl_table G rl fb FO E U {} D" and i: "i \<in> U" and sp: "4 \<le> spares fb"
  shows "\<exists>rl' fb' r' FO' E'. rl_Free i rl fb r = Some (rl', fb', r') \<and> rl_table G rl' fb' FO' E' (U - {i}) {} D \<and>
    spans (rp rl') FO' = put_span (span_of (rp rl) i) (spans (rp rl) FO) \<and> (\<forall>j \<in> U - {i}. span_of (rp rl') j = span_of (rp rl) j) \<and>
    rl_nalloc rl' = rl_nalloc rl \<and> nbytes rl' = sz_sub (nbytes rl) (slot_ext (rp rl) i) \<and> maxbytes rl' = maxbytes rl \<and>
    spares fb \<le> spares fb' + 4"
proof -
  have ib: "i < length (rp rl)" using table_slot(2) [OF t] i by blast
  obtain rl1 where a: "RemoveFromHash i (rl\<lparr>rp := (rp rl)[i := ClearAlloc (rp rl ! i)], nbytes := sz_sub (nbytes rl) (slot_ext (rp rl) i)\<rparr>) = Some rl1"
    "rl_table G rl1 fb FO E (U - {i}) {i} D" "\<forall>j. span_of (rp rl1) j = span_of (rp rl) j"
    "nbytes rl1 = sz_sub (nbytes rl) (slot_ext (rp rl) i)" "maxbytes rl1 = maxbytes rl" "rl_nalloc rl1 = rl_nalloc rl"
    using unhash_table [OF t i] by (elim exE conjE) (rule that)
  obtain rl2 fb2 r2 rl3 fb3 r3 FO' E' where g:
    "ReleaseRegion i (rl1\<lparr>rl_nelems := sz_dec (rl_nelems rl1)\<rparr>) fb r = Some (0, rl2, fb2, r2)" "Consolidate i rl2 fb2 r2 = Some (rl3, fb3, r3)"
    "rl_table G rl3 fb3 FO' E' (U - {i}) {} D" "spans (rp rl3) FO' = put_span (span_of (rp rl1) i) (spans (rp rl1) FO)"
    "\<forall>j \<in> U - {i}. span_of (rp rl3) j = span_of (rp rl1) j" "rl_nalloc rl3 = rl_nalloc rl1" "nbytes rl3 = nbytes rl1" "maxbytes rl3 = maxbytes rl1"
    "spares fb \<le> spares fb3 + 4"
    using table_give [OF a(2) sp, of r] by (elim exE conjE) (rule that)
  have "spans (rp rl1) FO = spans (rp rl) FO" using a(3) by (simp add: spans_def)
  then have "spans (rp rl3) FO' = put_span (span_of (rp rl) i) (spans (rp rl) FO)" using g(4) a(3) by simp
  moreover have "\<forall>j \<in> U - {i}. span_of (rp rl3) j = span_of (rp rl) j" using g(5) a(3) by simp
  moreover have "rl_Free i rl fb r = Some (rl3\<lparr>maxfree := max (rl_nfree rl3) (maxfree rl3)\<rparr>, fb3, r3)"
    using ib a(1) g(1,2) rl_inv_count [OF rl_tableD(1) [OF g(3)]] by (simp add: rl_Free_def)
  ultimately show ?thesis using g(3,6-9) a(4-6)
    by (rule_tac exI [of _ "rl3\<lparr>maxfree := max (rl_nfree rl3) (maxfree rl3)\<rparr>"], rule_tac exI [of _ fb3], rule_tac exI [of _ r3],
        rule_tac exI [of _ FO'], rule_tac exI [of _ E']) simp
qed


text \<open>\<open>Get\<close> takes the best fit out of the free space.\<close>

lemma rl_Get_table:
  assumes t: "rl_table G rl fb FO E U {} D"
  shows "(\<forall>j \<in> set FO. slot_ext (rp rl) j < e) \<and> rl_Get e rl fb = Some (RL_NONE, rl, fb) \<or>
    (\<exists>i rl' fb'. rl_Get e rl fb = Some (i, rl', fb') \<and> i \<in> set FO \<and> e \<le> slot_ext (rp rl) i \<and>
       (\<forall>j \<in> set FO. e \<le> slot_ext (rp rl) j \<longrightarrow> ekey (rp rl) i \<le> ekey (rp rl) j) \<and>
       rl_table G rl' fb' (remove1 i FO) E U {i} D \<and> rp rl' = rp rl \<and> spares fb' = spares fb \<and> i \<noteq> RL_NONE \<and>
       rl_nalloc rl' = rl_nalloc rl \<and> nbytes rl' = nbytes rl \<and> maxbytes rl' = maxbytes rl)"
proof -
  note T = rl_tableD [OF t]
  obtain A hO FE hE where c: "rl_core G rl fb A FO hO FE hE E" and m: "maxfextent rl = max_ext (rp rl) (set FO)" using rl_invD [OF T(1)] .
  show ?thesis
    using rl_Get_spec [OF c m, of e]
  proof (elim disjE exE conjE)
    fix i rl' fb' A'
    assume g: "rl_Get e rl fb = Some (i, rl', fb')" "i \<in> set FO" "e \<le> slot_ext (rp rl) i"
      "\<forall>j \<in> set FO. e \<le> slot_ext (rp rl) j \<longrightarrow> ekey (rp rl) i \<le> ekey (rp rl) j"
      "rl_core G rl' fb' A' (remove1 i FO) hO (remove1 i FE) hE E" "maxfextent rl' = max_ext (rp rl') (set (remove1 i FO))"
      "rp rl' = rp rl" "rh_chains rl' = rh_chains rl" "rl_nchains rl' = rl_nchains rl" "rh_magic rl' = rh_magic rl"
      "rl_nalloc rl' = rl_nalloc rl" "spares fb' = spares fb" "nbytes rl' = nbytes rl" "maxbytes rl' = maxbytes rl"
    note R = region_okD [OF rl_listsD(4) [OF rl_coreD(1) [OF c]] rl_listsD(5) [OF rl_coreD(1) [OF c] g(2)]]
    have inv: "rl_inv G rl' fb' (remove1 i FO) E" using g(5,6) unfolding rl_inv_def by blast
    have h: "hash_ok rl' U" by (rule hash_ok_keeps [OF T(2)]) (simp_all add: g(7-11) same_hash_def same_links_def)
    have sl: "hash_slot rl' i" "IsFree (rp rl' ! i)" using R(1,2,9) g(7,11) by (simp_all add: hash_slot_def)
    have pos: "0 < length FO" using g(2) by (cases FO) auto
    have "length (remove1 i FO) = length FO - 1" using g(2) by (simp add: length_remove1)
    then have cnt: "rl_nelems rl' = Suc (rl_nelems rl)"
      using rl_coreD(6-8) [OF c] rl_coreD(6-8) [OF g(5)] g(11) pos by linarith
    have FO': "set (remove1 i FO) = set FO - {i}" using rl_core_sizes(5) [OF c] by (simp add: set_remove1_eq)
    have i': "i \<notin> U" "i \<notin> set E" using T(8) rl_coreD(5) [OF c] g(2) by auto
    have "set FO - {i} \<union> (U \<union> {i}) = set FO \<union> (U \<union> {})" using g(2) i' by auto
    then have sp: "space_ok (rp rl') (set (remove1 i FO) \<union> (U \<union> {i})) D" using T(9) unfolding FO' g(7) by simp
    have dj: "(U \<union> {i}) \<inter> (set (remove1 i FO) \<union> set E) = {}" using T(8) i' unfolding FO' by auto
    have "all_alloc rl' U" using T(3) by (simp add: all_alloc_def g(7))
    then have "rl_table G rl' fb' (remove1 i FO) E U {i} D"
      using inv h sl sp dj T(10,11) cnt i' unfolding rl_table_def by simp
    moreover have "i \<noteq> RL_NONE" using hash_okD(9) [OF h sl(1)] by simp
    ultimately show ?thesis using g by blast
  qed blast
qed

text \<open>\<open>Split\<close> cuts a taken region in two and returns the upper part.\<close>

lemma split_space:
  assumes sp: "space_ok rps S D" and i: "i \<in> S" "new \<notin> S" and e: "0 < e" "e < slot_ext rps i"
    and i': "span_of rps' i = (slot_off rps i, e)" and new: "span_of rps' new = (slot_off rps i + int e, slot_ext rps i - e)"
    and other: "\<And>j. j \<in> S \<Longrightarrow> j \<noteq> i \<Longrightarrow> span_of rps' j = span_of rps j"
  shows "space_ok rps' (insert new S) D"
proof -
  have r: "reg rps i = reg rps' i \<union> reg rps' new" "reg rps' i \<inter> reg rps' new = {}" "0 < slot_ext rps' i" "0 < slot_ext rps' new"
    using i' new e by (auto simp: reg_def span_of_def)
  have o: "reg rps' j = reg rps j" "slot_ext rps' j = slot_ext rps j" if "j \<in> S" "j \<noteq> i" for j
    using other [OF that] by (simp_all add: reg_def span_of_def)
  have dj: "reg rps' j \<inter> reg rps i = {}" if "j \<in> S" "j \<noteq> i" for j using space_okD(2) [OF sp that(1) i(1) that(2)] o(1) [OF that] by simp
  have sub: "space_ok rps' (S - {i}) (\<Union>j \<in> S - {i}. reg rps j)"
    by (rule space_ok_cong [OF space_ok_sub(1) [of rps "S - {i}" "{i}" D]]) (use sp i other in \<open>auto simp: insert_absorb\<close>)
  have "(\<Union>j \<in> S - {i}. reg rps j) \<inter> (reg rps' i \<union> reg rps' new) = {}" using dj o(1) r(1) by blast
  moreover have "space_ok rps' {i, new} (reg rps' i \<union> reg rps' new)" using r i by (auto simp: space_ok_def)
  ultimately have "space_ok rps' ((S - {i}) \<union> {i, new}) ((\<Union>j \<in> S - {i}. reg rps j) \<union> (reg rps' i \<union> reg rps' new))"
    using sub by (intro space_ok_Un)
  moreover have "(S - {i}) \<union> {i, new} = insert new S" using i by auto
  moreover have "(\<Union>j \<in> S - {i}. reg rps j) \<union> (reg rps' i \<union> reg rps' new) = D" using space_okD(4) [OF sp] i(1) r(1) by blast
  ultimately show ?thesis by simp
qed

lemma split_off:
  assumes t: "rl_table G rl fb FO (new # E') U {i} D" and e: "0 < e" "e < slot_ext (rp rl) i" "even e" and k: "keeps {new} rl rl'"
    and n: "slot_off (rp rl') new = slot_off (rp rl) i + int e" "rg_extent (rp rl' ! new) = slot_ext (rp rl) i - e"
    and c': "rl_core G rl' fb' A' (insort_key (slot_off (rp rl')) new FO) hO' FE' hE' E'"
  defines "rl2 \<equiv> rl'\<lparr>rp := (rp rl')[i := (rp rl' ! i)\<lparr>rg_extent := e\<rparr>], maxfextent := max (slot_ext (rp rl) i - e) (maxfextent rl')\<rparr>"
  shows "rl_table G rl2 fb' (insort_key (slot_off (rp rl2)) new FO) E' U {i} D" "span_of (rp rl2) i = (slot_off (rp rl) i, e)"
    "span_of (rp rl2) new = (slot_off (rp rl) i + int e, slot_ext (rp rl) i - e)"
    "\<And>j. j \<in> set FO \<union> U \<Longrightarrow> span_of (rp rl2) j = span_of (rp rl) j"
proof -
  note T = rl_tableD [OF t]
  obtain A hO FE hE where c: "rl_core G rl fb A FO hO FE hE (new # E')" and m: "maxfextent rl = max_ext (rp rl) (set FO)" using rl_invD [OF T(1)] .
  have il: "i < length (rp rl)" "4 \<le> i" using table_slot [OF t, of i] by simp_all
  have nw: "new \<notin> set FO \<union> (U \<union> {i})" using T(8) rl_coreD(5) [OF c] by auto
  have iF: "i \<notin> set FO" "i \<notin> set E'" "i \<notin> U" using T(7,8) by auto
  have FO': "set (insort_key (slot_off (rp rl')) new FO) = insert new (set FO)" by (simp add: set_insort_key)
  have rp2: "rp rl2 = (rp rl')[i := (rp rl' ! i)\<lparr>rg_extent := e\<rparr>]" and len: "i < length (rp rl')" using il keepsD(1) [OF k] by (simp_all add: rl2_def)
  have oth1: "rp rl2 ! j = rp rl' ! j" if "j \<noteq> i" for j using that by (simp add: rp2)
  have oth: "rp rl2 ! j = rp rl ! j" if "j \<in> set FO \<union> U" for j
  proof -
    have "j \<noteq> i" "j \<noteq> new" using that iF nw by auto
    then show ?thesis using oth1 [of j] keepsD(2) [OF k, of j] by simp
  qed
  have ri: "rp rl' ! i = rp rl ! i" using keepsD(2) [OF k, of i] nw by auto
  show spi: "span_of (rp rl2) i = (slot_off (rp rl) i, e)" using len e(3) by (simp add: rp2 ri span_of_def GetExtent_def)
  have evn: "even (slot_ext (rp rl) i - e)" using e GetExtent_even(1) [of "rp rl ! i"] by simp
  show spn: "span_of (rp rl2) new = (slot_off (rp rl) i + int e, slot_ext (rp rl) i - e)"
    using oth1 [of new] nw n evn by (auto simp: span_of_def GetExtent_def)
  show spo: "span_of (rp rl2) j = span_of (rp rl) j" if "j \<in> set FO \<union> U" for j using oth [OF that] by (simp add: span_of_def)
  have off2: "slot_off (rp rl2) = slot_off (rp rl')" using len by (auto simp: fun_eq_iff rp2 nth_list_update)
  have "rl_core G (rl'\<lparr>rp := rp rl2\<rparr>) fb' A' (insort_key (slot_off (rp rl')) new FO) hO' FE' hE' E'"
  proof (rule rl_core_cong [OF c'])
    fix x assume "x < 4 \<or> x \<in> set (insort_key (slot_off (rp rl')) new FO) \<union> set E'"
    then have "x \<noteq> i" using il(2) iF nw unfolding FO' by auto
    then show "rp rl2 ! x = rp rl' ! x" by (rule oth1)
  qed (simp add: rp2)
  then have c2: "rl_core G rl2 fb' A' (insort_key (slot_off (rp rl2)) new FO) hO' FE' hE' E'" unfolding off2 by (simp add: rl2_def)
  have "max_ext (rp rl2) (insert new (set FO)) = max (slot_ext (rp rl) i - e) (max_ext (rp rl) (set FO))"
  proof -
    have "slot_ext (rp rl2) ` insert new (set FO) = insert (slot_ext (rp rl) i - e) (slot_ext (rp rl) ` set FO)"
      using spn spo by (auto simp: span_of_def)
    then show ?thesis unfolding max_ext_def by (simp add: insert_commute [of 0])
  qed
  then have inv: "rl_inv G rl2 fb' (insort_key (slot_off (rp rl2)) new FO) E'"
    using c2 m keepsD(5) [OF k] unfolding rl_inv_def by (auto simp: set_insort_key rl2_def)
  have sh: "same_hash rl rl2" "length (rp rl2) = length (rp rl)" "rl_nalloc rl2 = rl_nalloc rl" "rl_nelems rl2 = rl_nelems rl"
    using keepsD(1,3,4,8) [OF k] by (simp_all add: rl2_def same_hash_def)
  have h: "hash_ok rl2 U" by (rule hash_ok_keeps [OF T(2) sh(1,2)]) (use oth in \<open>simp add: same_links_def\<close>)
  have al: "all_alloc rl2 U" using T(3) oth by (simp add: all_alloc_def)
  have sl: "hash_slot rl2 i" "IsFree (rp rl2 ! i)" using T(4) sh(3) len e(3) by (simp_all add: hash_slot_def rp2 IsFree_def IsAlloc_def)
  have "space_ok (rp rl2) (insert new (set FO \<union> (U \<union> {i}))) D"
    by (rule split_space [OF T(9) _ nw e(1,2) spi spn]) (use spo in auto)
  then have sp: "space_ok (rp rl2) (set (insort_key (slot_off (rp rl2)) new FO) \<union> (U \<union> {i})) D" by (simp add: set_insort_key insert_commute)
  have "distinct (new # E')" by (rule rl_core_sizes(7) [OF c])
  then have dj: "(U \<union> {i}) \<inter> (set (insort_key (slot_off (rp rl2)) new FO) \<union> set E') = {}" using T(8) by (auto simp: set_insort_key)
  show "rl_table G rl2 fb' (insort_key (slot_off (rp rl2)) new FO) E' U {i} D"
    using inv h al sl sp dj T(6,7,10,11) sh(4) unfolding rl_table_def by simp
qed

lemma Split_table:
  assumes t: "rl_table G rl fb FO E U {i} D" and e: "0 < e" "e < slot_ext (rp rl) i" "even e"
  shows "(E = [] \<or> spares fb \<le> 1) \<and> (\<exists>rl' fb' r'. Split i e rl fb r = Some (ENOMEM, rl', fb', r') \<and> rl_table G rl' fb' FO E U {i} D \<and>
      (\<forall>j \<in> set FO \<union> (U \<union> {i}). span_of (rp rl') j = span_of (rp rl) j)) \<or>
    (\<exists>new E' rl' fb' r'. E = new # E' \<and> Split i e rl fb r = Some (0, rl', fb', r') \<and> spares fb \<le> spares fb' + 2 \<and>
      rl_table G rl' fb' (insort_key (slot_off (rp rl')) new FO) E' U {i} D \<and> span_of (rp rl') i = (slot_off (rp rl) i, e) \<and>
      span_of (rp rl') new = (slot_off (rp rl) i + int e, slot_ext (rp rl) i - e) \<and> nbytes rl' = nbytes rl \<and> maxbytes rl' = maxbytes rl \<and>
      (\<forall>j \<in> set FO \<union> U. span_of (rp rl') j = span_of (rp rl) j))"
proof -
  note T = rl_tableD [OF t]
  obtain A hO FE hE where c: "rl_core G rl fb A FO hO FE hE E" and m: "maxfextent rl = max_ext (rp rl) (set FO)" using rl_invD [OF T(1)] .
  have ii: "i \<in> {i}" "i \<in> set FO \<union> (U \<union> {i})" by simp_all
  have il: "i < length (rp rl)" "4 \<le> i" using table_slot [OF t, of i] by simp_all
  have fr: "IsFree (rp rl ! i)" using T(5) [OF ii(1)] .
  let ?ext = "slot_ext (rp rl) i" and ?off = "slot_off (rp rl) i"
  have bnd: "0 \<le> ?off" "?off + int ?ext \<le> huge_off_t" using table_bounds [OF t ii(2)] .
  have nin: "?off + int e \<notin> slot_off (rp rl) ` set FO"
  proof
    assume "?off + int e \<in> slot_off (rp rl) ` set FO"
    then obtain j where j: "j \<in> set FO" "slot_off (rp rl) j = ?off + int e" by force
    have "slot_off (rp rl) j \<in> reg (rp rl) i" using j(2) e by (simp add: reg_def)
    moreover have "slot_off (rp rl) j \<in> reg (rp rl) j" using space_okD(1) [OF T(9), of j] j(1) by (simp add: reg_def)
    moreover have "j \<noteq> i" using j(1) T(8) by auto
    ultimately show False using space_okD(2) [OF T(9), of i j] j(1) by auto
  qed
  have add: "even (?ext - e)" "0 \<le> ?off + int e" "?off + int e + int (?ext - e) \<le> huge_off_t"
    using e bnd GetExtent_even(1) [of "rp rl ! i"] by (simp_all add: of_nat_diff)
  show ?thesis
    using rl_Add_spec [OF c add nin, of r]
  proof (elim disjE exE conjE)
    assume "E = []" "rl_Add (?off + int e) (?ext - e) rl fb r = Some (None, rl, fb, r)"
    then show ?thesis using t il fr e(2) by (simp add: Split_def)
  next
    fix new E' rl' fb' r' A' hO'
    assume a: "E = new # E'" "keeps {new} rl rl'" "rl_Add (?off + int e) (?ext - e) rl fb r = Some (None, rl', fb', r')" "spares fb \<le> 1"
      "rl_core G rl' fb' A' FO hO' FE hE E"
    have run: "Split i e rl fb r = Some (ENOMEM, rl', fb', r')" using a(3) il fr e(2) by (simp add: Split_def)
    have nw: "new \<notin> set FO \<union> (U \<union> {i})" using a(1) T(8) rl_coreD(5) [OF c] by auto
    have oth: "rp rl' ! j = rp rl ! j" if "j \<in> set FO \<union> (U \<union> {i})" for j by (rule keepsD(2) [OF a(2)]) (use that nw in blast)
    then have sp: "span_of (rp rl') j = span_of (rp rl) j" if "j \<in> set FO \<union> (U \<union> {i})" for j using that by (simp add: span_of_def)
    have "max_ext (rp rl') (set FO) = max_ext (rp rl) (set FO)" using oth by (simp add: max_ext_def)
    then have inv: "rl_inv G rl' fb' FO E" using a(5) m keepsD(5) [OF a(2)] unfolding rl_inv_def by auto
    have "hash_ok rl' U" by (rule hash_ok_keeps [OF T(2) keepsD(3,1) [OF a(2)]]) (use oth in \<open>simp add: same_links_def\<close>)
    moreover have "all_alloc rl' U" using T(3) oth by (simp add: all_alloc_def)
    moreover have "hash_slot rl' i" "IsFree (rp rl' ! i)" using T(4) fr oth keepsD(8) [OF a(2)] by (simp_all add: hash_slot_def)
    moreover have "space_ok (rp rl') (set FO \<union> (U \<union> {i})) D" by (rule space_ok_cong [OF T(9) sp])
    ultimately have "rl_table G rl' fb' FO E U {i} D" using inv T(6-8,10,11) keepsD(4) [OF a(2)] unfolding rl_table_def by simp
    then show ?thesis using run a(4) sp by blast
  next
    fix new E' rl' fb' r' A' hO' FE' hE'
    assume a: "E = new # E'" "keeps {new} rl rl'" "rl_Add (?off + int e) (?ext - e) rl fb r = Some (Some new, rl', fb', r')"
      "spares fb \<le> spares fb' + 2" "slot_off (rp rl') new = ?off + int e" "rg_extent (rp rl' ! new) = ?ext - e"
      "rl_core G rl' fb' A' (insort_key (slot_off (rp rl')) new FO) hO' FE' hE' E'"
    define rl2 where "rl2 = rl'\<lparr>rp := (rp rl')[i := (rp rl' ! i)\<lparr>rg_extent := e\<rparr>], maxfextent := max (?ext - e) (maxfextent rl')\<rparr>"
    note S = split_off [OF t [unfolded a(1)] e a(2,5,6,7), folded rl2_def]
    have "new < length (rp rl')" "new \<noteq> i" using rl_core_indices [OF a(7), of new] a(1) T(8) by (auto simp: set_insort_key)
    moreover have "IsFree (rp rl' ! new)" using a(6) add(1) by (simp add: IsFree_def IsAlloc_def)
    ultimately have run: "Split i e rl fb r = Some (0, rl2, fb', r')"
      using a(3) il fr e(2) keepsD(1) [OF a(2)] by (simp add: Split_def rl2_def)
    have "nbytes rl2 = nbytes rl" "maxbytes rl2 = maxbytes rl" using keepsD(6,7) [OF a(2)] by (simp_all add: rl2_def)
    then show ?thesis using run a(1,4) S by blast
  qed
qed


text \<open>A taken region becomes an allocated one, and back.\<close>

lemma SetAlloc_facts:
  "same_links (SetAlloc r) r" "GetExtent (SetAlloc r) = GetExtent r" "IsAlloc (SetAlloc r)"
  "GetExtent (ClearAlloc r) = GetExtent r" "IsFree (ClearAlloc r)" "rg_offset (SetAlloc r) = rg_offset r" "rg_offset (ClearAlloc r) = rg_offset r"
proof -
  have "even (GetExtent r)" by simp
  then have "(GetExtent r + 1) mod 2 = 1" by presburger
  then show "GetExtent (SetAlloc r) = GetExtent r" "IsAlloc (SetAlloc r)" by (simp_all add: SetAlloc_def GetExtent_def IsAlloc_def)
qed (simp_all add: same_links_def SetAlloc_def ClearAlloc_def IsFree_def IsAlloc_def)

lemma hash_taken:
  assumes t: "rl_table G rl fb FO E U {i} D"
  shows "\<exists>rl'. AddToHash i (rl\<lparr>rp := (rp rl)[i := SetAlloc (rp rl ! i)]\<rparr>) = Some rl' \<and> rl_table G rl' fb FO E (insert i U) {} D \<and>
    (\<forall>j. span_of (rp rl') j = span_of (rp rl) j) \<and> nbytes rl' = nbytes rl \<and> maxbytes rl' = maxbytes rl \<and> rl_nalloc rl' = rl_nalloc rl"
proof -
  note T = rl_tableD [OF t]
  define rl0 where "rl0 = rl\<lparr>rp := (rp rl)[i := SetAlloc (rp rl ! i)]\<rparr>"
  have il: "i < length (rp rl)" using table_slot [OF t, of i] by simp
  have iU: "i \<notin> U" using T(7) by simp
  have r0: "rp rl0 ! j = (if j = i then SetAlloc (rp rl ! i) else rp rl ! j)" for j using il by (simp add: rl0_def nth_list_update)
  have h0: "hash_ok rl0 U" by (rule hash_ok_keeps [OF T(2)]) (simp add: rl0_def same_hash_def, simp add: rl0_def, use r0 iU in \<open>auto simp: same_links_def\<close>)
  have a0: "all_alloc rl0 U" using T(3) r0 iU by (auto simp: all_alloc_def)
  have s0: "hash_slot rl0 i" "IsAlloc (rp rl0 ! i)" using T(4) by (simp_all add: hash_slot_def rl0_def il SetAlloc_facts)
  have "slot_off (rp rl) i \<notin> slot_off (rp rl) ` U" using space_ok_off [OF T(9), of i] iU by blast
  moreover have "slot_off (rp rl0) j = slot_off (rp rl) j" for j by (simp add: r0 SetAlloc_facts)
  ultimately have n0: "slot_off (rp rl0) i \<notin> slot_off (rp rl0) ` U" by simp
  obtain rl' where r: "AddToHash i rl0 = Some rl'" "hash_ok rl' (insert i U)" "all_alloc rl' (insert i U)" "links_only (insert i U) rl0 rl'"
    using AddToHash_spec [OF h0 a0 s0(1) iU s0(2) n0] by blast
  note L = links_onlyD [OF r(4)]
  have e: "nbytes rl' = nbytes rl" "maxbytes rl' = maxbytes rl" "rl_nalloc rl' = rl_nalloc rl"
    using arg_cong [OF L(1), of nbytes] arg_cong [OF L(1), of maxbytes] arg_cong [OF L(1), of rl_nalloc] by (simp_all add: rl0_def)
  have "rl' = rl0\<lparr>rp := rp rl', rh_chains := rh_chains rl'\<rparr>" by (rule L(1))
  also have "\<dots> = rl\<lparr>rp := rp rl', nbytes := nbytes rl', rh_chains := rh_chains rl'\<rparr>" unfolding e(1) by (simp add: rl0_def)
  finally have eq: "rl' = rl\<lparr>rp := rp rl', nbytes := nbytes rl', rh_chains := rh_chains rl'\<rparr>" .
  have len: "length (rp rl') = length (rp rl)" using L(2) by (simp add: rl0_def)
  have sp: "span_of (rp rl') j = span_of (rp rl) j" for j
  proof -
    have "slot_ext (rp rl') j = slot_ext (rp rl0) j" using L(5) [of j] by (simp add: GetExtent_def)
    then show ?thesis using L(4) [of j] r0 [of j] by (simp add: span_of_def SetAlloc_facts)
  qed
  have other: "rp rl' ! j = rp rl ! j" if "j \<notin> U \<union> {i}" for j using that L(3) [of j] r0 [of j] by simp
  have "rl_table G rl' fb FO E (insert i U) {} D"
    by (rule table_recolor [OF t eq len r(2,3) _ _ _ other sp]) auto
  then show ?thesis using r(1) sp e unfolding rl0_def by blast
qed

lemma unhash_allocated:
  assumes t: "rl_table G rl fb FO E U {} D" and i: "i \<in> U"
  shows "\<exists>rl1. RemoveFromHash i rl = Some rl1 \<and> i < length (rp rl1) \<and>
    rl_table G (rl1\<lparr>rp := (rp rl1)[i := ClearAlloc (rp rl1 ! i)]\<rparr>) fb FO E (U - {i}) {i} D \<and>
    (\<forall>j. span_of ((rp rl1)[i := ClearAlloc (rp rl1 ! i)]) j = span_of (rp rl) j) \<and> rl_nalloc rl1 = rl_nalloc rl"
proof -
  note T = rl_tableD [OF t]
  have il: "i < length (rp rl)" using table_slot [OF t, of i] i by simp
  have "all_alloc rl (U - {i})" using T(3) by (simp add: all_alloc_def)
  then obtain rl1 where r: "RemoveFromHash i rl = Some rl1" "hash_ok rl1 (U - {i})" "all_alloc rl1 (U - {i})" "links_only (U - {i}) rl rl1"
    using RemoveFromHash_spec [OF T(2) _ i] by blast
  note L = links_onlyD [OF r(4)]
  define rl2 where "rl2 = rl1\<lparr>rp := (rp rl1)[i := ClearAlloc (rp rl1 ! i)]\<rparr>"
  have il1: "i < length (rp rl1)" using il L(2) by simp
  have r2: "rp rl2 ! j = (if j = i then ClearAlloc (rp rl1 ! i) else rp rl1 ! j)" for j using il1 by (simp add: rl2_def nth_list_update)
  have e: "nbytes rl1 = nbytes rl" "rl_nalloc rl1 = rl_nalloc rl" using arg_cong [OF L(1), of nbytes] arg_cong [OF L(1), of rl_nalloc] by simp_all
  have "rl2 = rl\<lparr>rp := rp rl2, rh_chains := rh_chains rl2\<rparr>" unfolding rl2_def by (subst L(1)) simp
  also have "\<dots> = rl\<lparr>rp := rp rl2, nbytes := nbytes rl2, rh_chains := rh_chains rl2\<rparr>" using e(1) by (simp add: rl2_def)
  finally have eq: "rl2 = rl\<lparr>rp := rp rl2, nbytes := nbytes rl2, rh_chains := rh_chains rl2\<rparr>" .
  have len: "length (rp rl2) = length (rp rl)" using L(2) by (simp add: rl2_def)
  have h2: "hash_ok rl2 (U - {i})"
    by (rule hash_ok_keeps [OF r(2)]) (simp add: rl2_def same_hash_def, simp add: rl2_def, use r2 in \<open>auto simp: same_links_def\<close>)
  have a2: "all_alloc rl2 (U - {i})" using r(3) r2 by (simp add: all_alloc_def)
  have sp: "span_of (rp rl2) j = span_of (rp rl) j" for j
  proof -
    have "slot_ext (rp rl1) j = slot_ext (rp rl) j" using L(5) [of j] by (simp add: GetExtent_def)
    then show ?thesis using L(4) [of j] r2 [of j] by (cases "j = i") (simp_all add: span_of_def SetAlloc_facts)
  qed
  have fr: "IsFree (rp rl2 ! j)" if "j \<in> {i}" for j using that r2 by (simp add: SetAlloc_facts)
  have other: "rp rl2 ! j = rp rl ! j" if "j \<notin> U \<union> {}" for j using that i L(3) [of j] r2 [of j] by auto
  have "rl_table G rl2 fb FO E (U - {i}) {i} D"
    by (rule table_recolor [OF t eq len h2 a2 fr _ _ other sp]) (use i in auto)
  then show ?thesis using r(1) il1 sp e(2) unfolding rl2_def by auto
qed


subsection \<open>A formatted table\<close>

lemma fresh_get:
  assumes inv: "fb_inv fb A" and l: "l < maxsize fb" and sp: "0 < spares fb"
  obtains b fb1 n where "FreeBlock_Get l fb = Some (b, fb1)" "b \<noteq> FBLK_NONE" "spares fb \<le> Suc (spares fb1)" "fb_inv fb1 (A(b \<mapsto> n))"
    "A b = None" "maxsize fb1 = maxsize fb" "l < n" "frame A {} (fblks fb) (fblks fb1)"
proof -
  obtain b fb1 where g: "FreeBlock_Get l fb = Some (b, fb1)" "b \<noteq> FBLK_NONE" "spares fb \<le> Suc (spares fb1)"
    by (rule FreeBlock_Get_spares [OF inv l sp]) (rule that)
  obtain n where n: "fb_inv fb1 (A(b \<mapsto> n))" "l < n" "A b = None" "maxsize fb1 = maxsize fb"
      "\<forall>t m i. A t = Some m \<longrightarrow> t \<le> i \<longrightarrow> i < t + m \<longrightarrow> fblks fb1 ! i = fblks fb ! i"
    using fba.get_law [OF inv l, unfolded g(1) option.inject prod.inject] g(2) unfolding FBLK_NONE_def by blast
  have "frame A {} (fblks fb) (fblks fb1)" using n(5) by (auto simp: frame_def)
  then show ?thesis using that g n by blast
qed

lemma sl_heads:
  assumes inv: "fb_inv fb A" and sp: "2 \<le> spares fb"
  shows "\<exists>b fb1 c fb2 ar n m. FreeBlock_Get (maxsize fb - 1) fb = Some (b, fb1) \<and> FreeBlock_Get 0 fb1 = Some (c, fb2) \<and>
    sl_fill (maxsize fb2) 0 b tn (fblks fb2) = Some ar \<and> fb_inv (fb2\<lparr>fblks := ar\<rparr>) (A(b \<mapsto> n, c \<mapsto> m)) \<and> A b = None \<and> A c = None \<and> b \<noteq> c \<and>
    frame A {} (fblks fb) ar \<and> maxsize fb2 = maxsize fb \<and> spares fb \<le> spares fb2 + 2 \<and>
    (\<forall>base hn. base hn = b \<longrightarrow> base tn = c \<longrightarrow> hn \<noteq> tn \<longrightarrow> sl_ok (A(b \<mapsto> n, c \<mapsto> m)) ar base (maxsize fb) hn tn [] (\<lambda>_. 0) 0)"
proof -
  have ms: "0 < maxsize fb" using fb_inv_maxsize(1) [OF inv] .
  obtain b fb1 n where b: "FreeBlock_Get (maxsize fb - 1) fb = Some (b, fb1)" "spares fb \<le> Suc (spares fb1)" "fb_inv fb1 (A(b \<mapsto> n))"
    "A b = None" "maxsize fb1 = maxsize fb" "maxsize fb - 1 < n" "frame A {} (fblks fb) (fblks fb1)"
    by (rule fresh_get [OF inv, of "maxsize fb - 1"]) (use ms sp in auto)
  obtain c fb2 m where c: "FreeBlock_Get 0 fb1 = Some (c, fb2)" "spares fb1 \<le> Suc (spares fb2)" "fb_inv fb2 (A(b \<mapsto> n, c \<mapsto> m))"
    "(A(b \<mapsto> n)) c = None" "maxsize fb2 = maxsize fb1" "0 < m" "frame (A(b \<mapsto> n)) {} (fblks fb1) (fblks fb2)"
    by (rule fresh_get [OF b(3), of 0]) (use ms sp b(2,5) in auto)
  let ?A = "A(b \<mapsto> n, c \<mapsto> m)"
  have ne: "b \<noteq> c" "A c = None" "?A b = Some n" "?A c = Some m" using c(4) by (auto split: if_splits)
  note blk = fb_inv_blocks_ok [OF c(3)]
  have cells: "sz_add b (0 + j) = b + (0 + j) \<and> b + (0 + j) < length (fblks fb2)" if "j < maxsize fb2" for j
    using cell_bound [OF blk ne(3), of j] that b(5,6) c(5) by simp
  obtain ar where ar: "sl_fill (maxsize fb2) 0 b tn (fblks fb2) = Some ar" "length ar = length (fblks fb2)"
      "\<And>j. j < maxsize fb \<Longrightarrow> ar ! (b + j) = tn" "\<And>a. a < b \<or> b + maxsize fb \<le> a \<Longrightarrow> ar ! a = fblks fb2 ! a"
    using sl_fill_spec [OF cells, of "maxsize fb2" tn] b(5) c(5) by auto
  have "fb_inv (fb2\<lparr>fblks := ar\<rparr>) ?A"
  proof (rule fb_inv_cells [OF c(3) ar(2)])
    fix a assume "outside ?A a"
    then have "a < b \<or> b + n \<le> a" using ne(3) by (auto simp: outside_def simp del: fun_upd_apply)
    then show "ar ! a = fblks fb2 ! a" using b(6) by (intro ar(4)) auto
  qed
  moreover have "frame A {} (fblks fb) ar"
    unfolding frame_def
  proof (intro allI impI)
    fix t k i assume t: "A t = Some k" "i < k"
    have A: "?A t = Some k" "(A(b \<mapsto> n)) t = Some k" using t b(4) ne(2) by auto
    have "t \<noteq> b" using t b(4) by auto
    then have "apart t k b n" by (rule blocks_okD(4) [OF blk A(1) ne(3)])
    then have "ar ! (t + i) = fblks fb2 ! (t + i)" using t b(6) by (intro ar(4)) (auto simp: apart_def)
    also have "\<dots> = fblks fb1 ! (t + i)" by (rule frameD [OF c(7) A(2) _ t(2)]) simp
    also have "\<dots> = fblks fb ! (t + i)" by (rule frameD [OF b(7) t(1) _ t(2)]) simp
    finally show "ar ! (t + i) = fblks fb ! (t + i)" .
  qed
  moreover have "sl_ok ?A ar base (maxsize fb) hn tn [] (\<lambda>_. 0) 0" if "base hn = b" "base tn = c" "hn \<noteq> tn" for base hn
    by (rule sl_ok_empty [of _ _ _ _ _ n m]) (use that ne ms b(6) ar(3) in \<open>auto simp del: fun_upd_apply\<close>)
  ultimately show ?thesis using b(1,2,4,5) c(1,2,5) ne(1,2) ar(1)
    by (rule_tac exI [of _ b], rule_tac exI [of _ fb1], rule_tac exI [of _ c], rule_tac exI [of _ fb2], rule_tac exI [of _ ar],
        rule_tac exI [of _ n], rule_tac exI [of _ m]) simp
qed

lemma InitArray_loop_spec:
  assumes "i + todo \<le> length rps"
  shows "\<exists>rps'. InitArray_loop todo i rps = Some rps' \<and> length rps' = length rps \<and>
    (\<forall>j. i \<le> j \<longrightarrow> j < i + todo \<longrightarrow> rg_next (rps' ! j) = Suc j) \<and> (\<forall>j < i. rps' ! j = rps ! j)"
  using assms
proof (induction todo arbitrary: i rps)
  case (Suc todo)
  let ?r = "(rps ! i)\<lparr>rg_offset := -1, rg_extent := 0, rg_next := Suc i\<rparr>"
  have "Suc i + todo \<le> length (rps[i := ?r])" using Suc.prems by simp
  from Suc.IH [OF this] obtain rps' where r: "InitArray_loop todo (Suc i) (rps[i := ?r]) = Some rps'" "length rps' = length rps"
    "\<forall>j. Suc i \<le> j \<longrightarrow> j < Suc i + todo \<longrightarrow> rg_next (rps' ! j) = Suc j" "\<forall>j < Suc i. rps' ! j = rps[i := ?r] ! j" by auto
  have "rg_next (rps' ! i) = Suc i" using r(4) Suc.prems by simp
  then have "\<forall>j. i \<le> j \<longrightarrow> j < i + Suc todo \<longrightarrow> rg_next (rps' ! j) = Suc j" using r(3) by (metis Suc_leI add_Suc_right add_Suc order_le_less)
  moreover have "\<forall>j < i. rps' ! j = rps ! j" using r(4) by simp
  ultimately show ?case using r(1,2) Suc.prems by simp
qed simp

lemma InitArray_spec:
  assumes n: "0 < n" "n + 4 \<le> length rps" "n + 4 < SIZE_NONE"
  shows "\<exists>rps'. InitArray n rps = Some rps' \<and> length rps' = length rps \<and> chain (\<lambda>i. rg_next (rps' ! i)) 4 [4..<n + 4]"
proof -
  obtain rps1 where r: "InitArray_loop n 4 rps = Some rps1" "length rps1 = length rps" "\<forall>j. 4 \<le> j \<longrightarrow> j < 4 + n \<longrightarrow> rg_next (rps1 ! j) = Suc j"
    using InitArray_loop_spec [of 4 n rps] n by auto
  define rps' where "rps' = rps1[n + 3 := (rps1 ! (n + 3))\<lparr>rg_next := RL_NONE\<rparr>]"
  have nx: "rg_next (rps' ! j) = (if j = n + 3 then SIZE_NONE else Suc j)" if "4 \<le> j" "j < n + 4" for j
    using that r(2,3) n(2) by (simp add: rps'_def nth_list_update RL_NONE_def)
  have ch: "chain (\<lambda>i. rg_next (rps' ! i)) j [j..<n + 4]" if "4 \<le> j" "j < n + 4" for j
    using that
  proof (induction "n + 4 - j" arbitrary: j)
    case (Suc k)
    have up: "[j..<n + 4] = j # [Suc j..<n + 4]" using Suc.prems by (simp add: upt_conv_Cons)
    have "j \<noteq> SIZE_NONE" using Suc.prems n(3) by simp
    moreover have "[Suc j..<n + 4] = []" if "j = n + 3" using that by simp
    ultimately show ?case using Suc.hyps(1) [of "Suc j"] Suc.hyps(2) Suc.prems nx [of j] unfolding up by (cases "j = n + 3") auto
  qed simp
  have "InitArray n rps = Some rps'"
    using r(1,2) n by (simp add: InitArray_def rl_consts rps'_def eval_nat_numeral)
  moreover have "length rps' = length rps" using r(2) by (simp add: rps'_def)
  ultimately show ?thesis using ch [of 4] n(1) by auto
qed

text \<open>The heads of the two lists, written one after the other.\<close>

lemma two_heads:
  assumes inv: "fb_inv fb A" and g: "guests_ok G A fb {}" and sp: "4 \<le> spares fb"
  shows "\<exists>b fb1 c fb2 ar1 b' fb3 c' fb4 ar2 A'. FreeBlock_Get (maxsize fb - 1) fb = Some (b, fb1) \<and> FreeBlock_Get 0 fb1 = Some (c, fb2) \<and>
    sl_fill (maxsize fb2) 0 b t1 (fblks fb2) = Some ar1 \<and> FreeBlock_Get (maxsize fb - 1) (fb2\<lparr>fblks := ar1\<rparr>) = Some (b', fb3) \<and>
    FreeBlock_Get 0 fb3 = Some (c', fb4) \<and> sl_fill (maxsize fb4) 0 b' t2 (fblks fb4) = Some ar2 \<and> maxsize fb2 = maxsize fb \<and>
    spares fb \<le> spares fb4 + 4 \<and>
    (\<forall>base1 h1 base2 h2. base1 h1 = b \<longrightarrow> base1 t1 = c \<longrightarrow> base2 h2 = b' \<longrightarrow> base2 t2 = c' \<longrightarrow> h1 \<noteq> t1 \<longrightarrow> h2 \<noteq> t2 \<longrightarrow>
      two_sl G A' (fb4\<lparr>fblks := ar2\<rparr>) base1 h1 t1 [] (\<lambda>_. 0) 0 base2 h2 t2 [] (\<lambda>_. 0) 0)"
proof -
  have sp2: "2 \<le> spares fb" using sp by simp
  obtain b fb1 c fb2 ar1 n m where p: "FreeBlock_Get (maxsize fb - 1) fb = Some (b, fb1)" "FreeBlock_Get 0 fb1 = Some (c, fb2)"
    "sl_fill (maxsize fb2) 0 b t1 (fblks fb2) = Some ar1" "fb_inv (fb2\<lparr>fblks := ar1\<rparr>) (A(b \<mapsto> n, c \<mapsto> m))" "A b = None" "A c = None" "b \<noteq> c"
    "frame A {} (fblks fb) ar1" "maxsize fb2 = maxsize fb" "spares fb \<le> spares fb2 + 2"
    "\<forall>base hn. base hn = b \<longrightarrow> base t1 = c \<longrightarrow> hn \<noteq> t1 \<longrightarrow> sl_ok (A(b \<mapsto> n, c \<mapsto> m)) ar1 base (maxsize fb) hn t1 [] (\<lambda>_. 0) 0"
    using sl_heads [OF inv sp2, of t1] by (elim exE conjE) (rule that)
  define fb2' where "fb2' = fb2\<lparr>fblks := ar1\<rparr>"
  define A1 where "A1 = A(b \<mapsto> n, c \<mapsto> m)"
  have inv1: "fb_inv fb2' A1" using p(4) by (simp add: fb2'_def A1_def)
  have sp3: "2 \<le> spares fb2'" using p(10) sp by (simp add: fb2'_def spares_def)
  obtain b' fb3 c' fb4 ar2 n' m' where q: "FreeBlock_Get (maxsize fb2' - 1) fb2' = Some (b', fb3)" "FreeBlock_Get 0 fb3 = Some (c', fb4)"
    "sl_fill (maxsize fb4) 0 b' t2 (fblks fb4) = Some ar2" "fb_inv (fb4\<lparr>fblks := ar2\<rparr>) (A1(b' \<mapsto> n', c' \<mapsto> m'))" "A1 b' = None" "A1 c' = None" "b' \<noteq> c'"
    "frame A1 {} (fblks fb2') ar2" "maxsize fb4 = maxsize fb2'" "spares fb2' \<le> spares fb4 + 2"
    "\<forall>base hn. base hn = b' \<longrightarrow> base t2 = c' \<longrightarrow> hn \<noteq> t2 \<longrightarrow> sl_ok (A1(b' \<mapsto> n', c' \<mapsto> m')) ar2 base (maxsize fb2') hn t2 [] (\<lambda>_. 0) 0"
    using sl_heads [OF inv1 sp3, of t2] by (elim exE conjE) (rule that)
  let ?A = "A1(b' \<mapsto> n', c' \<mapsto> m')"
  have ms: "maxsize fb2' = maxsize fb" using p(9) by (simp add: fb2'_def)
  have fr: "frame A1 {} ar1 ar2" using q(8) by (simp add: fb2'_def)
  have old: "A1 b = Some n" "A1 c = Some m" using p(7) by (auto simp: A1_def)
  have ne: "b \<noteq> b'" "b \<noteq> c'" "c \<noteq> b'" "c \<noteq> c'" using old q(5,6) by auto
  have gd: "x \<noteq> b \<and> x \<noteq> c \<and> x \<noteq> b' \<and> x \<noteq> c'" if "x \<in> dom (snd G)" for x
  proof -
    have "A x \<noteq> None" using g that by (auto simp: guests_ok_def)
    moreover from this have "A1 x \<noteq> None" by (simp add: A1_def)
    ultimately show ?thesis using p(5,6) q(5,6) by auto
  qed
  have "guests_ok G A1 fb2' {}"
    by (rule guests_ok_keep [OF g, of A "{}"]) (use p(8,9) gd in \<open>auto simp: fb2'_def A1_def\<close>)
  then have g2: "guests_ok G ?A (fb4\<lparr>fblks := ar2\<rparr>) {b, c, b', c'}"
    by (rule guests_ok_keep [where B = A1 and T = "{}"]) (use q(8,9) gd in auto)
  have "two_sl G ?A (fb4\<lparr>fblks := ar2\<rparr>) base1 h1 t1 [] (\<lambda>_. 0) 0 base2 h2 t2 [] (\<lambda>_. 0) 0"
    if h: "base1 h1 = b" "base1 t1 = c" "base2 h2 = b'" "base2 t2 = c'" "h1 \<noteq> t1" "h2 \<noteq> t2" for base1 h1 base2 h2
  proof -
    have "sl_ok A1 ar1 base1 (maxsize fb) h1 t1 [] (\<lambda>_. 0) 0" using p(11) h unfolding A1_def by blast
    then have "sl_ok ?A ar2 base1 (maxsize fb) h1 t1 [] (\<lambda>_. 0) 0"
      by (rule sl_ok_keep [OF _ fr]) (use h ne in auto)
    moreover have "sl_ok ?A ar2 base2 (maxsize fb) h2 t2 [] (\<lambda>_. 0) 0" using q(11) h ms by simp
    moreover have "base1 ` set [h1, t1] \<inter> base2 ` set [h2, t2] = {}" using h ne by auto
    moreover have "base1 ` set [h1, t1] \<union> base2 ` set [h2, t2] = {b, c, b', c'}" using h by auto
    ultimately show ?thesis using q(4,9) ms g2 unfolding two_sl_def by simp
  qed
  moreover have "spares fb \<le> spares fb4 + 4" using p(10) q(10) by (simp add: fb2'_def spares_def)
  ultimately show ?thesis using p(1-3,9) q(1-3) unfolding ms unfolding fb2'_def
    by (rule_tac exI [of _ b], rule_tac exI [of _ fb1], rule_tac exI [of _ c], rule_tac exI [of _ fb2], rule_tac exI [of _ ar1],
        rule_tac exI [of _ b'], rule_tac exI [of _ fb3], rule_tac exI [of _ c'], rule_tac exI [of _ fb4], rule_tac exI [of _ ar2],
        rule_tac exI [of _ ?A]) blast
qed


lemma rl_Initialize_spec:
  assumes inv: "fb_inv fb A" and g: "guests_ok G A fb {}" and sp: "4 \<le> spares fb"
    and n: "0 < n" "n + 4 \<le> length (rp rl)" "n + 4 < SIZE_NONE"
    and nch: "CalculateNumChains n = Some nch" "0 < nch" "nch \<le> length (rh_chains rl)"
  shows "\<exists>rl' fb'. rl_Initialize n rl fb = Some (rl', fb') \<and> rl_inv G rl' fb' [] [4..<n + 4] \<and> hash_ok rl' {} \<and> spares fb \<le> spares fb' + 4 \<and>
    rl_nalloc rl' = n \<and> rl_nelems rl' = 0 \<and> nbytes rl' = 0 \<and> maxbytes rl' = 0"
proof -
  obtain rps where rps: "InitArray n (rp rl) = Some rps" "length rps = length (rp rl)" "chain (\<lambda>i. rg_next (rps ! i)) 4 [4..<n + 4]"
    using InitArray_spec [OF n] by blast
  obtain b fb1 c fb2 ar1 b' fb3 c' fb4 ar2 A' where h: "FreeBlock_Get (maxsize fb - 1) fb = Some (b, fb1)" "FreeBlock_Get 0 fb1 = Some (c, fb2)"
    "sl_fill (maxsize fb2) 0 b RL_FOFF_TL (fblks fb2) = Some ar1" "FreeBlock_Get (maxsize fb - 1) (fb2\<lparr>fblks := ar1\<rparr>) = Some (b', fb3)"
    "FreeBlock_Get 0 fb3 = Some (c', fb4)" "sl_fill (maxsize fb4) 0 b' RL_FEXT_TL (fblks fb4) = Some ar2" "maxsize fb2 = maxsize fb"
    "spares fb \<le> spares fb4 + 4"
    "\<forall>base1 h1 base2 h2. base1 h1 = b \<longrightarrow> base1 RL_FOFF_TL = c \<longrightarrow> base2 h2 = b' \<longrightarrow> base2 RL_FEXT_TL = c' \<longrightarrow> h1 \<noteq> RL_FOFF_TL \<longrightarrow> h2 \<noteq> RL_FEXT_TL \<longrightarrow>
      two_sl G A' (fb4\<lparr>fblks := ar2\<rparr>) base1 h1 RL_FOFF_TL [] (\<lambda>_. 0) 0 base2 h2 RL_FEXT_TL [] (\<lambda>_. 0) 0"
    using two_heads [OF inv g sp, of RL_FOFF_TL RL_FEXT_TL] by (elim exE conjE) (rule that)
  define ps where "ps = rps[RL_FOFF_HD := \<lparr>rg_offset = 0, rg_extent = 0, rg_next = b, rg_prev = 0\<rparr>,
     RL_FOFF_TL := \<lparr>rg_offset = huge_off_t, rg_extent = 0, rg_next = c, rg_prev = 0\<rparr>,
     RL_FEXT_HD := \<lparr>rg_offset = 0, rg_extent = 0, rg_next = 0, rg_prev = b'\<rparr>,
     RL_FEXT_TL := ClearAlloc \<lparr>rg_offset = 0, rg_extent = SIZE_NONE, rg_next = 0, rg_prev = c'\<rparr>]"
  define rl1 where "rl1 = rl\<lparr>rl_nalloc := n, rl_nchains := nch, rh_magic := RL_MAGIC,
       rh_chains := replicate nch RL_NONE @ drop nch (rh_chains rl), rp := rps, rl_empty := RL_EMPTY_HD,
       rl_nelems := 0, maxelems := 0, nempty := n, minempty := n, nbytes := 0, maxbytes := 0,
       rl_nfree := 0, maxfree := 0, maxfextent := 0\<rparr>"
  define rl' where "rl' = rl1\<lparr>level_foff := 0, foff := RL_FOFF_HD, rp := ps, level_fext := 0, fext := RL_FEXT_HD\<rparr>"
  have len: "0 < length rps" "Suc 0 < length rps" "2 < length rps" "3 < length rps" using n rps(2) by linarith+
  have run: "rl_Initialize n rl fb = Some (rl', fb4\<lparr>fblks := ar2\<rparr>)"
    using fb_inv_magic [OF inv] nch rps(1) h(1-7) len
    by (simp add: rl_Initialize_def InitOffsets_def InitExtents_def rl1_def [symmetric]) (simp add: rl1_def rl'_def ps_def rl_consts)
  have at: "ps ! 0 = \<lparr>rg_offset = 0, rg_extent = 0, rg_next = b, rg_prev = 0\<rparr>" "ps ! 1 = \<lparr>rg_offset = huge_off_t, rg_extent = 0, rg_next = c, rg_prev = 0\<rparr>"
    "ps ! 2 = \<lparr>rg_offset = 0, rg_extent = 0, rg_next = 0, rg_prev = b'\<rparr>" "ps ! 3 = ClearAlloc \<lparr>rg_offset = 0, rg_extent = SIZE_NONE, rg_next = 0, rg_prev = c'\<rparr>"
    "\<And>j. 4 \<le> j \<Longrightarrow> ps ! j = rps ! j" "length ps = length (rp rl)"
    using len rps(2) by (simp_all add: ps_def rl_consts nth_list_update)
  have clr: "ClearAlloc \<lparr>rg_offset = 0, rg_extent = SIZE_NONE, rg_next = 0, rg_prev = c'\<rparr> = \<lparr>rg_offset = 0, rg_extent = 2 ^ 64 - 2, rg_next = 0, rg_prev = c'\<rparr>"
    by (simp add: ClearAlloc_def GetExtent_def SIZE_NONE_def)
  have "two_sl G A' (fb4\<lparr>fblks := ar2\<rparr>) (\<lambda>i. rg_next (ps ! i)) RL_FOFF_HD RL_FOFF_TL [] (\<lambda>_. 0) 0
      (\<lambda>i. rg_prev (ps ! i)) RL_FEXT_HD RL_FEXT_TL [] (\<lambda>_. 0) 0"
    using h(9) at clr by (simp add: rl_consts)
  moreover have "slots_ok ps (n + RL_FREE_OVERHEAD)" using n at clr by (simp add: slots_ok_def rl_consts)
  ultimately have lists: "rl_lists G rl' (fb4\<lparr>fblks := ar2\<rparr>) A' [] (\<lambda>_. 0) [] (\<lambda>_. 0)" by (simp add: rl_lists_def rl'_def rl1_def)
  have "chain (\<lambda>i. rg_next (ps ! i)) 4 [4..<n + 4]" by (rule chain_next_cong [OF rps(3)]) (use at(5) in auto)
  then have "rl_core G rl' (fb4\<lparr>fblks := ar2\<rparr>) A' [] (\<lambda>_. 0) [] (\<lambda>_. 0) [4..<n + 4]"
    using lists unfolding rl_core_def by (simp add: rl'_def rl1_def rl_consts del: upt_Suc)
  then have "rl_inv G rl' (fb4\<lparr>fblks := ar2\<rparr>) [] [4..<n + 4]" unfolding rl_inv_def by (auto simp: rl'_def rl1_def max_ext_def)
  moreover have "hash_chain rl' k []" if "k < nch" for k using that by (simp add: hash_chain_def rl'_def rl1_def nth_append)
  then have "hash_ok rl' {}" unfolding hash_ok_def
    using n nch at(6) by (auto simp: rl'_def rl1_def rl_consts RL_NONE_def intro!: exI [of _ "\<lambda>_. []"])
  moreover have "spares (fb4\<lparr>fblks := ar2\<rparr>) = spares fb4" by (simp add: spares_def)
  ultimately show ?thesis using run h(8) by (auto simp: rl'_def rl1_def)
qed


text \<open>The first region of a new queue is the whole data section.\<close>

lemma table_root:
  assumes inv: "rl_inv G rl fb [] (i # E')" and h: "hash_ok rl {}" "rl_nelems rl = 0" and sp: "2 \<le> spares fb"
    and x: "even x" "0 < x" "0 \<le> off" "off + int x \<le> huge_off_t"
  shows "\<exists>rl' fb' r'. rl_Add off x rl fb r = Some (Some i, rl', fb', r') \<and> spares fb \<le> spares fb' + 2 \<and>
    rl_table G (rl'\<lparr>maxfextent := x\<rparr>) fb' [i] E' {} {} {off ..< off + int x} \<and> span_of (rp rl') i = (off, x) \<and>
    rl_nalloc rl' = rl_nalloc rl \<and> nbytes rl' = nbytes rl \<and> maxbytes rl' = maxbytes rl"
proof -
  obtain A hO FE hE where c: "rl_core G rl fb A [] hO FE hE (i # E')" using rl_invD [OF inv] .
  have off: "off \<notin> slot_off (rp rl) ` set []" by simp
  obtain rl' fb' r' A' hO' FE' hE' where a: "keeps {i} rl rl'" "rl_Add off x rl fb r = Some (Some i, rl', fb', r')" "spares fb \<le> spares fb' + 2"
    "slot_off (rp rl') i = off" "rg_extent (rp rl' ! i) = x" "rl_core G rl' fb' A' (insort_key (slot_off (rp rl')) i []) hO' FE' hE' E'"
    using rl_Add_spec [OF c x(1,3,4) off, of r] sp by fastforce
  have s: "slot_ext (rp rl') i = x" using a(5) x(1) by (simp add: GetExtent_def)
  have "rl_inv G (rl'\<lparr>maxfextent := x\<rparr>) fb' [i] E'" using a(6) s unfolding rl_inv_def by (auto simp: max_ext_def)
  moreover have "hash_ok (rl'\<lparr>maxfextent := x\<rparr>) {}"
    by (rule hash_ok_keeps [OF h(1)]) (use keepsD(1,3) [OF a(1)] in \<open>auto simp: same_hash_def\<close>)
  moreover have "space_ok (rp rl') {i} {off ..< off + int x}" using a(4) s x(2) by (simp add: space_ok_def reg_def)
  moreover have "{off ..< off + int x} \<subseteq> {0 ..< huge_off_t}" using x by auto
  ultimately have "rl_table G (rl'\<lparr>maxfextent := x\<rparr>) fb' [i] E' {} {} {off ..< off + int x}"
    using keepsD(4) [OF a(1)] h(2) unfolding rl_table_def by (simp add: all_alloc_def)
  then show ?thesis using a s keepsD(6-8) [OF a(1)] by (auto simp: span_of_def)
qed

subsection \<open>The interface of a region table\<close>

text \<open>
  What the index of the queue relies on: regions are found by their offset, and returning one leaves the others where
  they are.
\<close>

locale region_table =
  fixes tab :: "'s \<Rightarrow> nat set \<Rightarrow> bool"
    and where_is :: "'s \<Rightarrow> nat \<Rightarrow> int"
    and lookup :: "int \<Rightarrow> 's \<Rightarrow> nat option"
    and release :: "nat \<Rightarrow> 's \<Rightarrow> 's option"
    and enough :: "'s \<Rightarrow> bool"
    and missing :: nat
  assumes lookup_hit: "tab s U \<Longrightarrow> i \<in> U \<Longrightarrow> lookup (where_is s i) s = Some i"
    and lookup_miss: "tab s U \<Longrightarrow> off \<notin> where_is s ` U \<Longrightarrow> lookup off s = Some missing"
    and missing_law: "tab s U \<Longrightarrow> missing \<notin> U"
    and release_law: "tab s U \<Longrightarrow> i \<in> U \<Longrightarrow> enough s \<Longrightarrow>
      \<exists>s'. release i s = Some s' \<and> tab s' (U - {i}) \<and> (\<forall>j \<in> U - {i}. where_is s' j = where_is s j)"
begin

lemma where_is_inj:
  assumes "tab s U"
  shows "inj_on (where_is s) U"
  by (rule inj_onI) (metis lookup_hit [OF assms] option.inject)

lemma lookup_cases:
  assumes "tab s U" "lookup off s = Some i"
  shows "i = missing \<and> off \<notin> where_is s ` U \<or> i \<in> U \<and> where_is s i = off"
  using assms lookup_hit [OF assms(1)] lookup_miss [OF assms(1)] missing_law [OF assms(1)]
  by (cases "off \<in> where_is s ` U") auto

text \<open>A released region is gone and every other one is still found.\<close>

lemma lookup_after_release:
  assumes t: "tab s U" and i: "i \<in> U" and e: "enough s"
  shows "\<exists>s'. release i s = Some s' \<and> tab s' (U - {i}) \<and> lookup (where_is s i) s' = Some missing \<and>
    (\<forall>j \<in> U - {i}. lookup (where_is s j) s' = Some j)"
proof -
  obtain s' where s': "release i s = Some s'" "tab s' (U - {i})" "\<forall>j \<in> U - {i}. where_is s' j = where_is s j"
    using release_law [OF t i e] by blast
  have "where_is s i \<noteq> where_is s j" if "j \<in> U - {i}" for j
    using where_is_inj [OF t] i that by (auto simp: inj_on_def)
  then have "where_is s i \<notin> where_is s' ` (U - {i})" using s'(3) by auto
  from lookup_miss [OF s'(2) this] show ?thesis using s' lookup_hit [OF s'(2)] by metis
qed

end

text \<open>A table inside its arena, with the random numbers its towers use.\<close>

definition table_state :: "guests \<Rightarrow> int set \<Rightarrow> RegionList \<times> FreeBlock \<times> rng \<Rightarrow> nat set \<Rightarrow> bool" where
  "table_state G D s U \<longleftrightarrow> (\<exists>FO E. rl_table G (fst s) (fst (snd s)) FO E U {} D)"

interpretation rlt: region_table "table_state G D" "\<lambda>s. slot_off (rp (fst s))" "\<lambda>off s. rl_Find off (fst s)"
  "\<lambda>i s. rl_Free i (fst s) (fst (snd s)) (snd (snd s))" "\<lambda>s. 4 \<le> spares (fst (snd s))" RL_NONE for G D
proof (unfold_locales, goal_cases)
  case (1 s U i)
  then show ?case using rl_Find_spec(1) rl_tableD(2,3) unfolding table_state_def by blast
next
  case (2 s U off)
  then show ?case using rl_Find_spec(2) rl_tableD(2,3) unfolding table_state_def by blast
next
  case (3 s U)
  then show ?case using table_slot(3) unfolding table_state_def by blast
next
  case (4 s U i)
  then obtain FO E where "rl_table G (fst s) (fst (snd s)) FO E U {} D" unfolding table_state_def by blast
  from rl_Free_spec [OF this 4(2,3), of "snd (snd s)"] show ?case
    unfolding table_state_def span_of_def by fastforce
qed


subsection \<open>Properties\<close>

lemma rl_Free_joins_spec:
  assumes t: "rl_table G rl fb FO E U {} D" and i: "i \<in> U" and sp: "4 \<le> spares fb"
  shows "\<exists>rl' fb' r' FO' E'. rl_Free i rl fb r = Some (rl', fb', r') \<and> rl_table G rl' fb' FO' E' (U - {i}) {} D \<and>
    cover (spans (rp rl') FO') = cover (spans (rp rl) FO) \<union> reg (rp rl) i \<and>
    (joined (spans (rp rl) FO) \<longrightarrow> joined (spans (rp rl') FO')) \<and>
    rl_Find (slot_off (rp rl) i) rl' = Some RL_NONE \<and>
    (\<forall>j \<in> U - {i}. span_of (rp rl') j = span_of (rp rl) j \<and> rl_Find (slot_off (rp rl) j) rl' = Some j)"
proof -
  obtain rl' fb' r' FO' E' where f: "rl_Free i rl fb r = Some (rl', fb', r')" "rl_table G rl' fb' FO' E' (U - {i}) {} D"
    "spans (rp rl') FO' = put_span (span_of (rp rl) i) (spans (rp rl) FO)" "\<forall>j \<in> U - {i}. span_of (rp rl') j = span_of (rp rl) j"
    using rl_Free_spec [OF t i sp, of r] by (elim exE conjE) (rule that)
  have ts: "table_state G D (rl, fb, r) U" using t by (auto simp: table_state_def)
  have look: "rl_Find (slot_off (rp rl) i) rl' = Some RL_NONE \<and> (\<forall>j \<in> U - {i}. rl_Find (slot_off (rp rl) j) rl' = Some j)"
    using rlt.lookup_after_release [OF ts i] sp f(1) by auto
  have "cover (spans (rp rl') FO') = cover (spans (rp rl) FO) \<union> reg (rp rl) i"
    unfolding f(3) put_span_cover by (simp add: span_of_def reg_def)
  moreover have "joined (spans (rp rl) FO) \<longrightarrow> joined (spans (rp rl') FO')" unfolding f(3) using put_span_joined by blast
  ultimately show ?thesis using f(1,2,4) look by blast
qed

text \<open>
  C37. Best fit. \<open>RegionList::Get\<close> on a well-formed table always returns. It reports \<open>RL_NONE\<close> with nothing changed
  exactly when every free region is too small; otherwise it takes the smallest free region that is large enough, the
  one at the lowest offset among several, out of the free space, and the regions still partition the data section.
\<close>

theorem rl_Get_best_fit:
  assumes "rl_table G rl fb FO E U {} D"
  shows "(\<forall>j \<in> set FO. slot_ext (rp rl) j < e) \<and> rl_Get e rl fb = Some (RL_NONE, rl, fb) \<or>
    (\<exists>i rl' fb'. rl_Get e rl fb = Some (i, rl', fb') \<and> i \<in> set FO \<and> e \<le> slot_ext (rp rl) i \<and>
       (\<forall>j \<in> set FO. e \<le> slot_ext (rp rl) j \<longrightarrow> ekey (rp rl) i \<le> ekey (rp rl) j) \<and>
       rl_table G rl' fb' (remove1 i FO) E U {i} D \<and> rp rl' = rp rl)"
  using rl_Get_table [OF assms, of e] by blast

definition big_arena :: FreeBlock where
  "big_arena = the (FreeBlock_Initialize 16 (raw_arena 100))"

lemma log4_of_16: "log4 16 = 2"
  by (simp add: log4.simps [of 16] log4_of_4)

lemma big_arena_spec: "fb_inv big_arena Map.empty" "maxsize big_arena = 3" "spares big_arena = 24"
proof -
  have "isqrt 5184 = 72" by (rule isqrt_unique) simp_all
  then have "GetArenaSize 16 \<le> length (fblks (raw_arena 100))"
    by (simp add: GetArenaSize_def log4_of_16 raw_arena_def next_numblks_def numeral_3_eq_3 numeral_2_eq_2)
  then have "\<exists>fb'. FreeBlock_Initialize 16 (raw_arena 100) = Some fb' \<and> fb_inv fb' Map.empty \<and> maxsize fb' = log4 16 + 1"
    by (intro FreeBlock_Initialize_spec) (simp_all add: raw_arena_def SIZE_NONE_def log4_of_16 FB_MAX_LEVELS_def)
  then show "fb_inv big_arena Map.empty" "maxsize big_arena = 3" and "spares big_arena = 24"
    using FreeBlock_Initialize_spares [of 16 "raw_arena 100" big_arena] isqrt_unique [of 24 576] by (auto simp: big_arena_def log4_of_16)
qed


definition raw_table :: RegionList where
  "raw_table = \<lparr>rl_nalloc = 0, rl_nchains = 0, rl_empty = 0, rl_nelems = 0, maxelems = 0, rl_nfree = 0, maxfree = 0,
     maxfextent = 0, nempty = 0, minempty = 0, nbytes = 0, maxbytes = 0, level_foff = 0, foff = 0, level_fext = 0, fext = 0,
     rp = replicate 20 \<lparr>rg_offset = 0, rg_extent = 0, rg_next = 0, rg_prev = 0\<rparr>, rh_magic = 0, rh_chains = replicate 3 0\<rparr>"

lemma raw_table_chains: "CalculateNumChains 16 = Some 3"
proof -
  have "prevPrime_loop 3 = Some 3" using prevPrime_loop_spec [of 3] by auto
  then show ?thesis by (simp add: CalculateNumChains_def prevPrime_def RL_EXP_CHAIN_LEN_def)
qed

text \<open>A table with a free region of 4096 bytes, and one in which that region is allocated.\<close>

lemma demo_table:
  "\<exists>G rl fb E. rl_table G rl fb [4] E {} {} {8192 ..< 12288} \<and> span_of (rp rl) 4 = (8192, 4096) \<and> 18 \<le> spares fb \<and> rl_nalloc rl = 16"
proof -
  let ?G = "(3, Map.empty) :: guests"
  have g: "guests_ok ?G Map.empty big_arena {}" by (simp add: guests_ok_def big_arena_spec)
  obtain rl fb where i: "rl_Initialize 16 raw_table big_arena = Some (rl, fb)" "rl_inv ?G rl fb [] [4..<20]" "hash_ok rl {}"
    "spares big_arena \<le> spares fb + 4" "rl_nalloc rl = 16" "rl_nelems rl = 0"
    using rl_Initialize_spec [OF big_arena_spec(1) g, of 16 raw_table 3] raw_table_chains
    by (auto simp: big_arena_spec raw_table_def SIZE_NONE_def)
  have "[4..<20] = 4 # [5..<20 :: nat]" by (simp add: upt_conv_Cons)
  then have inv: "rl_inv ?G rl fb [] (4 # [5..<20])" using i(2) by simp
  have sp: "20 \<le> spares fb" using i(4) big_arena_spec(3) by simp
  have "\<exists>rl' fb' r'. rl_Add 8192 4096 rl fb rng_init = Some (Some 4, rl', fb', r') \<and> spares fb \<le> spares fb' + 2 \<and>
    rl_table ?G (rl'\<lparr>maxfextent := 4096\<rparr>) fb' [4] [5..<20] {} {} {8192 ..< 8192 + int 4096} \<and> span_of (rp rl') 4 = (8192, 4096) \<and>
    rl_nalloc rl' = rl_nalloc rl \<and> nbytes rl' = nbytes rl \<and> maxbytes rl' = maxbytes rl"
    by (rule table_root [OF inv i(3,6)]) (use sp in \<open>simp_all add: huge_off_t_def\<close>)
  then obtain rl' fb' where a: "spares fb \<le> spares fb' + 2" "rl_table ?G (rl'\<lparr>maxfextent := 4096\<rparr>) fb' [4] [5..<20] {} {} {8192 ..< 8192 + int 4096}"
    "span_of (rp rl') 4 = (8192, 4096)" "rl_nalloc rl' = rl_nalloc rl" by blast
  have "18 \<le> spares fb'" using a(1) sp by simp
  then show ?thesis using a(2-4) i(5) by (intro exI [of _ ?G] exI [of _ "rl'\<lparr>maxfextent := 4096\<rparr>"] exI [of _ fb'] exI [of _ "[5..<20]"]) simp
qed

lemma demo_table_allocated:
  "\<exists>G rl fb E. rl_table G rl fb [] E {4} {} {8192 ..< 12288} \<and> span_of (rp rl) 4 = (8192, 4096) \<and> 18 \<le> spares fb"
proof -
  obtain G rl fb E where t: "rl_table G rl fb [4] E {} {} {8192 ..< 12288}" "span_of (rp rl) 4 = (8192, 4096)" "18 \<le> spares fb"
    using demo_table by blast
  obtain rl1 fb1 where g: "rl_table G rl1 fb1 (remove1 4 [4]) E {} {4} {8192 ..< 12288}" "rp rl1 = rp rl" "spares fb1 = spares fb"
    using rl_Get_table [OF t(1), of 4096] t(2) by (auto simp: span_of_def)
  obtain rl2 where "rl_table G rl2 fb1 (remove1 4 [4]) E (insert 4 {}) {} {8192 ..< 12288}" "\<forall>j. span_of (rp rl2) j = span_of (rp rl1) j"
    using hash_taken [OF g(1)] by blast
  then show ?thesis using g(2,3) t(2,3)
    by (intro exI [of _ G] exI [of _ rl2] exI [of _ fb1] exI [of _ E]) simp
qed

theorem rl_Get_best_fit_witness:
  "\<exists>G rl fb rl' fb'. rl_Get 100 rl fb = Some (4, rl', fb') \<and> slot_ext (rp rl) 4 = 4096 \<and> rl_Get 5000 rl fb = Some (RL_NONE, rl, fb)"
proof -
  obtain G rl fb E where t: "rl_table G rl fb [4] E {} {} {8192 ..< 12288}" "span_of (rp rl) 4 = (8192, 4096)"
    using demo_table by blast
  have e: "slot_ext (rp rl) 4 = 4096" using t(2) by (simp add: span_of_def)
  obtain rl' fb' where "rl_Get 100 rl fb = Some (4, rl', fb')" using rl_Get_best_fit [OF t(1), of 100] e by auto
  moreover have "rl_Get 5000 rl fb = Some (RL_NONE, rl, fb)" using rl_Get_best_fit [OF t(1), of 5000] e by auto
  ultimately show ?thesis using e by blast
qed

text \<open>
  C38. Freeing. \<open>RegionList::Free\<close> of an allocated region of a well-formed table, with four spare towers in the arena,
  passes every assertion. The free space grows by exactly the bytes of that region and is joined with its neighbours:
  if no two neighbouring free regions touched before, none do afterwards. The region can no longer be found by its
  offset; every other allocated region keeps its place and is still found, and the regions still partition the data
  section.
\<close>

theorem rl_Free_joins:
  assumes "rl_table G rl fb FO E U {} D" "i \<in> U" "4 \<le> spares fb"
  shows "\<exists>rl' fb' r' FO' E'. rl_Free i rl fb r = Some (rl', fb', r') \<and> rl_table G rl' fb' FO' E' (U - {i}) {} D \<and>
    cover (spans (rp rl') FO') = cover (spans (rp rl) FO) \<union> reg (rp rl) i \<and>
    (joined (spans (rp rl) FO) \<longrightarrow> joined (spans (rp rl') FO')) \<and>
    rl_Find (slot_off (rp rl) i) rl' = Some RL_NONE \<and>
    (\<forall>j \<in> U - {i}. span_of (rp rl') j = span_of (rp rl) j \<and> rl_Find (slot_off (rp rl) j) rl' = Some j)"
  using assms by (rule rl_Free_joins_spec)

theorem rl_Free_joins_witness:
  "\<exists>rl fb rl' fb' r' FO'. rl_Free 4 rl fb rng_init = Some (rl', fb', r') \<and> cover (spans (rp rl') FO') = {8192 ..< 12288} \<and>
     rl_Find 8192 rl' = Some RL_NONE"
proof -
  obtain G rl fb E where t: "rl_table G rl fb [] E {4} {} {8192 ..< 12288}" "span_of (rp rl) 4 = (8192, 4096)" "18 \<le> spares fb"
    using demo_table_allocated by blast
  have "reg (rp rl) 4 = {8192 ..< 12288}" "slot_off (rp rl) 4 = 8192" using t(2) by (simp_all add: span_of_def reg_def)
  moreover have "4 \<in> {4 :: nat}" "4 \<le> spares fb" using t(3) by simp_all
  ultimately show ?thesis using rl_Free_joins [OF t(1), of 4 rng_init] unfolding spans_simps(1) cover_simps(1) Un_empty_left by metis
qed

end
