(* ===== verification/Signature_Index.thy ===== *)
theory Signature_Index
  imports Math_Util "HOL-Library.Word"
begin

text \<open>
  src/storage/pq/SignatureIndex.h and SignatureIndex.cpp: the hash table from product signatures to
  queue offsets. Elements live in the array \<open>sxep\<close>; each bucket of \<open>chains\<close> starts a singly linked
  list of elements, and the unused elements form a free list through the same \<open>next\<close> field.

  The abstract view is a function from signatures to the offsets stored under them, newest first.
  \<open>sx_inv sx M\<close> says that \<open>sx\<close> is a well-formed table with contents \<open>M\<close>.
\<close>

subsection \<open>State\<close>

type_synonym Signature = "8 word list"

definition SX_NONE :: nat where "SX_NONE = SIZE_NONE"

definition SX_EXP_CHAIN_LEN :: nat where "SX_EXP_CHAIN_LEN = 4"

definition SX_MAGIC :: nat where "SX_MAGIC = 0x53584841"

definition SIG_LEN :: nat where "SIG_LEN = 16"

record SignatureElement =
  sxi :: Signature
  se_offset :: int
  se_next :: nat

record SignatureIndex =
  sx_nalloc :: nat
  sx_nelems :: nat
  sx_nchains :: nat
  sx_free_head :: nat
  sx_nfree :: nat
  sxep :: "SignatureElement list"
  sx_magic :: nat
  sx_chains :: "nat list"

subsection \<open>Operations\<close>

definition calc_nchains :: "nat \<Rightarrow> nat option" where
  "calc_nchains nelems = prevPrime (nelems div SX_EXP_CHAIN_LEN)"

primrec hash_bytes :: "nat \<Rightarrow> Signature \<Rightarrow> nat" where
  "hash_bytes n [] = n"
| "hash_bytes n (b # bs) = hash_bytes ((256 * n + unat b) mod 2 ^ 32) bs"

text \<open>A remainder by zero is undefined behaviour, hence \<open>None\<close>.\<close>

definition sx_Hash :: "SignatureIndex \<Rightarrow> Signature \<Rightarrow> nat option" where
  "sx_Hash sx sig = do {
     log_assert (sx_nchains sx \<noteq> 0);
     Some (hash_bytes 0 (take 4 sig) mod sx_nchains sx) }"

definition sx_Initialize :: "nat \<Rightarrow> SignatureIndex \<Rightarrow> SignatureIndex option" where
  "sx_Initialize allocSize sx = do {
     nch \<leftarrow> calc_nchains allocSize;
     log_assert (nch \<le> length (sx_chains sx)); \<comment> \<open>the fill loops stay inside the mapped area\<close>
     log_assert (allocSize \<le> length (sxep sx));
     let fresh = map (\<lambda>i. \<lparr>sxi = replicate SIG_LEN 0, se_offset = -1, se_next = i + 1\<rparr>) [0..<allocSize];
     lst \<leftarrow> rd fresh (sz_dec allocSize);
     es \<leftarrow> wr fresh (sz_dec allocSize) (lst\<lparr>se_next := SX_NONE\<rparr>);
     Some \<lparr>sx_nalloc = allocSize, sx_nelems = 0, sx_nchains = nch, sx_free_head = 0, sx_nfree = allocSize,
           sxep = es @ drop allocSize (sxep sx), sx_magic = SX_MAGIC,
           sx_chains = replicate nch SX_NONE @ drop nch (sx_chains sx)\<rparr> }"

definition sx_AllocateElement :: "SignatureIndex \<Rightarrow> (nat \<times> SignatureIndex) option" where
  "sx_AllocateElement sx =
     (if sx_nfree sx = 0 then Some (SX_NONE, sx)
      else do {
        let av = sx_free_head sx;
        elem \<leftarrow> rd (sxep sx) av;
        Some (av, sx\<lparr>sx_free_head := se_next elem, sx_nfree := sz_dec (sx_nfree sx)\<rparr>) })"

definition sx_FreeElement :: "nat \<Rightarrow> SignatureIndex \<Rightarrow> SignatureIndex option" where
  "sx_FreeElement index sx = do {
     elem \<leftarrow> rd (sxep sx) index;
     es \<leftarrow> wr (sxep sx) index (elem\<lparr>se_offset := -1, se_next := sx_free_head sx\<rparr>);
     Some (sx\<lparr>sxep := es, sx_free_head := index, sx_nfree := sz_inc (sx_nfree sx)\<rparr>) }"

partial_function (option) sx_Find_loop :: "SignatureElement list \<Rightarrow> Signature \<Rightarrow> nat \<Rightarrow> nat option option" where
  "sx_Find_loop es sig nxt =
     (if nxt = SX_NONE then Some None
      else do {
        elem \<leftarrow> rd es nxt;
        if sig = sxi elem then Some (Some nxt) else sx_Find_loop es sig (se_next elem) })"

declare sx_Find_loop.simps [code]

text \<open>\<open>Find\<close> answers with the index of the element, \<open>None\<close> standing for the null pointer and \<open>false\<close>.\<close>

definition sx_Find :: "Signature \<Rightarrow> SignatureIndex \<Rightarrow> nat option option" where
  "sx_Find sig sx = do {
     log_assert (sx_magic sx = SX_MAGIC);
     hash_idx \<leftarrow> sx_Hash sx sig;
     nxt \<leftarrow> rd (sx_chains sx) hash_idx;
     sx_Find_loop (sxep sx) sig nxt }"

definition sx_Add :: "Signature \<Rightarrow> int \<Rightarrow> SignatureIndex \<Rightarrow> (nat option \<times> SignatureIndex) option" where
  "sx_Add sig off sx = do {
     log_assert (sx_magic sx = SX_MAGIC);
     log_assert (sx_nalloc sx \<noteq> 0);
     log_assert (sz_add (sx_nfree sx) (sx_nelems sx) = sx_nalloc sx);
     (sxix, sx1) \<leftarrow> sx_AllocateElement sx;
     if sxix = SX_NONE then Some (None, sx1)
     else do {
       hash_idx \<leftarrow> sx_Hash sx1 sig;
       nxt \<leftarrow> rd (sx_chains sx1) hash_idx;
       es \<leftarrow> wr (sxep sx1) sxix \<lparr>sxi = sig, se_offset = off, se_next = nxt\<rparr>;
       chs \<leftarrow> wr (sx_chains sx1) hash_idx sxix;
       Some (Some sxix, sx1\<lparr>sxep := es, sx_chains := chs, sx_nelems := sz_inc (sx_nelems sx1)\<rparr>) } }"

partial_function (option) sx_Remove_loop ::
  "Signature \<Rightarrow> nat \<Rightarrow> SignatureElement \<Rightarrow> SignatureIndex \<Rightarrow> (bool \<times> SignatureIndex) option" where
  "sx_Remove_loop sig prv elem sx =
     (if se_next elem = SX_NONE then Some (False, sx)
      else do {
        let nxt = se_next elem;
        elem' \<leftarrow> rd (sxep sx) nxt;
        if sig = sxi elem' then do {
          es \<leftarrow> wr (sxep sx) prv (elem\<lparr>se_next := se_next elem'\<rparr>);
          sx1 \<leftarrow> sx_FreeElement nxt (sx\<lparr>sxep := es\<rparr>);
          Some (True, sx1\<lparr>sx_nelems := sz_dec (sx_nelems sx1)\<rparr>) }
        else sx_Remove_loop sig nxt elem' sx })"

declare sx_Remove_loop.simps [code]

definition sx_Remove :: "Signature \<Rightarrow> SignatureIndex \<Rightarrow> (bool \<times> SignatureIndex) option" where
  "sx_Remove sig sx = do {
     log_assert (sx_magic sx = SX_MAGIC);
     log_assert (sz_add (sx_nfree sx) (sx_nelems sx) = sx_nalloc sx);
     hash_idx \<leftarrow> sx_Hash sx sig;
     nxt \<leftarrow> rd (sx_chains sx) hash_idx;
     if nxt = SX_NONE then Some (False, sx)
     else do {
       elem \<leftarrow> rd (sxep sx) nxt;
       if sig = sxi elem then do {
         chs \<leftarrow> wr (sx_chains sx) hash_idx (se_next elem);
         sx1 \<leftarrow> sx_FreeElement nxt (sx\<lparr>sx_chains := chs\<rparr>);
         Some (True, sx1\<lparr>sx_nelems := sz_dec (sx_nelems sx1)\<rparr>) }
       else sx_Remove_loop sig nxt elem sx } }"

subsection \<open>Well-formed tables\<close>

abbreviation sx_bucket :: "SignatureIndex \<Rightarrow> Signature \<Rightarrow> nat" where
  "sx_bucket sx sig \<equiv> hash_bytes 0 (take 4 sig) mod sx_nchains sx"

abbreviation sx_nx :: "SignatureElement list \<Rightarrow> nat \<Rightarrow> nat" where
  "sx_nx es i \<equiv> se_next (es ! i)"

definition sx_core :: "SignatureIndex \<Rightarrow> (nat \<Rightarrow> nat list) \<Rightarrow> nat list \<Rightarrow> bool" where
  "sx_core sx ch fl \<longleftrightarrow>
     sx_magic sx = SX_MAGIC \<and> 0 < sx_nchains sx \<and> sx_nchains sx \<le> length (sx_chains sx) \<and>
     0 < sx_nalloc sx \<and> sx_nalloc sx \<le> length (sxep sx) \<and> sx_nalloc sx < SX_NONE \<and>
     (\<forall>c < sx_nchains sx. chain (sx_nx (sxep sx)) (sx_chains sx ! c) (ch c)) \<and>
     chain (sx_nx (sxep sx)) (sx_free_head sx) fl \<and>
     (\<forall>c < sx_nchains sx. \<forall>i \<in> set (ch c). i < sx_nalloc sx \<and> i \<notin> set fl \<and> sx_bucket sx (sxi (sxep sx ! i)) = c) \<and>
     set fl \<subseteq> {..<sx_nalloc sx} \<and>
     {..<sx_nalloc sx} \<subseteq> set fl \<union> (\<Union>c < sx_nchains sx. set (ch c)) \<and>
     sx_nfree sx = length fl \<and> sx_nelems sx = (\<Sum>c < sx_nchains sx. length (ch c))"

definition sx_view :: "SignatureIndex \<Rightarrow> (nat \<Rightarrow> nat list) \<Rightarrow> Signature \<Rightarrow> int list" where
  "sx_view sx ch sig =
     map (\<lambda>i. se_offset (sxep sx ! i)) (filter (\<lambda>i. sxi (sxep sx ! i) = sig) (ch (sx_bucket sx sig)))"

definition sx_inv :: "SignatureIndex \<Rightarrow> (Signature \<Rightarrow> int list) \<Rightarrow> bool" where
  "sx_inv sx M \<longleftrightarrow> (\<exists>ch fl. sx_core sx ch fl \<and> M = sx_view sx ch)"

lemma sx_coreD:
  assumes "sx_core sx ch fl"
  shows "sx_magic sx = SX_MAGIC" "0 < sx_nchains sx" "sx_nchains sx \<le> length (sx_chains sx)"
    "0 < sx_nalloc sx" "sx_nalloc sx \<le> length (sxep sx)" "sx_nalloc sx < SX_NONE"
    "c < sx_nchains sx \<Longrightarrow> chain (sx_nx (sxep sx)) (sx_chains sx ! c) (ch c)"
    "chain (sx_nx (sxep sx)) (sx_free_head sx) fl"
    "c < sx_nchains sx \<Longrightarrow> i \<in> set (ch c) \<Longrightarrow> i < sx_nalloc sx"
    "c < sx_nchains sx \<Longrightarrow> i \<in> set (ch c) \<Longrightarrow> i \<notin> set fl"
    "c < sx_nchains sx \<Longrightarrow> i \<in> set (ch c) \<Longrightarrow> sx_bucket sx (sxi (sxep sx ! i)) = c"
    "set fl \<subseteq> {..<sx_nalloc sx}"
    "{..<sx_nalloc sx} \<subseteq> set fl \<union> (\<Union>c < sx_nchains sx. set (ch c))"
    "sx_nfree sx = length fl" "sx_nelems sx = (\<Sum>c < sx_nchains sx. length (ch c))"
  using assms unfolding sx_core_def by blast+

lemma sum_length_upd:
  assumes "c < (n::nat)"
  shows "(\<Sum>i < n. length ((ch(c := ys)) i)) + length (ch c) = (\<Sum>i < n. length (ch i)) + length ys"
proof -
  have "(\<Sum>i < n. length ((ch(c := ys)) i)) = length ys + (\<Sum>i \<in> {..<n} - {c}. length (ch i))"
    using assms by (subst sum.remove [of _ c]) (auto intro!: sum.cong)
  moreover have "(\<Sum>i < n. length (ch i)) = length (ch c) + (\<Sum>i \<in> {..<n} - {c}. length (ch i))"
    using assms by (subst sum.remove [of _ c]) auto
  ultimately show ?thesis by simp
qed

text \<open>Every slot is either free or in exactly one bucket.\<close>

lemma sx_count:
  assumes core: "sx_core sx ch fl"
  shows "sx_nfree sx + sx_nelems sx = sx_nalloc sx"
proof -
  note D = sx_coreD [OF core]
  let ?U = "\<Union>c < sx_nchains sx. set (ch c)"
  have "card ?U = (\<Sum>c < sx_nchains sx. card (set (ch c)))"
  proof (rule card_UN_disjoint)
    show "\<forall>c \<in> {..<sx_nchains sx}. \<forall>d \<in> {..<sx_nchains sx}. c \<noteq> d \<longrightarrow> set (ch c) \<inter> set (ch d) = {}"
      using D(11) by (metis disjoint_iff lessThan_iff)
  qed simp_all
  also have "\<dots> = sx_nelems sx"
    using D(7) by (auto simp: D(15) intro!: sum.cong distinct_card chain_distinct)
  finally have U: "card ?U = sx_nelems sx" .
  have "{..<sx_nalloc sx} = set fl \<union> ?U" using D(9,12,13) by blast
  then have "sx_nalloc sx = card (set fl \<union> ?U)" by (metis card_lessThan)
  also have "\<dots> = card (set fl) + card ?U" using D(10) by (intro card_Un_disjoint) auto
  also have "card (set fl) = sx_nfree sx"
    using D(8,14) by (simp add: distinct_card chain_distinct)
  finally show ?thesis using U by simp
qed

lemma sx_checks:
  assumes core: "sx_core sx ch fl"
  shows "sz_add (sx_nfree sx) (sx_nelems sx) = sx_nalloc sx"
    "sx_Hash sx sig = Some (sx_bucket sx sig)" "sx_bucket sx sig < sx_nchains sx"
proof -
  show "sz_add (sx_nfree sx) (sx_nelems sx) = sx_nalloc sx"
    using sx_count [OF core] sx_coreD(6) [OF core] by (subst sz_add_small) (simp_all add: SX_NONE_def SIZE_NONE_def)
  show "sx_Hash sx sig = Some (sx_bucket sx sig)" "sx_bucket sx sig < sx_nchains sx"
    using sx_coreD(2) [OF core] by (simp_all add: sx_Hash_def)
qed

subsection \<open>Lookup\<close>

lemma sx_Find_loop_spec:
  assumes "chain (sx_nx es) p is" "\<forall>i \<in> set is. i < length es"
  shows "sx_Find_loop es sig p =
    Some (case filter (\<lambda>i. sxi (es ! i) = sig) is of [] \<Rightarrow> None | i # _ \<Rightarrow> Some i)"
  using assms
proof (induction "is" arbitrary: p)
  case Nil
  then show ?case by (subst sx_Find_loop.simps) (simp add: SX_NONE_def)
next
  case (Cons i "is")
  then have "sx_Find_loop es sig (se_next (es ! i)) =
      Some (case filter (\<lambda>i. sxi (es ! i) = sig) is of [] \<Rightarrow> None | i # _ \<Rightarrow> Some i)" by simp
  with Cons.prems show ?case by (subst sx_Find_loop.simps) (auto simp: SX_NONE_def)
qed

lemma sx_Find_core:
  assumes core: "sx_core sx ch fl"
  shows "sx_Find sig sx =
    Some (case filter (\<lambda>i. sxi (sxep sx ! i) = sig) (ch (sx_bucket sx sig)) of [] \<Rightarrow> None | i # _ \<Rightarrow> Some i)"
proof -
  note D = sx_coreD [OF core] and C = sx_checks [OF core]
  have "\<forall>i \<in> set (ch (sx_bucket sx sig)). i < length (sxep sx)"
    using D(9) [OF C(3)] D(5) less_le_trans by blast
  from sx_Find_loop_spec [OF D(7) [OF C(3)] this] show ?thesis
    using D(1,3) C(2,3) [of sig] by (simp add: sx_Find_def)
qed


subsection \<open>Insertion\<close>

lemma sx_Add_full:
  assumes core: "sx_core sx ch fl" and "sx_nfree sx = 0"
  shows "sx_Add sig off sx = Some (None, sx)"
  using sx_checks(1) [OF core] sx_coreD [OF core] assms(2)
  by (simp add: sx_Add_def sx_AllocateElement_def)

lemma sx_Add_core:
  fixes sig :: Signature and off :: int
  assumes core: "sx_core sx ch (i # fl)"
  defines "c \<equiv> sx_bucket sx sig"
  defines "sx' \<equiv> sx\<lparr>sx_free_head := sx_nx (sxep sx) i, sx_nfree := length fl,
      sxep := (sxep sx)[i := \<lparr>sxi = sig, se_offset = off, se_next = sx_chains sx ! c\<rparr>],
      sx_chains := (sx_chains sx)[c := i], sx_nelems := Suc (sx_nelems sx)\<rparr>"
  shows "sx_Add sig off sx = Some (Some i, sx')" "sx_core sx' (ch(c := i # ch c)) fl"
    "sx_view sx' (ch(c := i # ch c)) = (sx_view sx ch)(sig := off # sx_view sx ch sig)"
proof -
  note D = sx_coreD [OF core]
  have c: "c < sx_nchains sx" using sx_checks(3) [OF core] by (simp add: c_def)
  have i: "i < sx_nalloc sx" "sx_free_head sx = i" "i \<noteq> SX_NONE" "i < length (sxep sx)"
      "chain (sx_nx (sxep sx)) (sx_nx (sxep sx) i) fl" "i \<notin> set fl"
    using D(5,6,8,12) chain_distinct [OF D(8)] by (auto simp: SX_NONE_def)
  have lim: "sx_nalloc sx < 2 ^ 64" using D(6) by (simp add: SX_NONE_def SIZE_NONE_def)
  have cnt: "sx_nelems sx + 1 < 2 ^ 64" "Suc (length fl) < 2 ^ 64"
    using sx_count [OF core] D(14) lim by simp_all
  show "sx_Add sig off sx = Some (Some i, sx')"
    using D(1-5,14) sx_checks(1,2) [OF core] c i lim cnt
    by (simp add: sx_Add_def sx_AllocateElement_def sx_Hash_def sx'_def c_def Let_def)
  have nin: "i \<notin> set (ch d)" if "d < sx_nchains sx" for d using D(10) [OF that] by auto
  have same: "j \<noteq> i \<Longrightarrow> sxep sx' ! j = sxep sx ! j" for j by (simp add: sx'_def)
  have at: "sxep sx' ! i = \<lparr>sxi = sig, se_offset = off, se_next = sx_chains sx ! c\<rparr>" using i by (simp add: sx'_def)
  have nch: "sx_nchains sx' = sx_nchains sx" and na: "sx_nalloc sx' = sx_nalloc sx" by (simp_all add: sx'_def)
  have ch: "chain (sx_nx (sxep sx')) q is" if "chain (sx_nx (sxep sx)) q is" "i \<notin> set is" for q "is"
    by (rule chain_cong [OF that(1)]) (use that(2) in \<open>metis same\<close>)
  have chains: "chain (sx_nx (sxep sx')) (sx_chains sx' ! d) ((ch(c := i # ch c)) d)" if d: "d < sx_nchains sx" for d
  proof (cases "d = c")
    case True
    then show ?thesis using ch [OF D(7) [OF c] nin [OF c]] at i c D(3) by (simp add: sx'_def SX_NONE_def)
  next
    case False
    then show ?thesis using ch [OF D(7) [OF d] nin [OF d]] by (simp add: sx'_def)
  qed
  have mem: "j < sx_nalloc sx \<and> j \<notin> set fl \<and> sx_bucket sx' (sxi (sxep sx' ! j)) = d"
    if "d < sx_nchains sx" "j \<in> set ((ch(c := i # ch c)) d)" for d j
  proof (cases "j = i")
    case True
    then have "d = c" using that nin [OF that(1)] by (auto split: if_splits)
    then show ?thesis using True i at by (simp add: nch c_def)
  next
    case False
    then have "j \<in> set (ch d)" using that by (auto split: if_splits)
    then show ?thesis using D(9-11) [OF that(1)] False by (auto simp: same nch)
  qed
  have sum: "sx_nelems sx' = (\<Sum>d < sx_nchains sx. length ((ch(c := i # ch c)) d))"
    using sum_length_upd [OF c, of ch "i # ch c"] D(15) by (simp add: sx'_def)
  have cover: "{..<sx_nalloc sx} \<subseteq> set fl \<union> (\<Union>d < sx_nchains sx. set ((ch(c := i # ch c)) d))"
  proof
    fix j assume "j \<in> {..<sx_nalloc sx}"
    then consider "j = i" | "j \<in> set fl" | d where "d < sx_nchains sx" "j \<in> set (ch d)" using D(13) by auto
    then show "j \<in> set fl \<union> (\<Union>d < sx_nchains sx. set ((ch(c := i # ch c)) d))"
      using c by cases auto
  qed
  show "sx_core sx' (ch(c := i # ch c)) fl"
    unfolding sx_core_def nch na
  proof (intro conjI allI impI ballI chains cover sum)
    fix d j assume "d < sx_nchains sx" "j \<in> set ((ch(c := i # ch c)) d)"
    from mem [OF this] show "j < sx_nalloc sx" "j \<notin> set fl" "sx_bucket sx (sxi (sxep sx' ! j)) = d"
      by (simp_all add: nch)
  next
    show "chain (sx_nx (sxep sx')) (sx_free_head sx') fl" using ch [OF i(5,6)] by (simp add: sx'_def)
  qed (use D(1-6,12) in \<open>auto simp: sx'_def\<close>)
  show "sx_view sx' (ch(c := i # ch c)) = (sx_view sx ch)(sig := off # sx_view sx ch sig)"
  proof
    fix s
    have f: "map (\<lambda>j. se_offset (sxep sx' ! j)) (filter (\<lambda>j. sxi (sxep sx' ! j) = s) js) =
        map (\<lambda>j. se_offset (sxep sx ! j)) (filter (\<lambda>j. sxi (sxep sx ! j) = s) js)" if "i \<notin> set js" for js
      using that by (induction js) (auto simp: same)
    show "sx_view sx' (ch(c := i # ch c)) s = ((sx_view sx ch)(sig := off # sx_view sx ch sig)) s"
      using f [OF nin [OF sx_checks(3) [OF core]]] f [OF nin [OF c]] at by (auto simp: sx_view_def nch c_def)
  qed
qed

subsection \<open>Removal\<close>

lemma sx_unlink_core:
  assumes core: "sx_core sx ch fl" and c: "c < sx_nchains sx" and split: "ch c = us @ i # vs"
    and scal: "sx_magic sx' = sx_magic sx" "sx_nchains sx' = sx_nchains sx" "sx_nalloc sx' = sx_nalloc sx"
      "length (sxep sx') = length (sxep sx)" "length (sx_chains sx') = length (sx_chains sx)"
    and chn: "chain (sx_nx (sxep sx')) (sx_chains sx' ! c) (us @ vs)"
      "\<And>d. d \<noteq> c \<Longrightarrow> sx_chains sx' ! d = sx_chains sx ! d"
    and same: "\<And>j. j \<noteq> i \<Longrightarrow> sxi (sxep sx' ! j) = sxi (sxep sx ! j) \<and> se_offset (sxep sx' ! j) = se_offset (sxep sx ! j)"
      "\<And>j. j \<notin> set (us @ [i]) \<Longrightarrow> sx_nx (sxep sx') j = sx_nx (sxep sx) j"
    and free: "sx_nx (sxep sx') i = sx_free_head sx" "sx_free_head sx' = i"
      "sx_nfree sx' = Suc (sx_nfree sx)" "sx_nelems sx' = sx_nelems sx - 1"
  shows "sx_core sx' (ch(c := us @ vs)) (i # fl)"
    "sxi (sxep sx ! i) = sig \<Longrightarrow> (\<forall>j \<in> set us. sxi (sxep sx ! j) \<noteq> sig) \<Longrightarrow>
       sx_view sx' (ch(c := us @ vs)) = (sx_view sx ch)(sig := tl (sx_view sx ch sig))"
proof -
  note D = sx_coreD [OF core]
  have dist: "distinct (us @ i # vs)" using chain_distinct [OF D(7) [OF c]] split by simp
  have i: "i < sx_nalloc sx" "i \<notin> set fl" "i \<noteq> SIZE_NONE" "sx_bucket sx (sxi (sxep sx ! i)) = c"
    using D(9-11) [OF c, of i] chain_nonNone [OF D(7) [OF c]] split by auto
  have other: "set (ch d) \<inter> set (us @ [i]) = {}" if "d < sx_nchains sx" "d \<noteq> c" for d
    using D(11) [OF that(1)] D(11) [OF c] that split by fastforce
  have chains: "chain (sx_nx (sxep sx')) (sx_chains sx' ! d) ((ch(c := us @ vs)) d)" if d: "d < sx_nchains sx" for d
  proof (cases "d = c")
    case False
    have "chain (sx_nx (sxep sx')) (sx_chains sx ! d) (ch d)"
      using other [OF d False] same(2) by (intro chain_cong [OF D(7) [OF d]]) blast
    then show ?thesis using False chn(2) by simp
  qed (simp add: chn)
  have sub: "j \<in> set (ch d) \<and> j \<noteq> i" if "d < sx_nchains sx" "j \<in> set ((ch(c := us @ vs)) d)" for d j
    using that dist split other [OF that(1)] by (cases "d = c") auto
  have frl: "chain (sx_nx (sxep sx')) (sx_free_head sx') (i # fl)"
  proof -
    have "set fl \<inter> set (us @ [i]) = {}" using D(10) [OF c] split by auto
    then have "chain (sx_nx (sxep sx')) (sx_free_head sx) fl"
      using same(2) by (intro chain_cong [OF D(8)]) blast
    then show ?thesis using free i by simp
  qed
  have cover: "{..<sx_nalloc sx} \<subseteq> set (i # fl) \<union> (\<Union>d < sx_nchains sx. set ((ch(c := us @ vs)) d))"
  proof
    fix j assume "j \<in> {..<sx_nalloc sx}"
    then consider "j \<in> set fl" | d where "d < sx_nchains sx" "j \<in> set (ch d)" using D(13) by auto
    then show "j \<in> set (i # fl) \<union> (\<Union>d < sx_nchains sx. set ((ch(c := us @ vs)) d))"
    proof cases
      case (2 d)
      then show ?thesis using c split by (cases "d = c") auto
    qed simp
  qed
  have sum: "sx_nelems sx' = (\<Sum>d < sx_nchains sx. length ((ch(c := us @ vs)) d))"
    using sum_length_upd [OF c, of ch "us @ vs"] D(15) free(4) by (simp add: split)
  show "sx_core sx' (ch(c := us @ vs)) (i # fl)"
    unfolding sx_core_def scal
  proof (intro conjI allI impI ballI chains cover sum frl)
    fix d j assume "d < sx_nchains sx" "j \<in> set ((ch(c := us @ vs)) d)"
    from sub [OF this] this(1) show "j < sx_nalloc sx" "j \<notin> set (i # fl)"
        "sx_bucket sx (sxi (sxep sx' ! j)) = d"
      using D(9-11) same(1) [of j] by (auto simp: scal)
  qed (use D(1-6,12,14) i free(3) in auto)
  assume sig: "sxi (sxep sx ! i) = sig" "\<forall>j \<in> set us. sxi (sxep sx ! j) \<noteq> sig"
  show "sx_view sx' (ch(c := us @ vs)) = (sx_view sx ch)(sig := tl (sx_view sx ch sig))"
  proof
    fix s
    have f: "map (\<lambda>j. se_offset (sxep sx' ! j)) (filter (\<lambda>j. sxi (sxep sx' ! j) = s) js) =
        map (\<lambda>j. se_offset (sxep sx ! j)) (filter (\<lambda>j. sxi (sxep sx ! j) = s) js)" if "i \<notin> set js" for js
      using that by (induction js) (auto simp: same(1))
    show "sx_view sx' (ch(c := us @ vs)) s = ((sx_view sx ch)(sig := tl (sx_view sx ch sig))) s"
    proof (cases "sx_bucket sx s = c")
      case True
      have "filter (\<lambda>j. sxi (sxep sx ! j) = sig) us = []" using sig(2) by (simp add: filter_empty_conv)
      then show ?thesis using True f [of "us @ vs"] dist sig(1) i(4) split by (auto simp: sx_view_def scal)
    next
      case False
      have "i \<notin> set (ch (sx_bucket sx s))" using other [OF sx_checks(3) [OF core] False] by auto
      then show ?thesis using False f i(4) sig(1) by (auto simp: sx_view_def scal)
    qed
  qed
qed


lemma sx_Remove_loop_spec:
  assumes "chain (sx_nx (sxep sx)) (sx_nx (sxep sx) p) (is)" "p < length (sxep sx)"
    "\<forall>i \<in> set is. i < length (sxep sx)"
  shows "(\<forall>i \<in> set is. sxi (sxep sx ! i) \<noteq> sig) \<Longrightarrow> sx_Remove_loop sig p (sxep sx ! p) sx = Some (False, sx)"
    "is = us @ i # vs \<Longrightarrow> sxi (sxep sx ! i) = sig \<Longrightarrow> (\<forall>j \<in> set us. sxi (sxep sx ! j) \<noteq> sig) \<Longrightarrow>
       sx_Remove_loop sig p (sxep sx ! p) sx = do {
         es \<leftarrow> wr (sxep sx) (last (p # us)) ((sxep sx ! last (p # us))\<lparr>se_next := sx_nx (sxep sx) i\<rparr>);
         sx1 \<leftarrow> sx_FreeElement i (sx\<lparr>sxep := es\<rparr>);
         Some (True, sx1\<lparr>sx_nelems := sz_dec (sx_nelems sx1)\<rparr>) }"
  using assms
proof (induction "is" arbitrary: p us)
  case Nil
  {
    case 1
    then show ?case by (subst sx_Remove_loop.simps) (simp add: SX_NONE_def)
  next
    case 2
    then show ?case by simp
  }
next
  case (Cons k "is")
  {
    case 1
    then have "sx_Remove_loop sig k (sxep sx ! k) sx = Some (False, sx)" by (intro Cons.IH(1)) auto
    with 1 show ?case by (subst sx_Remove_loop.simps) (auto simp: SX_NONE_def)
  next
    case 2
    show ?case
    proof (cases us)
      case Nil
      with 2 show ?thesis by (subst sx_Remove_loop.simps) (auto simp: SX_NONE_def)
    next
      case (Cons u us')
      with 2 have "sx_Remove_loop sig k (sxep sx ! k) sx = do {
         es \<leftarrow> wr (sxep sx) (last (k # us')) ((sxep sx ! last (k # us'))\<lparr>se_next := sx_nx (sxep sx) i\<rparr>);
         sx1 \<leftarrow> sx_FreeElement i (sx\<lparr>sxep := es\<rparr>);
         Some (True, sx1\<lparr>sx_nelems := sz_dec (sx_nelems sx1)\<rparr>) }" by (intro Cons.IH(2)) auto
      with 2 Cons show ?thesis by (subst sx_Remove_loop.simps) (auto simp: SX_NONE_def)
    qed
  }
qed


lemma sx_Remove_absent:
  assumes core: "sx_core sx ch fl" and none: "\<forall>i \<in> set (ch (sx_bucket sx sig)). sxi (sxep sx ! i) \<noteq> sig"
  shows "sx_Remove sig sx = Some (False, sx)"
proof -
  note D = sx_coreD [OF core] and C = sx_checks [OF core]
  let ?c = "sx_bucket sx sig"
  have lt: "\<forall>i \<in> set (ch ?c). i < length (sxep sx)" using D(9) [OF C(3)] D(5) less_le_trans by blast
  show ?thesis
  proof (cases "ch ?c")
    case Nil
    then show ?thesis using D(1,3) C(1,2) C(3) [of sig] D(7) [OF C(3), of sig]
      by (simp add: sx_Remove_def SX_NONE_def)
  next
    case (Cons k ks)
    then have "chain (sx_nx (sxep sx)) (sx_nx (sxep sx) k) ks" "sx_chains sx ! ?c = k" "k \<noteq> SIZE_NONE"
      using D(7) [OF C(3), of sig] by auto
    moreover have "sx_Remove_loop sig k (sxep sx ! k) sx = Some (False, sx)"
      using Cons lt none calculation by (intro sx_Remove_loop_spec(1)) auto
    ultimately show ?thesis using D(1,3) C(1,2) C(3) [of sig] lt none Cons
      by (auto simp: sx_Remove_def SX_NONE_def)
  qed
qed

text \<open>Taking element \<open>i\<close> out of its bucket, written as one update of the table.\<close>

definition sx_drop :: "nat list \<Rightarrow> nat \<Rightarrow> nat \<Rightarrow> SignatureIndex \<Rightarrow> SignatureIndex" where
  "sx_drop us i c sx =
     (let es = (if us = [] then sxep sx
                else (sxep sx)[last us := (sxep sx ! last us)\<lparr>se_next := sx_nx (sxep sx) i\<rparr>])
      in sx\<lparr>sx_chains := (if us = [] then (sx_chains sx)[c := sx_nx (sxep sx) i] else sx_chains sx),
            sxep := es[i := (es ! i)\<lparr>se_offset := -1, se_next := sx_free_head sx\<rparr>],
            sx_free_head := i, sx_nfree := Suc (sx_nfree sx), sx_nelems := sx_nelems sx - 1\<rparr>)"

lemma sx_Remove_present:
  assumes core: "sx_core sx ch fl" and split: "ch (sx_bucket sx sig) = us @ i # vs"
    and sig: "sxi (sxep sx ! i) = sig" "\<forall>j \<in> set us. sxi (sxep sx ! j) \<noteq> sig"
  shows "sx_Remove sig sx = Some (True, sx_drop us i (sx_bucket sx sig) sx)"
proof -
  note D = sx_coreD [OF core] and C = sx_checks [OF core]
  let ?c = "sx_bucket sx sig"
  have lt: "\<forall>j \<in> set (us @ i # vs). j < length (sxep sx)"
    using D(9) [OF C(3), of _ sig] D(5) less_le_trans unfolding split by blast
  have chn: "chain (sx_nx (sxep sx)) (sx_chains sx ! ?c) (us @ i # vs)" using D(7) [OF C(3), of sig] split by simp
  have lim: "sx_nalloc sx < 2 ^ 64" using D(6) by (simp add: SX_NONE_def SIZE_NONE_def)
  have pos: "0 < sx_nelems sx"
    using D(15) sum_length_upd [OF C(3) [of sig], of ch "[]"] by (simp add: split)
  have cnt: "sx_nfree sx + 1 < 2 ^ 64" "sx_nelems sx < 2 ^ 64" using sx_count [OF core] pos lim by simp_all
  show ?thesis
  proof (cases us)
    case Nil
    then show ?thesis using D(1,3) C(1,2) C(3) [of sig] lt chn sig cnt pos
      by (simp add: sx_Remove_def SX_NONE_def sx_FreeElement_def sx_drop_def Let_def)
  next
    case (Cons k ks)
    then have k: "chain (sx_nx (sxep sx)) (sx_nx (sxep sx) k) (ks @ i # vs)" "sx_chains sx ! ?c = k"
      "k \<noteq> SIZE_NONE" "k < length (sxep sx)" "\<forall>j \<in> set (ks @ i # vs). j < length (sxep sx)"
      "sxi (sxep sx ! k) \<noteq> sig" using chn lt sig by auto
    have lst: "last us < length (sxep sx)" "last us \<noteq> i"
    proof -
      have "last us \<in> set us" using Cons by simp
      then show "last us < length (sxep sx)" "last us \<noteq> i" using lt chain_distinct [OF chn] by auto
    qed
    have "sx_Remove_loop sig k (sxep sx ! k) sx = do {
         es \<leftarrow> wr (sxep sx) (last (k # ks)) ((sxep sx ! last (k # ks))\<lparr>se_next := sx_nx (sxep sx) i\<rparr>);
         sx1 \<leftarrow> sx_FreeElement i (sx\<lparr>sxep := es\<rparr>);
         Some (True, sx1\<lparr>sx_nelems := sz_dec (sx_nelems sx1)\<rparr>) }"
      using sig Cons by (intro sx_Remove_loop_spec(2) [OF k(1,4,5)]) auto
    also have "\<dots> = Some (True, sx_drop us i ?c sx)"
      using lst lt cnt pos Cons by (simp add: sx_FreeElement_def sx_drop_def Let_def)
    finally show ?thesis using D(1,3) C(1,2) C(3) [of sig] k by (simp add: sx_Remove_def SX_NONE_def)
  qed
qed

lemma sx_drop_core:
  assumes core: "sx_core sx ch fl" and c: "c < sx_nchains sx" and split: "ch c = us @ i # vs"
    and sig: "sxi (sxep sx ! i) = sig" "\<forall>j \<in> set us. sxi (sxep sx ! j) \<noteq> sig"
  shows "sx_core (sx_drop us i c sx) (ch(c := us @ vs)) (i # fl)"
    "sx_view (sx_drop us i c sx) (ch(c := us @ vs)) = (sx_view sx ch)(sig := tl (sx_view sx ch sig))"
proof -
  note D = sx_coreD [OF core]
  let ?sx = "sx_drop us i c sx"
  have chn: "chain (sx_nx (sxep sx)) (sx_chains sx ! c) (us @ i # vs)" using D(7) [OF c] split by simp
  have dist: "distinct (us @ i # vs)" by (rule chain_distinct [OF chn])
  have lt: "j < length (sxep sx)" if "j \<in> set (us @ i # vs)" for j
    using D(9) [OF c] D(5) that unfolding split by (metis less_le_trans)
  have i: "i < length (sxep sx)" "i \<notin> set us" using lt dist by auto
  have vs: "chain (sx_nx (sxep sx)) (sx_nx (sxep sx) i) vs" using chn chain_append by metis
  have nxi: "sx_nx (sxep ?sx) i = sx_free_head sx" using i by (simp add: sx_drop_def Let_def)
  have off: "sx_nx (sxep ?sx) j = sx_nx (sxep sx) j" if "j \<noteq> i" "us \<noteq> [] \<Longrightarrow> j \<noteq> last us" for j
    using that by (auto simp: sx_drop_def Let_def)
  have vs': "chain (sx_nx (sxep ?sx)) (sx_nx (sxep sx) i) vs"
  proof (intro chain_cong [OF vs] off)
    fix j assume "j \<in> set vs"
    then show "j \<noteq> i" using dist by auto
    show "j \<noteq> last us" if "us \<noteq> []"
    proof -
      have "last us \<in> set us" using that by simp
      then show ?thesis using dist \<open>j \<in> set vs\<close> by auto
    qed
  qed
  have chn': "chain (sx_nx (sxep ?sx)) (sx_chains ?sx ! c) (us @ vs)"
  proof (cases us rule: rev_cases)
    case Nil
    then show ?thesis using vs' c D(3) by (simp add: sx_drop_def Let_def)
  next
    case (snoc ks p)
    have "chain (sx_nx (sxep sx)) (sx_chains sx ! c) (ks @ p # i # vs)" using chn snoc by simp
    then have pre: "p \<noteq> SIZE_NONE"
      "if ks = [] then sx_chains sx ! c = p
       else sx_chains sx ! c = hd ks \<and> SIZE_NONE \<notin> set ks \<and> links (sx_nx (sxep sx)) (ks @ [p])"
      using chain_append [of "sx_nx (sxep sx)" "sx_chains sx ! c" ks p "i # vs"] by simp_all
    have "links (sx_nx (sxep ?sx)) (ks @ [p])" if "ks \<noteq> []"
    proof (rule links_cong)
      show "links (sx_nx (sxep sx)) (ks @ [p])" using pre that by simp
      fix x assume "x \<in> set (butlast (ks @ [p]))"
      then have "x \<in> set ks" by simp
      then have "x \<noteq> i" "x \<noteq> last us" using dist snoc by auto
      then show "sx_nx (sxep ?sx) x = sx_nx (sxep sx) x" by (rule off)
    qed
    moreover have "sx_nx (sxep ?sx) p = sx_nx (sxep sx) i"
      using snoc i lt [of p] by (simp add: sx_drop_def Let_def)
    moreover have "sx_chains ?sx ! c = sx_chains sx ! c" using snoc by (simp add: sx_drop_def Let_def)
    ultimately have "chain (sx_nx (sxep ?sx)) (sx_chains ?sx ! c) (ks @ p # vs)"
      using pre vs' by (simp add: chain_append split: if_splits)
    then show ?thesis using snoc by simp
  qed
  have scal: "sx_magic ?sx = sx_magic sx" "sx_nchains ?sx = sx_nchains sx" "sx_nalloc ?sx = sx_nalloc sx"
      "length (sxep ?sx) = length (sxep sx)" "length (sx_chains ?sx) = length (sx_chains sx)"
      "sx_free_head ?sx = i" "sx_nfree ?sx = Suc (sx_nfree sx)" "sx_nelems ?sx = sx_nelems sx - 1"
      "\<And>d. d \<noteq> c \<Longrightarrow> sx_chains ?sx ! d = sx_chains sx ! d"
    by (simp_all add: sx_drop_def Let_def)
  have same: "sxi (sxep ?sx ! j) = sxi (sxep sx ! j) \<and> se_offset (sxep ?sx ! j) = se_offset (sxep sx ! j)"
    if "j \<noteq> i" for j
    using that lt by (cases "j < length (sxep sx)") (auto simp: sx_drop_def Let_def nth_list_update)
  have nxt: "sx_nx (sxep ?sx) j = sx_nx (sxep sx) j" if "j \<notin> set (us @ [i])" for j
  proof (rule off)
    show "j \<noteq> i" using that by simp
    show "j \<noteq> last us" if "us \<noteq> []" using last_in_set [OF that] \<open>j \<notin> set (us @ [i])\<close> by auto
  qed
  note U = sx_unlink_core [where sx' = "sx_drop us i c sx", OF core c split scal(1-5) chn' scal(9) same nxt nxi scal(6-8)]
  show "sx_core ?sx (ch(c := us @ vs)) (i # fl)" by (rule U(1))
  show "sx_view ?sx (ch(c := us @ vs)) = (sx_view sx ch)(sig := tl (sx_view sx ch sig))" 
    by (rule U(2) [OF _ _ _ sig])
qed

subsection \<open>The table as a map\<close>

lemma sx_Find_spec:
  assumes "sx_inv sx M"
  shows "\<exists>r. sx_Find sig sx = Some r \<and>
    (case M sig of [] \<Rightarrow> r = None
     | off # _ \<Rightarrow> \<exists>i. r = Some i \<and> i < sx_nalloc sx \<and> sxi (sxep sx ! i) = sig \<and> se_offset (sxep sx ! i) = off)"
proof -
  obtain ch fl where core: "sx_core sx ch fl" and M: "M = sx_view sx ch" using assms by (auto simp: sx_inv_def)
  let ?F = "filter (\<lambda>i. sxi (sxep sx ! i) = sig) (ch (sx_bucket sx sig))"
  have in_F: "j < sx_nalloc sx \<and> sxi (sxep sx ! j) = sig" if "j \<in> set ?F" for j
    using that sx_coreD(9) [OF core sx_checks(3) [OF core]] by auto
  show ?thesis
  proof (cases ?F)
    case Nil
    then show ?thesis using sx_Find_core [OF core, of sig] by (simp add: M sx_view_def)
  next
    case (Cons i ks)
    then have "M sig = se_offset (sxep sx ! i) # map (\<lambda>i. se_offset (sxep sx ! i)) ks"
      by (simp add: M sx_view_def)
    then show ?thesis using sx_Find_core [OF core, of sig] Cons in_F [of i] by simp
  qed
qed

lemma sx_Add_spec:
  assumes "sx_inv sx M"
  shows "if sx_nelems sx = sx_nalloc sx then sx_Add sig off sx = Some (None, sx)
    else \<exists>i sx'. sx_Add sig off sx = Some (Some i, sx') \<and> sx_inv sx' (M(sig := off # M sig)) \<and>
      sx_nalloc sx' = sx_nalloc sx \<and> sx_nelems sx' = Suc (sx_nelems sx) \<and>
      sxi (sxep sx' ! i) = sig \<and> se_offset (sxep sx' ! i) = off"
proof -
  obtain ch fl where core: "sx_core sx ch fl" and M: "M = sx_view sx ch" using assms by (auto simp: sx_inv_def)
  note count = sx_count [OF core] and D = sx_coreD [OF core]
  show ?thesis
  proof (cases fl)
    case Nil
    then show ?thesis using sx_Add_full [OF core] count D(14) by simp
  next
    case (Cons i fl')
    note A = sx_Add_core [OF core [unfolded Cons], of sig off]
    have "i < length (sxep sx)" using D(5,12) Cons by auto
    moreover have "sx_nelems sx \<noteq> sx_nalloc sx" using count D(14) Cons by simp
    ultimately show ?thesis using A M unfolding sx_inv_def by force
  qed
qed

lemma sx_Remove_spec:
  assumes "sx_inv sx M"
  shows "if M sig = [] then sx_Remove sig sx = Some (False, sx)
    else \<exists>sx'. sx_Remove sig sx = Some (True, sx') \<and> sx_inv sx' (M(sig := tl (M sig))) \<and>
      sx_nalloc sx' = sx_nalloc sx \<and> Suc (sx_nelems sx') = sx_nelems sx"
proof -
  obtain ch fl where core: "sx_core sx ch fl" and M: "M = sx_view sx ch" using assms by (auto simp: sx_inv_def)
  let ?c = "sx_bucket sx sig"
  note C = sx_checks(3) [OF core]
  show ?thesis
  proof (cases "\<exists>i \<in> set (ch ?c). sxi (sxep sx ! i) = sig")
    case False
    then have "M sig = []" by (auto simp: M sx_view_def filter_empty_conv)
    then show ?thesis using sx_Remove_absent [OF core, of sig] False by auto
  next
    case True
    then obtain us i vs where split: "ch ?c = us @ i # vs" and sig: "sxi (sxep sx ! i) = sig"
        "\<forall>j \<in> set us. sxi (sxep sx ! j) \<noteq> sig"
      using split_list_first_prop [of "ch ?c" "\<lambda>i. sxi (sxep sx ! i) = sig"] by blast
    then have ne: "M sig \<noteq> []" by (auto simp: M sx_view_def)
    have pos: "0 < sx_nelems sx"
      using sx_coreD(15) [OF core] sum_length_upd [OF C [of sig], of ch "[]"] by (simp add: split)
    have "sx_inv (sx_drop us i ?c sx) (M(sig := tl (M sig)))"
      using sx_drop_core [OF core C split sig] M unfolding sx_inv_def by metis
    then show ?thesis using sx_Remove_present [OF core split sig] ne pos by (simp add: sx_drop_def Let_def)
  qed
qed

lemma sx_Initialize_spec:
  assumes n: "0 < n" "n < 2 ^ 62" and room: "n \<le> length (sxep sx)" "n \<le> length (sx_chains sx)" "2 \<le> length (sx_chains sx)"
  shows "\<exists>sx'. sx_Initialize n sx = Some sx' \<and> sx_inv sx' (\<lambda>_. []) \<and> sx_nalloc sx' = n \<and> sx_nelems sx' = 0"
proof -
  have "n div 4 < (2 ^ 32 - 1) * (2 ^ 32 - 1)" using n(2) by simp
  from prevPrime_spec [OF this] obtain nch where p: "prevPrime (n div 4) = Some nch" "is_prime nch"
      "2 \<le> n div 4 \<longrightarrow> nch \<le> n div 4" by blast
  have nch: "0 < nch" "nch \<le> length (sx_chains sx)"
  proof -
    show "0 < nch" using p(2) by (simp add: is_prime_def)
    show "nch \<le> length (sx_chains sx)"
    proof (cases "2 \<le> n div 4")
      case True
      then show ?thesis using p(3) room(2) by simp
    next
      case False
      then have "prevPrime (n div 4) = Some 2" by (simp add: prevPrime_def)
      then show ?thesis using p(1) room(3) by simp
    qed
  qed
  define es where "es = (map (\<lambda>i. \<lparr>sxi = replicate SIG_LEN 0, se_offset = -1, se_next = i + 1\<rparr> :: SignatureElement) [0..<n])
      [n - 1 := \<lparr>sxi = replicate SIG_LEN 0, se_offset = -1, se_next = SX_NONE\<rparr>]"
  define sx' where "sx' = \<lparr>sx_nalloc = n, sx_nelems = 0, sx_nchains = nch, sx_free_head = 0, sx_nfree = n,
      sxep = es @ drop n (sxep sx), sx_magic = SX_MAGIC,
      sx_chains = replicate nch SX_NONE @ drop nch (sx_chains sx)\<rparr>"
  have dec: "sz_dec n = n - 1" using n by (intro sz_sub_small) auto
  have run: "sx_Initialize n sx = Some sx'"
    using n room(1) p(1) nch
    by (simp add: sx_Initialize_def calc_nchains_def SX_EXP_CHAIN_LEN_def dec Let_def sx'_def es_def)
  have nx: "sx_nx (sxep sx') i = (if i = n - 1 then SX_NONE else i + 1)" if "i < n" for i
    using that by (simp add: sx'_def es_def nth_append nth_list_update)
  have free: "chain (sx_nx (sxep sx')) i [i..<n]" if "i < n" for i
    using that
  proof (induction "n - i" arbitrary: i)
    case (Suc k)
    have up: "[i..<n] = i # [Suc i..<n]" using Suc.prems by (simp add: upt_conv_Cons)
    have "i \<noteq> SIZE_NONE" using Suc.prems n(2) by (simp add: SIZE_NONE_def)
    moreover have "[Suc i..<n] = []" if "i = n - 1" using that by simp
    ultimately show ?case using Suc.hyps(1) [of "Suc i"] Suc.hyps(2) Suc.prems nx [of i]
      unfolding up by (cases "i = n - 1") (auto simp: SX_NONE_def)
  qed simp
  have "sx_core sx' (\<lambda>_. []) [0..<n]"
    unfolding sx_core_def
    using n nch room(1) free [of 0]
    by (auto simp: sx'_def es_def SX_NONE_def SIZE_NONE_def nth_append)
  moreover have "sx_view sx' (\<lambda>_. []) = (\<lambda>_. [])" by (simp add: sx_view_def fun_eq_iff)
  ultimately show ?thesis using run unfolding sx_inv_def by (force simp: sx'_def)
qed


subsection \<open>The map interface\<close>

text \<open>
  What the product queue relies on. \<open>entries\<close> counts the elements stored and \<open>room\<close> the slots.
\<close>

locale signature_map =
  fixes inv :: "'s \<Rightarrow> (Signature \<Rightarrow> int list) \<Rightarrow> bool"
    and room :: "'s \<Rightarrow> nat" and entries :: "'s \<Rightarrow> nat"
    and offset_of :: "'s \<Rightarrow> nat \<Rightarrow> int"
    and find :: "Signature \<Rightarrow> 's \<Rightarrow> nat option option"
    and add :: "Signature \<Rightarrow> int \<Rightarrow> 's \<Rightarrow> (nat option \<times> 's) option"
    and remove :: "Signature \<Rightarrow> 's \<Rightarrow> (bool \<times> 's) option"
  assumes find_law: "inv s M \<Longrightarrow> \<exists>r. find sig s = Some r \<and>
      (case M sig of [] \<Rightarrow> r = None | off # _ \<Rightarrow> \<exists>i. r = Some i \<and> offset_of s i = off)"
    and add_law: "inv s M \<Longrightarrow> entries s \<noteq> room s \<Longrightarrow>
      \<exists>i s'. add sig off s = Some (Some i, s') \<and> inv s' (M(sig := off # M sig)) \<and>
        room s' = room s \<and> entries s' = Suc (entries s)"
    and add_full_law: "inv s M \<Longrightarrow> entries s = room s \<Longrightarrow> add sig off s = Some (None, s)"
    and remove_law: "inv s M \<Longrightarrow> M sig \<noteq> [] \<Longrightarrow>
      \<exists>s'. remove sig s = Some (True, s') \<and> inv s' (M(sig := tl (M sig))) \<and>
        room s' = room s \<and> Suc (entries s') = entries s"
    and remove_absent_law: "inv s M \<Longrightarrow> M sig = [] \<Longrightarrow> remove sig s = Some (False, s)"
begin

text \<open>After an insertion the signature is found with the inserted offset, every other as before.\<close>

lemma find_after_add:
  assumes "inv s M" "entries s \<noteq> room s"
  shows "\<exists>i s' j. add sig off s = Some (Some i, s') \<and> find sig s' = Some (Some j) \<and> offset_of s' j = off"
proof -
  obtain i s' where s': "add sig off s = Some (Some i, s')" "inv s' (M(sig := off # M sig))"
    using add_law [OF assms] by blast
  with find_law [OF s'(2), of sig] show ?thesis by auto
qed

text \<open>An insertion followed by a removal of the same signature restores the contents.\<close>

lemma remove_after_add:
  assumes "inv s M" "entries s \<noteq> room s"
  shows "\<exists>i s' s''. add sig off s = Some (Some i, s') \<and> remove sig s' = Some (True, s'') \<and> inv s'' M \<and>
    entries s'' = entries s"
proof -
  obtain i s' where s': "add sig off s = Some (Some i, s')" "inv s' (M(sig := off # M sig))"
      "entries s' = Suc (entries s)"
    using add_law [OF assms] by blast
  have "(M(sig := off # M sig)) sig \<noteq> []"
      and upd: "(M(sig := off # M sig))(sig := tl ((M(sig := off # M sig)) sig)) = M" by auto
  from remove_law [OF s'(2) this(1)] obtain s'' where s'': "remove sig s' = Some (True, s'')" "inv s'' M"
      "Suc (entries s'') = entries s'"
    unfolding upd by (elim exE conjE) (rule that)
  have "entries s'' = entries s" using s''(3) s'(3) by simp
  with s'(1) s''(1,2) show ?thesis by blast
qed

text \<open>A signature stored once is gone after one removal.\<close>

lemma find_after_remove:
  assumes "inv s M" "M sig = [off]"
  shows "\<exists>s'. remove sig s = Some (True, s') \<and> find sig s' = Some None"
proof -
  obtain s' where s': "remove sig s = Some (True, s')" "inv s' (M(sig := tl (M sig)))"
    using remove_law [OF assms(1), of sig] assms(2) by auto
  with find_law [OF s'(2), of sig] assms(2) show ?thesis by auto
qed

end

interpretation sxm: signature_map sx_inv sx_nalloc sx_nelems "\<lambda>sx i. se_offset (sxep sx ! i)"
  sx_Find sx_Add sx_Remove
proof unfold_locales
  fix s M sig assume "sx_inv s M"
  from sx_Find_spec [OF this, of sig]
  show "\<exists>r. sx_Find sig s = Some r \<and>
      (case M sig of [] \<Rightarrow> r = None | off # _ \<Rightarrow> \<exists>i. r = Some i \<and> se_offset (sxep s ! i) = off)"
    by (cases "M sig") auto
next
  fix s M sig off assume "sx_inv s M" "sx_nelems s \<noteq> sx_nalloc s"
  then show "\<exists>i s'. sx_Add sig off s = Some (Some i, s') \<and> sx_inv s' (M(sig := off # M sig)) \<and>
        sx_nalloc s' = sx_nalloc s \<and> sx_nelems s' = Suc (sx_nelems s)"
    using sx_Add_spec [of s M sig off] by auto
next
  fix s M sig off assume "sx_inv s M" "sx_nelems s = sx_nalloc s"
  then show "sx_Add sig off s = Some (None, s)" using sx_Add_spec [of s M sig off] by auto
next
  fix s M sig assume "sx_inv s M" "M sig \<noteq> []"
  then show "\<exists>s'. sx_Remove sig s = Some (True, s') \<and> sx_inv s' (M(sig := tl (M sig))) \<and>
        sx_nalloc s' = sx_nalloc s \<and> Suc (sx_nelems s') = sx_nelems s"
    using sx_Remove_spec [of s M sig] by auto
next
  fix s M sig assume "sx_inv s M" "M sig = []"
  then show "sx_Remove sig s = Some (False, s)" using sx_Remove_spec [of s M sig] by auto
qed

subsection \<open>Properties\<close>

text \<open>A small mapped area: room for eight elements and as many buckets.\<close>

definition raw_index :: SignatureIndex where
  "raw_index = \<lparr>sx_nalloc = 0, sx_nelems = 0, sx_nchains = 0, sx_free_head = 0, sx_nfree = 0,
     sxep = replicate 8 \<lparr>sxi = [], se_offset = 0, se_next = 0\<rparr>, sx_magic = 0, sx_chains = replicate 8 0\<rparr>"

definition demo_index :: SignatureIndex where
  "demo_index = the (sx_Initialize 8 raw_index)"

lemma demo_index_spec:
  "sx_Initialize 8 raw_index = Some demo_index" "sx_inv demo_index (\<lambda>_. [])"
  "sx_nalloc demo_index = 8" "sx_nelems demo_index = 0"
proof -
  have "\<exists>sx'. sx_Initialize 8 raw_index = Some sx' \<and> sx_inv sx' (\<lambda>_. []) \<and> sx_nalloc sx' = 8 \<and> sx_nelems sx' = 0"
    by (rule sx_Initialize_spec) (simp_all add: raw_index_def)
  then show "sx_Initialize 8 raw_index = Some demo_index" "sx_inv demo_index (\<lambda>_. [])"
      "sx_nalloc demo_index = 8" "sx_nelems demo_index = 0"
    by (auto simp: demo_index_def)
qed

text \<open>
  C13. \<open>SignatureIndex::Find\<close> on a well-formed table always returns: with the element that holds the
  newest offset stored under the signature, or with the null pointer when none is stored.
\<close>

theorem sx_Find_newest:
  assumes "sx_inv sx M"
  shows "\<exists>r. sx_Find sig sx = Some r \<and>
    (case M sig of [] \<Rightarrow> r = None
     | off # _ \<Rightarrow> \<exists>i. r = Some i \<and> i < sx_nalloc sx \<and> sxi (sxep sx ! i) = sig \<and> se_offset (sxep sx ! i) = off)"
  using assms by (rule sx_Find_spec)

theorem sx_Find_newest_witness:
  "\<exists>r. sx_Find (replicate 16 1) demo_index = Some r \<and> r = None"
  using sx_Find_newest [OF demo_index_spec(2), of "replicate 16 1"] by simp

text \<open>
  C7. \<open>SignatureIndex::Add\<close> on a well-formed table never aborts. A full table is reported and left
  unchanged; otherwise exactly the given signature gains the given offset, and the table stays
  well-formed.
\<close>

theorem sx_Add_inserts:
  assumes "sx_inv sx M"
  shows "if sx_nelems sx = sx_nalloc sx then sx_Add sig off sx = Some (None, sx)
    else \<exists>i sx'. sx_Add sig off sx = Some (Some i, sx') \<and> sx_inv sx' (M(sig := off # M sig)) \<and>
      sx_nalloc sx' = sx_nalloc sx \<and> sx_nelems sx' = Suc (sx_nelems sx) \<and>
      sxi (sxep sx' ! i) = sig \<and> se_offset (sxep sx' ! i) = off"
  using assms by (rule sx_Add_spec)

theorem sx_Add_inserts_witness:
  "\<exists>i sx'. sx_Add (replicate 16 1) 4096 demo_index = Some (Some i, sx') \<and>
     sx_inv sx' ((\<lambda>_. [])(replicate 16 1 := [4096])) \<and> sx_nelems sx' = 1"
  using sx_Add_inserts [OF demo_index_spec(2), of "replicate 16 1" 4096]
  by (auto simp: demo_index_spec)

text \<open>
  C6. \<open>SignatureIndex::Remove\<close> on a well-formed table never aborts and always returns. It reports a
  signature that is not stored and otherwise removes its newest entry and no other.
\<close>

theorem sx_Remove_deletes:
  assumes "sx_inv sx M"
  shows "if M sig = [] then sx_Remove sig sx = Some (False, sx)
    else \<exists>sx'. sx_Remove sig sx = Some (True, sx') \<and> sx_inv sx' (M(sig := tl (M sig))) \<and>
      sx_nalloc sx' = sx_nalloc sx \<and> Suc (sx_nelems sx') = sx_nelems sx"
  using assms by (rule sx_Remove_spec)

theorem sx_Remove_deletes_witness:
  "\<exists>sx i sx'. sx_Add (replicate 16 1) 4096 demo_index = Some (Some i, sx) \<and>
     sx_Remove (replicate 16 1) sx = Some (True, sx') \<and> sx_inv sx' (\<lambda>_. [])"
proof -
  obtain i sx where sx: "sx_Add (replicate 16 1) 4096 demo_index = Some (Some i, sx)"
      "sx_inv sx ((\<lambda>_. [])(replicate 16 1 := [4096]))"
    using sx_Add_spec [OF demo_index_spec(2), of "replicate 16 1" 4096] by (auto simp: demo_index_spec)
  have upd: "((\<lambda>_. [])(s := [4096])) (s := tl (((\<lambda>_. [])(s := [4096])) s)) = (\<lambda>_ :: Signature. [] :: int list)" for s
    by auto
  from sx_Remove_deletes [OF sx(2), of "replicate 16 1", unfolded upd] sx(1) show ?thesis
    by (auto split: if_splits)
qed

text \<open>
  C14. Inserting a signature and removing it again brings the table back to the contents it had.
\<close>

theorem sx_Add_Remove_roundtrip:
  assumes "sx_inv sx M" "sx_nelems sx \<noteq> sx_nalloc sx"
  shows "\<exists>i sx' sx''. sx_Add sig off sx = Some (Some i, sx') \<and> sx_Remove sig sx' = Some (True, sx'') \<and>
    sx_inv sx'' M \<and> sx_nelems sx'' = sx_nelems sx"
  using assms by (rule sxm.remove_after_add)

theorem sx_Add_Remove_roundtrip_witness:
  "\<exists>i sx' sx''. sx_Add (replicate 16 7) 64 demo_index = Some (Some i, sx') \<and>
     sx_Remove (replicate 16 7) sx' = Some (True, sx'') \<and> sx_inv sx'' (\<lambda>_. []) \<and> sx_nelems sx'' = sx_nelems demo_index"
  by (rule sx_Add_Remove_roundtrip) (simp_all add: demo_index_spec)

end
