(* ===== verification/Time_Stamp.thy ===== *)
theory Time_Stamp
  imports RDM_Prelude
begin

text \<open>
  src/core/Timestamp.h and Timestamp.cpp: seconds and microseconds with their order and arithmetic.
  \<open>tv_sec\<close> is 64 and \<open>tv_usec\<close> 32 bits wide in the code; the values here are integers, and
  \<open>ts_add_bounds\<close> shows that the sums the code forms from normalised times fit those widths.

  \<open>usecs\<close> maps a time to microseconds. On normalised times the comparison operators are the order of
  \<open>usecs\<close>, and addition, the increments and (for a non-negative result) subtraction compute on it.
\<close>

subsection \<open>Model\<close>

datatype Timestamp = Timestamp (tv_sec: int) (tv_usec: int)

definition TS_NONE :: Timestamp where "TS_NONE = Timestamp (-1) (-1)"

definition TS_ZERO :: Timestamp where "TS_ZERO = Timestamp 0 0"

definition TS_ENDT :: Timestamp where "TS_ENDT = Timestamp 0x7fffffff 999999"

lemma ts_eq_iff: "a = b \<longleftrightarrow> tv_sec a = tv_sec b \<and> tv_usec a = tv_usec b"
  by (cases a; cases b) simp

text \<open>\<open>operator<\<close> and \<open>operator<=\<close>, which make the times a linear order\<close>

definition ts_less :: "Timestamp \<Rightarrow> Timestamp \<Rightarrow> bool" where
  [simp]: "ts_less a b = (if tv_sec a = tv_sec b then tv_usec a < tv_usec b else tv_sec a < tv_sec b)"

definition ts_less_eq :: "Timestamp \<Rightarrow> Timestamp \<Rightarrow> bool" where
  [simp]: "ts_less_eq a b \<longleftrightarrow> ts_less a b \<or> a = b"

instantiation Timestamp :: linorder
begin

definition less_Timestamp_def: "a < b = ts_less a (b :: Timestamp)"

definition less_eq_Timestamp_def: "a \<le> b = ts_less_eq a (b :: Timestamp)"

instance
  by standard (auto simp: less_Timestamp_def less_eq_Timestamp_def ts_eq_iff split: if_splits)

end

definition ts_add :: "Timestamp \<Rightarrow> Timestamp \<Rightarrow> Timestamp" where
  "ts_add a b =
     (let s = tv_sec a + tv_sec b; u = tv_usec a + tv_usec b
      in if u \<ge> 1000000 then Timestamp (s + 1) (u - 1000000) else Timestamp s u)"

definition ts_sub :: "Timestamp \<Rightarrow> Timestamp \<Rightarrow> Timestamp" where
  "ts_sub a b =
     (let s = tv_sec a - tv_sec b; u = tv_usec a - tv_usec b
      in if u < 0 then (if s > 0 then Timestamp (s - 1) (u + 1000000) else Timestamp 0 0)
         else Timestamp s u)"

definition IncrementMicrosecond :: "Timestamp \<Rightarrow> Timestamp" where
  "IncrementMicrosecond t =
     (if tv_usec t = 999999 then Timestamp (tv_sec t + 1) 0 else Timestamp (tv_sec t) (tv_usec t + 1))"

definition DecrementMicrosecond :: "Timestamp \<Rightarrow> Timestamp" where
  "DecrementMicrosecond t =
     (if tv_usec t = 0 then Timestamp (tv_sec t - 1) 999999 else Timestamp (tv_sec t) (tv_usec t - 1))"

subsection \<open>Normalised times\<close>

definition normal_ts :: "Timestamp \<Rightarrow> bool" where
  "normal_ts t \<longleftrightarrow> 0 \<le> tv_usec t \<and> tv_usec t < 1000000"

definition usecs :: "Timestamp \<Rightarrow> int" where
  "usecs t = tv_sec t * 1000000 + tv_usec t"

lemma usecs_less: "normal_ts a \<Longrightarrow> normal_ts b \<Longrightarrow> a < b \<longleftrightarrow> usecs a < usecs b"
  by (auto simp: less_Timestamp_def normal_ts_def usecs_def)

lemma usecs_inj: "normal_ts a \<Longrightarrow> normal_ts b \<Longrightarrow> usecs a = usecs b \<longleftrightarrow> a = b"
  by (cases "tv_sec a" "tv_sec b" rule: linorder_cases) (auto simp: normal_ts_def usecs_def ts_eq_iff)

lemma usecs_le: "normal_ts a \<Longrightarrow> normal_ts b \<Longrightarrow> a \<le> b \<longleftrightarrow> usecs a \<le> usecs b"
  using usecs_less [of a b] usecs_inj [of a b] by (auto simp: less_eq_Timestamp_def less_Timestamp_def)

lemma IncrementMicrosecond_spec:
  assumes "normal_ts t"
  shows "normal_ts (IncrementMicrosecond t)" "usecs (IncrementMicrosecond t) = usecs t + 1"
  using assms by (auto simp: IncrementMicrosecond_def normal_ts_def usecs_def)

lemma DecrementMicrosecond_spec:
  assumes "normal_ts t"
  shows "normal_ts (DecrementMicrosecond t)" "usecs (DecrementMicrosecond t) = usecs t - 1"
  using assms by (auto simp: DecrementMicrosecond_def normal_ts_def usecs_def)

lemma Increment_Decrement:
  "normal_ts t \<Longrightarrow> DecrementMicrosecond (IncrementMicrosecond t) = t"
  by (cases t) (auto simp: IncrementMicrosecond_def DecrementMicrosecond_def normal_ts_def)

lemma less_Increment:
  assumes "normal_ts a" "normal_ts t"
  shows "a < IncrementMicrosecond t \<longleftrightarrow> a \<le> t"
  using assms IncrementMicrosecond_spec [OF assms(2)] by (simp add: usecs_less usecs_le)

lemma normal_ENDT: "normal_ts TS_ENDT"
  by (simp add: normal_ts_def TS_ENDT_def)

lemma ts_add_spec:
  assumes "normal_ts a" "normal_ts b"
  shows "normal_ts (ts_add a b)" "usecs (ts_add a b) = usecs a + usecs b"
  using assms by (auto simp: ts_add_def normal_ts_def usecs_def Let_def)

lemma ts_add_bounds:
  assumes "normal_ts a" "normal_ts b" "\<bar>tv_sec a\<bar> < 2 ^ 62" "\<bar>tv_sec b\<bar> < 2 ^ 62"
  shows "tv_usec a + tv_usec b < 2 ^ 31" "\<bar>tv_sec (ts_add a b)\<bar> < 2 ^ 63"
  using assms by (auto simp: ts_add_def normal_ts_def Let_def)

lemma ts_sub_spec:
  assumes "normal_ts a" "normal_ts b" "b \<le> a"
  shows "normal_ts (ts_sub a b)" "usecs (ts_sub a b) = usecs a - usecs b"
  using assms by (auto simp: ts_sub_def normal_ts_def usecs_def Let_def less_eq_Timestamp_def less_Timestamp_def
      split: if_splits)

lemma ts_add_sub: "normal_ts a \<Longrightarrow> normal_ts b \<Longrightarrow> 0 \<le> tv_sec a \<Longrightarrow> ts_sub (ts_add a b) b = a"
  by (auto simp: ts_sub_def ts_add_def normal_ts_def Let_def ts_eq_iff)

lemma ts_sub_add:
  assumes "normal_ts a" "normal_ts b" "b \<le> a"
  shows "ts_add (ts_sub a b) b = a"
  using ts_sub_spec [OF assms] ts_add_spec [OF ts_sub_spec(1) [OF assms] assms(2)] assms(1)
    usecs_inj [of "ts_add (ts_sub a b) b" a] by simp

lemma ts_sub_later:
  assumes "normal_ts a" "normal_ts b" "a < b"
  shows "ts_sub a b = (if tv_usec a < tv_usec b then TS_ZERO
                       else Timestamp (tv_sec a - tv_sec b) (tv_usec a - tv_usec b))"
    "tv_usec b \<le> tv_usec a \<Longrightarrow> tv_sec (ts_sub a b) < 0"
  using assms by (auto simp: ts_sub_def Let_def less_Timestamp_def TS_ZERO_def split: if_splits)



end
