(* ===== verification/Time_Queue.thy ===== *)
theory Time_Queue
  imports Skip_List Time_Stamp
begin

text \<open>
  src/storage/pq/TimeQueue.h and TimeQueue.cpp: the products of the queue in the order of their
  insertion times, a skip list whose nodes are the elements of \<open>tqep_\<close> and whose towers live in the
  shared \<open>FreeBlock\<close> arena. Node 0 (\<open>TQ_NIL\<close>) is the tail, node 1 (\<open>TQ_HEAD\<close>) the head. Unused
  elements form a free list through their \<open>offset\<close> field.

  The arena and the generator of random levels are arguments that the operations return updated;
  \<open>now\<close> stands for the value \<open>Timestamp::Now\<close> reads from the clock.

  \<open>tq_inv tq fb A L h\<close> says that \<open>tq\<close> is a well-formed queue over the arena \<open>fb\<close>, holding the nodes
  \<open>L\<close> in strictly increasing time order.
\<close>

subsection \<open>State\<close>

definition TQ_OVERHEAD_ELEMS :: nat where "TQ_OVERHEAD_ELEMS = 2"

definition TQ_NONE :: int where "TQ_NONE = -1"

definition TQ_NIL :: nat where "TQ_NIL = 0"

definition TQ_HEAD :: nat where "TQ_HEAD = 1"

record TimeQueueElement =
  te_tv :: Timestamp
  te_offset :: int
  te_fblk :: nat

record TimeQueue =
  tq_nalloc :: nat
  tq_nelems :: nat
  tq_nfree :: nat
  tq_free_head :: int
  tq_level :: nat
  tqep :: "TimeQueueElement list"

datatype Match = LessThan | Equal | GreaterThan

text \<open>Indexing with a signed \<open>tqep_t\<close>.\<close>

definition rdi :: "'a list \<Rightarrow> int \<Rightarrow> 'a option" where
  "rdi xs i = (if 0 \<le> i then rd xs (nat i) else None)"

subsection \<open>Initialisation\<close>

definition tq_tower :: "TimeQueueElement list \<Rightarrow> tower" where
  "tq_tower es n = map_option te_fblk (rd es n)"

text \<open>The loop over the unused elements, from index \<open>i\<close> on; \<open>current_nelems\<close> is \<open>i\<close> before each round.\<close>

primrec tq_free_loop :: "nat \<Rightarrow> nat \<Rightarrow> TimeQueueElement list \<Rightarrow> TimeQueueElement list option" where
  "tq_free_loop 0 i es = Some es"
| "tq_free_loop (Suc todo) i es = do {
     es' \<leftarrow> wr es i \<lparr>te_tv = TS_NONE, te_offset = int i + 1, te_fblk = FBLK_NONE\<rparr>;
     tq_free_loop todo (Suc i) es' }"

definition tq_Initialize :: "nat \<Rightarrow> TimeQueue \<Rightarrow> FreeBlock \<Rightarrow> (TimeQueue \<times> FreeBlock) option" where
  "tq_Initialize allocSize tq fb = do {
     log_assert (fb_magic fb = FB_MAGIC);
     (b0, fb1) \<leftarrow> FreeBlock_Get 0 fb;
     es1 \<leftarrow> wr (tqep tq) TQ_NIL \<lparr>te_tv = TS_ENDT, te_offset = -1, te_fblk = b0\<rparr>;
     (b1, fb2) \<leftarrow> FreeBlock_Get (maxsize fb1 - 1) fb1;
     es2 \<leftarrow> wr es1 TQ_HEAD \<lparr>te_tv = TS_NONE, te_offset = -1, te_fblk = b1\<rparr>;
     ar \<leftarrow> sl_fill (maxsize fb2) 0 b1 TQ_NIL (fblks fb2);
     es3 \<leftarrow> tq_free_loop allocSize TQ_OVERHEAD_ELEMS es2;
     lst \<leftarrow> rd es3 (allocSize + TQ_OVERHEAD_ELEMS - 1);
     es4 \<leftarrow> wr es3 (allocSize + TQ_OVERHEAD_ELEMS - 1) (lst\<lparr>te_offset := TQ_NONE\<rparr>);
     Some (\<lparr>tq_nalloc = allocSize, tq_nelems = TQ_OVERHEAD_ELEMS,
             tq_nfree = sz_sub (sz_add allocSize TQ_OVERHEAD_ELEMS) TQ_OVERHEAD_ELEMS,
             tq_free_head = int TQ_OVERHEAD_ELEMS, tq_level = 0, tqep = es4\<rparr>,
           fb2\<lparr>fblks := ar\<rparr>) }"

subsection \<open>Elements\<close>

definition tq_HasSpace :: "TimeQueue \<Rightarrow> bool option" where
  "tq_HasSpace tq = do {
     log_assert (sz_sub (tq_nelems tq) TQ_OVERHEAD_ELEMS \<le> tq_nalloc tq);
     Some (sz_sub (tq_nelems tq) TQ_OVERHEAD_ELEMS < tq_nalloc tq) }"

definition tq_AllocateElement :: "TimeQueue \<Rightarrow> (int \<times> TimeQueue) option" where
  "tq_AllocateElement tq =
     (if tq_nfree tq > 0 then do {
        let result = tq_free_head tq;
        tpp \<leftarrow> rdi (tqep tq) result;
        log_assert (result > int TQ_HEAD \<and> result \<noteq> TQ_NONE);
        Some (result, tq\<lparr>tq_free_head := te_offset tpp, tq_nfree := sz_dec (tq_nfree tq),
                         tq_nelems := sz_inc (tq_nelems tq)\<rparr>) }
      else Some (TQ_NONE, tq))"

definition tq_FreeElement :: "nat \<Rightarrow> nat \<Rightarrow> TimeQueue \<Rightarrow> FreeBlock \<Rightarrow> (TimeQueue \<times> FreeBlock) option" where
  "tq_FreeElement nlevels p tq fb = do {
     tpp \<leftarrow> rd (tqep tq) p;
     log_assert (fb_magic fb = FB_MAGIC);
     log_assert (TQ_HEAD < p \<and> p < tq_nalloc tq + TQ_OVERHEAD_ELEMS);
     fb' \<leftarrow> FreeBlock_Release nlevels (te_fblk tpp) fb;
     es \<leftarrow> wr (tqep tq) p \<lparr>te_tv = TS_NONE, te_offset = tq_free_head tq, te_fblk = FBLK_NONE\<rparr>;
     Some (tq\<lparr>tqep := es, tq_free_head := int p, tq_nfree := sz_inc (tq_nfree tq),
              tq_nelems := sz_dec (tq_nelems tq)\<rparr>, fb') }"

subsection \<open>Insertion\<close>

text \<open>
  The search of \<open>Add\<close>: a time that is already taken is moved on by a microsecond, and the search
  resumes on the top level from the predecessor found there.
\<close>

partial_function (option) tq_Add_loop ::
  "TimeQueueElement list \<Rightarrow> nat list \<Rightarrow> nat \<Rightarrow> nat \<Rightarrow> nat \<Rightarrow> Timestamp \<Rightarrow> nat list \<Rightarrow> (Timestamp \<times> nat list) option" where
  "tq_Add_loop es ar level k p t upd = do {
     (p', q) \<leftarrow> sl_walk ar (tq_tower es) (\<lambda>x. map_option (\<lambda>e. te_tv e < t) (rd es x)) k p;
     tqp \<leftarrow> rd es q;
     if te_tv tqp \<noteq> t then do {
       upd' \<leftarrow> wr upd k p';
       if k = 0 then Some (t, upd') else tq_Add_loop es ar level (k - 1) p' t upd' }
     else if k < level then do {
       p'' \<leftarrow> rd upd level;
       tq_Add_loop es ar level level p'' (IncrementMicrosecond t) upd }
     else tq_Add_loop es ar level k p' (IncrementMicrosecond t) upd }"

declare tq_Add_loop.simps [code]

definition tq_Add :: "int \<Rightarrow> Timestamp \<Rightarrow> TimeQueue \<Rightarrow> FreeBlock \<Rightarrow> rng \<Rightarrow> (int \<times> TimeQueue \<times> FreeBlock \<times> rng) option" where
  "tq_Add offset now tq fb r = do {
     log_assert (fb_magic fb = FB_MAGIC);
     log_assert (tq_nalloc tq \<noteq> 0);
     space \<leftarrow> tq_HasSpace tq;
     log_assert space;
     (tpix, tq1) \<leftarrow> tq_AllocateElement tq;
     log_assert (tpix \<noteq> TQ_NONE);
     let ix = nat tpix;
     (t, upd) \<leftarrow> tq_Add_loop (tqep tq1) (fblks fb) (tq_level tq1) (tq_level tq1) TQ_HEAD now fresh_update;
     tp \<leftarrow> rd (tqep tq1) ix;
     es \<leftarrow> wr (tqep tq1) ix (tp\<lparr>te_tv := t\<rparr>);
     let (k0, r') = GetRandomLevel fb r;
     let k = cap_level (tq_level tq1) k0;
     (fblk, fb1) \<leftarrow> FreeBlock_Get k fb;
     if fblk = FBLK_NONE then Some (ENOSPC, tq1\<lparr>tqep := es\<rparr>, fb1, r')
     else do {
       es' \<leftarrow> wr es ix \<lparr>te_tv = t, te_offset = offset, te_fblk = fblk\<rparr>;
       upd' \<leftarrow> (if k > tq_level tq1 then wr upd k TQ_HEAD else Some upd);
       ar \<leftarrow> sl_link k upd' (tq_tower es') ix (fblks fb1);
       Some (0, tq1\<lparr>tqep := es', tq_level := max (tq_level tq1) k\<rparr>, fb1\<lparr>fblks := ar\<rparr>, r') } }"

subsection \<open>Lookup\<close>

definition tq_Find :: "Timestamp \<Rightarrow> Match \<Rightarrow> TimeQueue \<Rightarrow> FreeBlock \<Rightarrow> nat option option" where
  "tq_Find key mt tq fb =
     (if sz_sub (tq_nelems tq) TQ_OVERHEAD_ELEMS = 0 then Some None
      else do {
        log_assert (fb_magic fb = FB_MAGIC);
        (p, q, _) \<leftarrow> sl_search (fblks fb) (tq_tower (tqep tq))
          (\<lambda>x. map_option (\<lambda>e. te_tv e < key) (rd (tqep tq) x)) (tq_level tq) TQ_HEAD None;
        tqp \<leftarrow> rd (tqep tq) q;
        case mt of
          LessThan \<Rightarrow> Some (if p = TQ_HEAD then None else Some p)
        | Equal \<Rightarrow> Some (if te_tv tqp = key then Some q else None)
        | GreaterThan \<Rightarrow>
            if q = TQ_NIL then Some None
            else if te_tv tqp = key then do {
              q' \<leftarrow> sl_next (fblks fb) (tq_tower (tqep tq)) q 0;
              _ \<leftarrow> rd (tqep tq) q';
              Some (if q' = TQ_NIL then None else Some q') }
            else Some (Some q) })"

definition tq_First :: "TimeQueue \<Rightarrow> FreeBlock \<Rightarrow> nat option option" where
  "tq_First tq fb = do {
     log_assert (fb_magic fb = FB_MAGIC);
     q \<leftarrow> sl_next (fblks fb) (tq_tower (tqep tq)) TQ_HEAD 0;
     Some (if q = TQ_NIL then None else Some q) }"

text \<open>\<open>Next\<close> hands out the tail as an element; it has no null result.\<close>

definition tq_Next :: "nat \<Rightarrow> TimeQueue \<Rightarrow> FreeBlock \<Rightarrow> nat option" where
  "tq_Next n tq fb = do {
     log_assert (fb_magic fb = FB_MAGIC);
     sl_next (fblks fb) (tq_tower (tqep tq)) n 0 }"

subsection \<open>Deletion\<close>

definition tq_Delete_lt :: "TimeQueue \<Rightarrow> TimeQueueElement \<Rightarrow> nat \<Rightarrow> bool option" where
  "tq_Delete_lt tq key q = do {
     log_assert (q = TQ_NIL \<or> (TQ_HEAD < q \<and> q < tq_nalloc tq + TQ_OVERHEAD_ELEMS));
     tqp \<leftarrow> rd (tqep tq) q;
     Some (te_tv tqp < te_tv key \<or> (te_tv tqp = te_tv key \<and> te_offset tqp < te_offset key)) }"

definition tq_Delete :: "nat \<Rightarrow> TimeQueue \<Rightarrow> FreeBlock \<Rightarrow> (TimeQueue \<times> FreeBlock) option" where
  "tq_Delete n tq fb = do {
     log_assert (fb_magic fb = FB_MAGIC);
     key \<leftarrow> rd (tqep tq) n;
     (_, q, upd) \<leftarrow> sl_search (fblks fb) (tq_tower (tqep tq)) (tq_Delete_lt tq key)
       (tq_level tq) TQ_HEAD (Some fresh_update);
     tqp \<leftarrow> rd (tqep tq) q;
     if te_tv tqp = te_tv key \<and> te_offset tqp = te_offset key then do {
       (k, ar) \<leftarrow> sl_unlink (Suc (tq_level tq)) 0 (the upd) (tq_tower (tqep tq)) q (fblks fb);
       (tq', fb') \<leftarrow> tq_FreeElement k q tq (fb\<lparr>fblks := ar\<rparr>);
       m \<leftarrow> sl_lower (fblks fb') (tq_tower (tqep tq')) TQ_HEAD TQ_NIL (tq_level tq);
       Some (tq'\<lparr>tq_level := m\<rparr>, fb') }
     else Some (tq, fb) }"


subsection \<open>Well-formed queues\<close>

abbreviation tq_tv :: "TimeQueueElement list \<Rightarrow> nat \<Rightarrow> Timestamp" where
  "tq_tv es i \<equiv> te_tv (es ! i)"

abbreviation tq_base :: "TimeQueueElement list \<Rightarrow> nat \<Rightarrow> nat" where
  "tq_base es i \<equiv> te_fblk (es ! i)"

text \<open>The nodes of a list are in bounds and carry strictly increasing, normalised times before the tail's.\<close>

definition tq_nodes :: "TimeQueueElement list \<Rightarrow> nat \<Rightarrow> nat list \<Rightarrow> bool" where
  "tq_nodes es n L \<longleftrightarrow> n \<le> length es \<and> 2 \<le> n \<and> n < SIZE_NONE \<and> tq_tv es TQ_NIL = TS_ENDT \<and>
     (\<forall>i \<in> set L. 2 \<le> i \<and> i < n \<and> normal_ts (tq_tv es i) \<and> tq_tv es i < TS_ENDT) \<and>
     sorted_wrt (\<lambda>i j. tq_tv es i < tq_tv es j) L"

definition tq_slot :: "int \<Rightarrow> nat" where
  "tq_slot off = (if off = TQ_NONE then SIZE_NONE else nat off)"

definition tq_free :: "TimeQueueElement list \<Rightarrow> nat \<Rightarrow> int \<Rightarrow> nat list \<Rightarrow> bool" where
  "tq_free es n fh fl \<longleftrightarrow> chain (\<lambda>i. tq_slot (te_offset (es ! i))) (tq_slot fh) fl \<and> TQ_NONE \<le> fh \<and>
     (\<forall>i \<in> set fl. 2 \<le> i \<and> i < n \<and> TQ_NONE \<le> te_offset (es ! i))"

definition tq_core :: "TimeQueue \<Rightarrow> FreeBlock \<Rightarrow> (nat \<rightharpoonup> nat) \<Rightarrow> nat list \<Rightarrow> (nat \<Rightarrow> nat) \<Rightarrow> nat list \<Rightarrow> bool" where
  "tq_core tq fb A L h fl \<longleftrightarrow> fb_inv fb A \<and> 0 < tq_nalloc tq \<and>
     sl_ok A (fblks fb) (tq_base (tqep tq)) (maxsize fb) TQ_HEAD TQ_NIL L h (tq_level tq) \<and>
     tq_nodes (tqep tq) (tq_nalloc tq + TQ_OVERHEAD_ELEMS) L \<and>
     tq_free (tqep tq) (tq_nalloc tq + TQ_OVERHEAD_ELEMS) (tq_free_head tq) fl \<and> set fl \<inter> set L = {} \<and>
     tq_nfree tq = length fl \<and> tq_nelems tq + tq_nfree tq = tq_nalloc tq + TQ_OVERHEAD_ELEMS"

definition tq_inv :: "TimeQueue \<Rightarrow> FreeBlock \<Rightarrow> (nat \<rightharpoonup> nat) \<Rightarrow> nat list \<Rightarrow> (nat \<Rightarrow> nat) \<Rightarrow> bool" where
  "tq_inv tq fb A L h \<longleftrightarrow> (\<exists>fl. tq_core tq fb A L h fl)"

lemmas tq_consts = TQ_OVERHEAD_ELEMS_def TQ_NONE_def TQ_NIL_def TQ_HEAD_def

lemma tq_nodesD:
  assumes "tq_nodes es n L"
  shows "n \<le> length es" "2 \<le> n" "n < SIZE_NONE" "tq_tv es TQ_NIL = TS_ENDT"
    "i \<in> set L \<Longrightarrow> 2 \<le> i" "i \<in> set L \<Longrightarrow> i < n" "i \<in> set L \<Longrightarrow> i < length es"
    "i \<in> set L \<Longrightarrow> normal_ts (tq_tv es i)" "i \<in> set L \<Longrightarrow> tq_tv es i < TS_ENDT"
    "sorted_wrt (\<lambda>i j. tq_tv es i < tq_tv es j) L"
  using assms unfolding tq_nodes_def by fastforce+

lemma tq_tower_in: "i < length es \<Longrightarrow> tq_tower es i = Some (tq_base es i)"
  by (simp add: tq_tower_def)

lemma tq_nodes_tower:
  assumes "tq_nodes es n L" "x \<in> set (TQ_HEAD # TQ_NIL # L)"
  shows "x < length es" "tq_tower es x = Some (tq_base es x)"
proof -
  show "x < length es" using tq_nodesD(1,2,7) [OF assms(1)] assms(2) by (auto simp: tq_consts)
  then show "tq_tower es x = Some (tq_base es x)" by (rule tq_tower_in)
qed

text \<open>Splitting the nodes at a time.\<close>

definition split_at :: "TimeQueueElement list \<Rightarrow> Timestamp \<Rightarrow> nat list \<Rightarrow> nat list \<Rightarrow> bool" where
  "split_at es t xs ys \<longleftrightarrow> (\<forall>x \<in> set xs. tq_tv es x < t) \<and> (\<forall>y \<in> set ys. t \<le> tq_tv es y)"

lemma split_at_exists:
  assumes "tq_nodes es n L"
  shows "\<exists>xs ys. L = xs @ ys \<and> split_at es t xs ys"
proof -
  let ?P = "\<lambda>i. tq_tv es i < t"
  have "t \<le> tq_tv es y" if y: "y \<in> set (dropWhile ?P L)" for y
  proof -
    obtain z zs where z: "dropWhile ?P L = z # zs" using y by (cases "dropWhile ?P L") auto
    have "t \<le> tq_tv es z" using hd_dropWhile [of ?P L] z by simp
    moreover have "sorted_wrt (\<lambda>i j. tq_tv es i < tq_tv es j) (z # zs)"
      using tq_nodesD(10) [OF assms] z sorted_wrt_append [of _ "takeWhile ?P L" "z # zs"]
      by (metis takeWhile_dropWhile_id)
    ultimately show ?thesis using y z by auto
  qed
  then show ?thesis
    by (intro exI [of _ "takeWhile ?P L"] exI [of _ "dropWhile ?P L"])
       (auto simp: split_at_def dest: set_takeWhileD)
qed

lemma tq_walk:
  assumes blk: "blocks_ok A ar" and ok: "sl_ok A ar (tq_base es) ms TQ_HEAD TQ_NIL (xs @ ys) h level"
    and nodes: "tq_nodes es n (xs @ ys)" and sp: "split_at es t xs ys" and t: "t < TS_ENDT"
    and k: "k < ms" and p: "p \<in> set (TQ_HEAD # level_list k h xs)"
  shows "sl_walk ar (tq_tower es) (\<lambda>x. map_option (\<lambda>e. te_tv e < t) (rd es x)) k p =
           Some (sl_pred TQ_HEAD h xs k, hd (level_list k h ys @ [TQ_NIL]))"
proof (rule sl_walk_level [OF blk ok k _ _ _ p])
  show "tq_tower es x = Some (tq_base es x)" if "x \<in> set (TQ_HEAD # xs)" for x
    using that by (intro tq_nodes_tower(2) [OF nodes]) auto
  show "map_option (\<lambda>e. te_tv e < t) (rd es x) = Some True" if "x \<in> set xs" for x
    using that sp tq_nodes_tower(1) [OF nodes, of x] by (auto simp: split_at_def)
  show "map_option (\<lambda>e. te_tv e < t) (rd es x) = Some False" if "x \<in> set (ys @ [TQ_NIL])" for x
    using that sp t tq_nodes_tower(1) [OF nodes, of x] tq_nodesD(4) [OF nodes]
    by (auto simp: split_at_def not_less)
qed

text \<open>The search of \<open>Add\<close> ends at the first time from \<open>t\<close> on that no node carries.\<close>

lemma tq_Add_loop_spec:
  assumes blk: "blocks_ok A ar" and ok: "sl_ok A ar (tq_base es) ms TQ_HEAD TQ_NIL (xs @ ys) h level"
    and nodes: "tq_nodes es n (xs @ ys)" and level: "level < MAXLEVELS"
    and "split_at es t xs ys" "normal_ts t" "usecs t + int (length ys) < usecs TS_ENDT"
    and "k \<le> level" "p \<in> set (TQ_HEAD # level_list k h xs)" "length upd = MAXLEVELS"
    and "\<And>j. k < j \<Longrightarrow> j \<le> level \<Longrightarrow> upd ! j = sl_pred TQ_HEAD h xs j"
  shows "\<exists>t' upd' xs' ys'. tq_Add_loop es ar level k p t upd = Some (t', upd') \<and> xs @ ys = xs' @ ys' \<and>
     split_at es t' xs' ys' \<and> t' \<notin> tq_tv es ` set (xs @ ys) \<and> normal_ts t' \<and> t \<le> t' \<and> t' < TS_ENDT \<and>
     (\<forall>s. normal_ts s \<longrightarrow> t \<le> s \<longrightarrow> s < t' \<longrightarrow> s \<in> tq_tv es ` set (xs @ ys)) \<and>
     length upd' = MAXLEVELS \<and> (\<forall>j \<le> level. upd' ! j = sl_pred TQ_HEAD h xs' j)"
  using assms
proof (induction "length ys * Suc level + k" arbitrary: k p t upd xs ys rule: less_induct)
  case less
  note sp = less.prems(5)[unfolded split_at_def] and nt = less.prems(6)
  have t: "t < TS_ENDT" using less.prems(7) usecs_less [OF nt normal_ENDT] by simp
  define q where "q = hd (level_list k h ys @ [TQ_NIL])"
  have km: "k < ms" using less.prems(8) sl_okD(3) [OF less.prems(2)] by simp
  have walk: "sl_walk ar (tq_tower es) (\<lambda>x. map_option (\<lambda>e. te_tv e < t) (rd es x)) k p =
      Some (sl_pred TQ_HEAD h xs k, q)"
    unfolding q_def by (rule tq_walk [OF less.prems(1-3,5) t km less.prems(9)])
  have qin: "q \<in> set (level_list k h ys @ [TQ_NIL])" unfolding q_def by (rule hd_in_set) simp
  then have ql: "q < length es" by (intro tq_nodes_tower(1) [OF less.prems(3)]) auto
  show ?case
  proof (cases "tq_tv es q = t")
    case False
    define upd1 where "upd1 = upd[k := sl_pred TQ_HEAD h xs k]"
    have ku: "k < length upd" using less.prems(4,8,10) by simp
    have unf: "tq_Add_loop es ar level k p t upd =
        (if k = 0 then Some (t, upd1) else tq_Add_loop es ar level (k - 1) (sl_pred TQ_HEAD h xs k) t upd1)"
      by (subst tq_Add_loop.simps) (simp add: walk ql False ku upd1_def)
    have upd1: "length upd1 = MAXLEVELS" "\<And>j. k \<le> j \<Longrightarrow> j \<le> level \<Longrightarrow> upd1 ! j = sl_pred TQ_HEAD h xs j"
      using less.prems(10,11) ku by (auto simp: upd1_def nth_list_update)
    show ?thesis
    proof (cases "k = 0")
      case True
      have "t \<notin> tq_tv es ` set (xs @ ys)"
      proof
        assume "t \<in> tq_tv es ` set (xs @ ys)"
        then obtain i where i: "i \<in> set ys" "tq_tv es i = t" using sp by auto
        then have ne: "ys \<noteq> []" by auto
        then have "q = hd ys" using True by (simp add: q_def)
        with ne show False using i False sp tq_nodesD(10) [OF less.prems(3)]
          by (cases ys) (auto simp: sorted_wrt_append)
      qed
      then show ?thesis using True unf upd1 less.prems(5) nt t
        by (intro exI [of _ t] exI [of _ upd1] exI [of _ xs] exI [of _ ys]) auto
    next
      case nz: False
      have "\<exists>t' upd' xs' ys'. tq_Add_loop es ar level (k - 1) (sl_pred TQ_HEAD h xs k) t upd1 = Some (t', upd') \<and>
         xs @ ys = xs' @ ys' \<and> split_at es t' xs' ys' \<and> t' \<notin> tq_tv es ` set (xs @ ys) \<and> normal_ts t' \<and>
         t \<le> t' \<and> t' < TS_ENDT \<and>
         (\<forall>s. normal_ts s \<longrightarrow> t \<le> s \<longrightarrow> s < t' \<longrightarrow> s \<in> tq_tv es ` set (xs @ ys)) \<and>
         length upd' = MAXLEVELS \<and> (\<forall>j \<le> level. upd' ! j = sl_pred TQ_HEAD h xs' j)"
        using nz less.prems upd1 sl_pred_level [of TQ_HEAD h xs "k - 1"] by (intro less.hyps) auto
      then show ?thesis using unf nz by simp
    qed
  next
    case True
    have qnt: "q \<noteq> TQ_NIL" using True t tq_nodesD(4) [OF less.prems(3)] by auto
    then have qy: "q \<in> set ys" "k \<le> h q" using qin by auto
    obtain ys' where ys: "ys = q # ys'"
      using qy(1) sp True tq_nodesD(10) [OF less.prems(3)]
      by (cases ys) (auto simp: sorted_wrt_append)
    define t1 where "t1 = IncrementMicrosecond t"
    define p1 where "p1 = (if k < level then upd ! level else sl_pred TQ_HEAD h xs k)"
    have t1: "normal_ts t1" "usecs t1 = usecs t + 1" "\<And>s. normal_ts s \<Longrightarrow> s < t1 \<longleftrightarrow> s \<le> t"
      using IncrementMicrosecond_spec [OF nt] less_Increment [OF _ nt] by (simp_all add: t1_def)
    have p1: "p1 = sl_pred TQ_HEAD h xs level"
      using less.prems(8,11) by (auto simp: p1_def)
    have unf: "tq_Add_loop es ar level k p t upd = tq_Add_loop es ar level level p1 t1 upd"
      using less.prems(4,8,10) True ql
      by (subst tq_Add_loop.simps) (auto simp: walk p1_def t1_def)
    have sp1: "split_at es t1 (xs @ [q]) ys'"
    proof -
      have "t1 \<le> tq_tv es y" if "y \<in> set ys'" for y
      proof (rule leI)
        have "normal_ts (tq_tv es y)" using that by (intro tq_nodesD(8) [OF less.prems(3)]) (simp add: ys)
        moreover have "tq_tv es q < tq_tv es y"
          using tq_nodesD(10) [OF less.prems(3)] that by (simp add: ys sorted_wrt_append)
        ultimately show "\<not> tq_tv es y < t1" using t1(3) True by auto
      qed
      moreover have "tq_tv es x < t1" if "x \<in> set (xs @ [q])" for x
        using that True sp t1(3) [of "tq_tv es x"] tq_nodesD(8) [OF less.prems(3), of x] by (auto simp: ys)
      ultimately show ?thesis by (simp add: split_at_def)
    qed
    have "\<exists>t' upd' xs' zs. tq_Add_loop es ar level level p1 t1 upd = Some (t', upd') \<and>
       (xs @ [q]) @ ys' = xs' @ zs \<and> split_at es t' xs' zs \<and> t' \<notin> tq_tv es ` set ((xs @ [q]) @ ys') \<and>
       normal_ts t' \<and> t1 \<le> t' \<and> t' < TS_ENDT \<and>
       (\<forall>s. normal_ts s \<longrightarrow> t1 \<le> s \<longrightarrow> s < t' \<longrightarrow> s \<in> tq_tv es ` set ((xs @ [q]) @ ys')) \<and>
       length upd' = MAXLEVELS \<and> (\<forall>j \<le> level. upd' ! j = sl_pred TQ_HEAD h xs' j)"
    proof (rule less.hyps)
      show "p1 \<in> set (TQ_HEAD # level_list level h (xs @ [q]))"
        using sl_pred_cases [of TQ_HEAD h xs level] by (auto simp: p1)
    qed (use less.prems(1-4,7,8,10) sp1 t1 in \<open>auto simp: ys\<close>)
    moreover have "(xs @ [q]) @ ys' = xs @ ys" by (simp add: ys)
    ultimately have "\<exists>t' upd' xs' zs. tq_Add_loop es ar level k p t upd = Some (t', upd') \<and>
       xs @ ys = xs' @ zs \<and> split_at es t' xs' zs \<and> t' \<notin> tq_tv es ` set (xs @ ys) \<and>
       normal_ts t' \<and> t1 \<le> t' \<and> t' < TS_ENDT \<and>
       (\<forall>s. normal_ts s \<longrightarrow> t1 \<le> s \<longrightarrow> s < t' \<longrightarrow> s \<in> tq_tv es ` set (xs @ ys)) \<and>
       length upd' = MAXLEVELS \<and> (\<forall>j \<le> level. upd' ! j = sl_pred TQ_HEAD h xs' j)"
      unfolding unf by (simp only:)
    then obtain t' upd' xs' zs where r: "tq_Add_loop es ar level k p t upd = Some (t', upd')"
        "xs @ ys = xs' @ zs" "split_at es t' xs' zs" "t' \<notin> tq_tv es ` set (xs @ ys)" "normal_ts t'" "t1 \<le> t'" "t' < TS_ENDT"
        "\<forall>s. normal_ts s \<longrightarrow> t1 \<le> s \<longrightarrow> s < t' \<longrightarrow> s \<in> tq_tv es ` set (xs @ ys)"
        "length upd' = MAXLEVELS" "\<forall>j \<le> level. upd' ! j = sl_pred TQ_HEAD h xs' j"
      by (elim exE conjE) (rule that)
    have "s \<in> tq_tv es ` set (xs @ ys)" if "normal_ts s" "t \<le> s" "s < t'" for s
    proof (cases "s = t")
      case True
      then show ?thesis using \<open>tq_tv es q = t\<close> qy by auto
    next
      case False
      then have "\<not> s < t1" using that t1(3) [of s] by auto
      then have "t1 \<le> s" by simp
      then show ?thesis using that r(8) by blast
    qed
    moreover have "t \<le> t'" using r(6) t1(3) [OF nt] by auto
    ultimately show ?thesis using r by blast
  qed
qed


subsection \<open>Allocation of elements\<close>

lemma tq_coreD:
  assumes "tq_core tq fb A L h fl"
  shows "fb_inv fb A" "0 < tq_nalloc tq"
    "sl_ok A (fblks fb) (tq_base (tqep tq)) (maxsize fb) TQ_HEAD TQ_NIL L h (tq_level tq)"
    "tq_nodes (tqep tq) (tq_nalloc tq + TQ_OVERHEAD_ELEMS) L"
    "tq_free (tqep tq) (tq_nalloc tq + TQ_OVERHEAD_ELEMS) (tq_free_head tq) fl" "set fl \<inter> set L = {}"
    "tq_nfree tq = length fl" "tq_nelems tq + tq_nfree tq = tq_nalloc tq + TQ_OVERHEAD_ELEMS"
  using assms unfolding tq_core_def by blast+

lemma tq_level_bound: "tq_core tq fb A L h fl \<Longrightarrow> tq_level tq < MAXLEVELS"
  using sl_okD(3) [OF tq_coreD(3)] fb_inv_maxsize(2) [OF tq_coreD(1)] by (fastforce simp: MAXLEVELS_def FB_MAX_LEVELS_def)

lemma tq_magic: "tq_core tq fb A L h fl \<Longrightarrow> fb_magic fb = FB_MAGIC"
  by (rule fb_inv_magic [OF tq_coreD(1)])

lemma tq_sizes:
  assumes "tq_core tq fb A L h fl"
  shows "tq_nalloc tq + 2 < 2 ^ 64" "tq_nelems tq + length fl = tq_nalloc tq + 2" "length L + 2 \<le> tq_nelems tq"
    "tq_nelems tq < 2 ^ 64" "length fl < 2 ^ 64"
proof -
  note D = tq_coreD [OF assms] and N = tq_nodesD [OF tq_coreD(4) [OF assms]]
  show s: "tq_nalloc tq + 2 < 2 ^ 64" using N(3) by (simp add: tq_consts SIZE_NONE_def)
  show e: "tq_nelems tq + length fl = tq_nalloc tq + 2" using D(7,8) by (simp add: tq_consts)
  have "distinct fl" using D(5) chain_distinct unfolding tq_free_def by blast
  moreover have "distinct L" using sl_okD(1) [OF D(3)] by simp
  ultimately have "length fl + length L = card (set fl \<union> set L)" using D(6) by (simp add: card_Un_disjoint distinct_card)
  also have "\<dots> \<le> card {2..<tq_nalloc tq + 2}"
    using D(5) N(5,6) by (intro card_mono) (auto simp: tq_free_def tq_consts)
  finally show "length L + 2 \<le> tq_nelems tq" using e by simp
  show "tq_nelems tq < 2 ^ 64" "length fl < 2 ^ 64" using s e by linarith+
qed

lemma tq_free_pop:
  assumes "tq_free es n fh (i # fl)"
  shows "fh = int i" "2 \<le> i" "i < n" "i \<notin> set fl" "tq_free es n (te_offset (es ! i)) fl"
proof -
  have c: "chain (\<lambda>i. tq_slot (te_offset (es ! i))) (tq_slot fh) (i # fl)" and fh: "TQ_NONE \<le> fh"
    using assms by (auto simp: tq_free_def)
  then have "tq_slot fh = i" "tq_slot fh \<noteq> SIZE_NONE" by auto
  then show "fh = int i" using fh by (auto simp: tq_slot_def tq_consts split: if_splits)
  show "2 \<le> i" "i < n" "i \<notin> set fl" "tq_free es n (te_offset (es ! i)) fl"
    using assms chain_distinct [OF c] by (auto simp: tq_free_def)
qed

lemma tq_free_cong:
  assumes "tq_free es n fh fl" "\<And>i. i \<in> set fl \<Longrightarrow> es' ! i = es ! i"
  shows "tq_free es' n fh fl"
  using assms unfolding tq_free_def by (auto intro: chain_cong [of "\<lambda>i. tq_slot (te_offset (es ! i))"])

lemma tq_nodes_cong:
  assumes "tq_nodes es n L" "length es' = length es" "\<And>i. i \<in> set (TQ_NIL # L) \<Longrightarrow> te_tv (es' ! i) = te_tv (es ! i)"
  shows "tq_nodes es' n L"
proof -
  have "sorted_wrt (\<lambda>i j. tq_tv es' i < tq_tv es' j) L"
    by (rule sorted_wrt_mono_rel [OF _ tq_nodesD(10) [OF assms(1)]]) (use assms(3) in simp)
  then show ?thesis using assms unfolding tq_nodes_def by simp
qed

text \<open>Taking the first free element out of the free list.\<close>

lemma tq_AllocateElement_core:
  assumes core: "tq_core tq fb A L h (i # fl)"
  defines "tq1 \<equiv> tq\<lparr>tq_free_head := te_offset (tqep tq ! i), tq_nfree := length fl, tq_nelems := Suc (tq_nelems tq)\<rparr>"
  shows "tq_AllocateElement tq = Some (int i, tq1)" "tq_core tq1 fb A L h fl"
    "2 \<le> i" "i < tq_nalloc tq + TQ_OVERHEAD_ELEMS" "i < length (tqep tq)" "i \<notin> set L" "i \<notin> set fl"
proof -
  note D = tq_coreD [OF core] and N = tq_nodesD [OF tq_coreD(4) [OF core]] and S = tq_sizes [OF core]
  note P = tq_free_pop [OF D(5)]
  show il: "i < length (tqep tq)" using P(3) N(1) by simp
  show "tq_AllocateElement tq = Some (int i, tq1)"
    using P(1,2) il D(7) S(1,2,4) by (simp add: tq_AllocateElement_def tq1_def rdi_def tq_consts Let_def)
  show "tq_core tq1 fb A L h fl" unfolding tq_core_def using D P(5) by (auto simp: tq1_def)
qed (use tq_free_pop [OF tq_coreD(5) [OF core]] tq_coreD(6) [OF core] in auto)

text \<open>Writing an element that is neither linked nor free.\<close>

lemma tq_write_loose:
  assumes core: "tq_core tq fb A L h fl" and i: "2 \<le> i" "i \<notin> set L" "i \<notin> set fl"
  shows "tq_core (tq\<lparr>tqep := (tqep tq)[i := e]\<rparr>) fb A L h fl"
proof -
  note D = tq_coreD [OF core]
  have same: "(tqep tq)[i := e] ! x = tqep tq ! x" if "x \<in> set (TQ_HEAD # TQ_NIL # L) \<union> set fl" for x
    using that i by (intro nth_list_update_neq) (auto simp: tq_consts)
  have "sl_ok A (fblks fb) (tq_base ((tqep tq)[i := e])) (maxsize fb) TQ_HEAD TQ_NIL L h (tq_level tq)"
    using same by (intro sl_ok_frame [OF D(3)]) auto
  moreover have "tq_nodes ((tqep tq)[i := e]) (tq_nalloc tq + TQ_OVERHEAD_ELEMS) L"
    using same by (intro tq_nodes_cong [OF D(4)]) auto
  moreover have "tq_free ((tqep tq)[i := e]) (tq_nalloc tq + TQ_OVERHEAD_ELEMS) (tq_free_head tq) fl"
    using same by (intro tq_free_cong [OF D(5)]) auto
  ultimately show ?thesis using D(1,2,6-8) unfolding tq_core_def by simp
qed

subsection \<open>Insertion\<close>

text \<open>The first normalised time from \<open>now\<close> on that is not in \<open>T\<close>.\<close>

definition first_free :: "Timestamp set \<Rightarrow> Timestamp \<Rightarrow> Timestamp \<Rightarrow> bool" where
  "first_free T now t \<longleftrightarrow> normal_ts t \<and> now \<le> t \<and> t \<notin> T \<and> (\<forall>s. normal_ts s \<longrightarrow> now \<le> s \<longrightarrow> s < t \<longrightarrow> s \<in> T)"

text \<open>What the queue holds: the times and offsets of its nodes, in order.\<close>

definition tq_entries :: "TimeQueue \<Rightarrow> nat list \<Rightarrow> (Timestamp \<times> int) list" where
  "tq_entries tq L = map (\<lambda>i. (te_tv (tqep tq ! i), te_offset (tqep tq ! i))) L"

definition tq_towers :: "TimeQueue \<Rightarrow> nat list \<Rightarrow> nat set" where
  "tq_towers tq L = tq_base (tqep tq) ` set (TQ_HEAD # TQ_NIL # L)"

lemma tq_entries_upd:
  assumes "i \<notin> set L"
  shows "tq_entries (tq\<lparr>tqep := (tqep tq0)[i := e]\<rparr>) L = map (\<lambda>i. (te_tv (tqep tq0 ! i), te_offset (tqep tq0 ! i))) L"
proof -
  have "(tqep tq0)[i := e] ! x = tqep tq0 ! x" if "x \<in> set L" for x using assms that by (metis nth_list_update_neq)
  then show ?thesis by (simp add: tq_entries_def)
qed

lemma tq_search_now:
  assumes core: "tq_core tq fb A L h fl" and now: "normal_ts now" "usecs now + int (length L) < usecs TS_ENDT"
  shows "\<exists>t upd xs ys. tq_Add_loop (tqep tq) (fblks fb) (tq_level tq) (tq_level tq) TQ_HEAD now fresh_update = Some (t, upd) \<and>
    L = xs @ ys \<and> split_at (tqep tq) t xs ys \<and> first_free (tq_tv (tqep tq) ` set L) now t \<and> t < TS_ENDT \<and>
    length upd = MAXLEVELS \<and> (\<forall>j \<le> tq_level tq. upd ! j = sl_pred TQ_HEAD h xs j)"
proof -
  note D = tq_coreD [OF core]
  obtain xs ys where xy: "L = xs @ ys" "split_at (tqep tq) now xs ys" using split_at_exists [OF D(4)] by blast
  have "\<exists>t' upd' xs' ys'. tq_Add_loop (tqep tq) (fblks fb) (tq_level tq) (tq_level tq) TQ_HEAD now fresh_update = Some (t', upd') \<and>
     xs @ ys = xs' @ ys' \<and> split_at (tqep tq) t' xs' ys' \<and> t' \<notin> tq_tv (tqep tq) ` set (xs @ ys) \<and> normal_ts t' \<and>
     now \<le> t' \<and> t' < TS_ENDT \<and>
     (\<forall>s. normal_ts s \<longrightarrow> now \<le> s \<longrightarrow> s < t' \<longrightarrow> s \<in> tq_tv (tqep tq) ` set (xs @ ys)) \<and>
     length upd' = MAXLEVELS \<and> (\<forall>j \<le> tq_level tq. upd' ! j = sl_pred TQ_HEAD h xs' j)"
    using now(2) tq_level_bound [OF core] D(3,4) unfolding xy(1)
    by (intro tq_Add_loop_spec [OF fb_inv_blocks_ok [OF D(1)] _ _ _ xy(2) now(1)])
       (auto simp: fresh_update_def)
  then show ?thesis unfolding first_free_def xy(1) by metis
qed


lemma tq_nodes_insert:
  assumes nodes: "tq_nodes es n (xs @ ys)" and i: "2 \<le> i" "i < n" "i \<notin> set (xs @ ys)"
    and sp: "split_at es t xs ys" and t: "normal_ts t" "t < TS_ENDT" "t \<notin> tq_tv es ` set (xs @ ys)"
  shows "tq_nodes (es[i := \<lparr>te_tv = t, te_offset = off, te_fblk = b\<rparr>]) n (xs @ i # ys)"
proof -
  let ?es = "es[i := \<lparr>te_tv = t, te_offset = off, te_fblk = b\<rparr>]"
  note N = tq_nodesD [OF nodes]
  have il: "i < length es" using i N(1) by simp
  have same: "?es ! x = es ! x" if "x \<in> set (TQ_NIL # xs @ ys)" for x
    using that i by (intro nth_list_update_neq) (auto simp: tq_consts)
  have "tq_nodes ?es n (xs @ ys)" by (rule tq_nodes_cong [OF nodes]) (use same in auto)
  note N' = tq_nodesD [OF this]
  have "tq_tv ?es x < t" if "x \<in> set xs" for x using that sp same [of x] by (auto simp: split_at_def)
  moreover have "t < tq_tv ?es y" if "y \<in> set ys" for y
    using that sp t(3) same [of y] by (auto simp: split_at_def order_less_le)
  moreover have "tq_tv ?es i = t" using il by simp
  ultimately have "sorted_wrt (\<lambda>i j. tq_tv ?es i < tq_tv ?es j) (xs @ i # ys)"
    using N'(10) by (auto simp: sorted_wrt_append)
  moreover have "2 \<le> x \<and> x < n \<and> normal_ts (tq_tv ?es x) \<and> tq_tv ?es x < TS_ENDT" if "x \<in> set (xs @ i # ys)" for x
  proof (cases "x = i")
    case False
    then have x: "x \<in> set (xs @ ys)" using that by auto
    then show ?thesis using N(5,6,8,9) [OF x] same [of x] by simp
  qed (use i t il in simp)
  ultimately show ?thesis using N'(1-4) unfolding tq_nodes_def by blast
qed

lemma tq_link_core:
  fixes off :: int
  assumes core: "tq_core tq fb A (xs @ ys) h fl"
    and i: "2 \<le> i" "i < tq_nalloc tq + TQ_OVERHEAD_ELEMS" "i \<notin> set (xs @ ys)" "i \<notin> set fl"
    and sp: "split_at (tqep tq) t xs ys" and t: "normal_ts t" "t < TS_ENDT" "t \<notin> tq_tv (tqep tq) ` set (xs @ ys)"
    and k: "k < maxsize fb" "k \<le> Suc (tq_level tq)" and get: "FreeBlock_Get k fb = Some (b, fb1)" "b \<noteq> FBLK_NONE"
    and u: "length upd = MAXLEVELS" "\<forall>j \<le> tq_level tq. upd ! j = sl_pred TQ_HEAD h xs j"
  defines "es \<equiv> (tqep tq)[i := \<lparr>te_tv = t, te_offset = off, te_fblk = b\<rparr>]"
    and "upd1 \<equiv> (if k > tq_level tq then upd[k := TQ_HEAD] else upd)"
  shows "\<exists>n ar. sl_link k upd1 (tq_tower es) i (fblks fb1) = Some ar \<and> A b = None \<and> maxsize fb1 = maxsize fb \<and>
    tq_core (tq\<lparr>tqep := es, tq_level := max (tq_level tq) k\<rparr>) (fb1\<lparr>fblks := ar\<rparr>) (A(b \<mapsto> n))
      (xs @ i # ys) (h(i := k)) fl \<and>
    frame A (tq_towers tq (xs @ ys)) (fblks fb) ar"
proof -
  note D = tq_coreD [OF core] and N = tq_nodesD [OF tq_coreD(4) [OF core]]
  have il: "i < length (tqep tq)" using i N(1) by simp
  have same: "es ! x = tqep tq ! x" if "x \<in> set (TQ_HEAD # TQ_NIL # xs @ ys) \<union> set fl" for x
    using that i unfolding es_def by (intro nth_list_update_neq) (auto simp: tq_consts)
  have kM: "k < MAXLEVELS" using k fb_inv_maxsize(2) [OF D(1)] by (simp add: MAXLEVELS_def FB_MAX_LEVELS_def)
  have upd1: "j < length upd1 \<and> upd1 ! j = sl_pred TQ_HEAD h xs j" if "j \<le> k" for j
  proof (cases "j \<le> tq_level tq")
    case True
    then show ?thesis using that kM u by (auto simp: upd1_def nth_list_update)
  next
    case False
    then have "j = k" "tq_level tq < k" using that k(2) by auto
    moreover have "sl_pred TQ_HEAD h xs j = TQ_HEAD"
      using sl_okD(4) [OF D(3)] False by (intro sl_pred_above) fastforce
    ultimately show ?thesis using kM u(1) by (simp add: upd1_def)
  qed
  have new: "i \<notin> set (TQ_HEAD # TQ_NIL # xs @ ys)" using i by (auto simp: tq_consts)
  have tow: "tq_tower es x = Some (tq_base es x)" if "x \<in> set (i # TQ_HEAD # xs)" for x
    using that il tq_nodes_tower(1) [OF D(4), of x] by (intro tq_tower_in) (auto simp: es_def)
  have bi: "tq_base es i = b" using il by (simp add: es_def)
  have bs: "tq_base es x = tq_base (tqep tq) x" if "x \<in> set (TQ_HEAD # TQ_NIL # xs @ ys)" for x
    using same that by auto
  from sl_insert [where base' = "tq_base es", OF D(1,3) new k(1) get bi bs tow upd1]
  obtain n ar where ar: "A b = None" "maxsize fb1 = maxsize fb" "sl_link k upd1 (tq_tower es) i (fblks fb1) = Some ar"
      "fb_inv (fb1\<lparr>fblks := ar\<rparr>) (A(b \<mapsto> n))"
      "sl_ok (A(b \<mapsto> n)) ar (tq_base es) (maxsize fb) TQ_HEAD TQ_NIL (xs @ i # ys) (h(i := k)) (max (tq_level tq) k)"
      "frame A (tq_base (tqep tq) ` set (TQ_HEAD # xs)) (fblks fb) ar" by auto
  have "tq_nodes es (tq_nalloc tq + TQ_OVERHEAD_ELEMS) (xs @ i # ys)"
    unfolding es_def by (rule tq_nodes_insert [OF D(4) i(1-3) sp t])
  moreover have "tq_free es (tq_nalloc tq + TQ_OVERHEAD_ELEMS) (tq_free_head tq) fl"
    using same by (intro tq_free_cong [OF D(5)]) auto
  ultimately have "tq_core (tq\<lparr>tqep := es, tq_level := max (tq_level tq) k\<rparr>) (fb1\<lparr>fblks := ar\<rparr>) (A(b \<mapsto> n))
      (xs @ i # ys) (h(i := k)) fl"
    unfolding tq_core_def using ar(2,4,5) D(2,6-8) i(4) by auto
  moreover have "frame A (tq_towers tq (xs @ ys)) (fblks fb) ar"
    by (rule frame_mono [OF ar(6)]) (auto simp: tq_towers_def)
  ultimately show ?thesis using ar(1-3) by blast
qed

text \<open>\<open>Add\<close> after its search, with the height and the block of the new node known.\<close>

lemma tq_Add_run:
  assumes "fb_magic fb = FB_MAGIC" "tq_nalloc tq \<noteq> 0" "tq_HasSpace tq = Some True"
    "tq_AllocateElement tq = Some (int i, tq1)" "i < length (tqep tq1)"
    "tq_Add_loop (tqep tq1) (fblks fb) (tq_level tq1) (tq_level tq1) TQ_HEAD now fresh_update = Some (t, upd)"
    "GetRandomLevel fb r = (k0, r')" "FreeBlock_Get (cap_level (tq_level tq1) k0) fb = Some (b, fb1)"
  shows "b = FBLK_NONE \<Longrightarrow> tq_Add off now tq fb r =
      Some (ENOSPC, tq1\<lparr>tqep := (tqep tq1)[i := (tqep tq1 ! i)\<lparr>te_tv := t\<rparr>]\<rparr>, fb1, r')"
    "b \<noteq> FBLK_NONE \<Longrightarrow> k = cap_level (tq_level tq1) k0 \<Longrightarrow> k < length upd \<Longrightarrow>
     es = (tqep tq1)[i := \<lparr>te_tv = t, te_offset = off, te_fblk = b\<rparr>] \<Longrightarrow>
     sl_link k (if k > tq_level tq1 then upd[k := TQ_HEAD] else upd) (tq_tower es) i (fblks fb1) = Some ar \<Longrightarrow>
     tq_Add off now tq fb r = Some (0, tq1\<lparr>tqep := es, tq_level := max (tq_level tq1) k\<rparr>, fb1\<lparr>fblks := ar\<rparr>, r')"
proof -
  show "b = FBLK_NONE \<Longrightarrow> tq_Add off now tq fb r =
      Some (ENOSPC, tq1\<lparr>tqep := (tqep tq1)[i := (tqep tq1 ! i)\<lparr>te_tv := t\<rparr>]\<rparr>, fb1, r')"
    unfolding tq_Add_def using assms by (simp add: Let_def TQ_NONE_def)
  show "tq_Add off now tq fb r = Some (0, tq1\<lparr>tqep := es, tq_level := max (tq_level tq1) k\<rparr>, fb1\<lparr>fblks := ar\<rparr>, r')"
    if "b \<noteq> FBLK_NONE" "k = cap_level (tq_level tq1) k0" "k < length upd"
      "es = (tqep tq1)[i := \<lparr>te_tv = t, te_offset = off, te_fblk = b\<rparr>]"
      "sl_link k (if k > tq_level tq1 then upd[k := TQ_HEAD] else upd) (tq_tower es) i (fblks fb1) = Some ar"
    unfolding tq_Add_def using assms that by (cases "k > tq_level tq1") (simp_all add: Let_def TQ_NONE_def)
qed

lemma tq_Add_spec:
  assumes inv: "tq_inv tq fb A L h" and pos: "0 < tq_nfree tq"
    and now: "normal_ts now" "usecs now + int (length L) < usecs TS_ENDT"
  shows "\<exists>t tq' r'. first_free (tq_tv (tqep tq) ` set L) now t \<and> Suc (tq_nfree tq') = tq_nfree tq \<and>
    tq_nalloc tq' = tq_nalloc tq \<and>
    (tq_Add off now tq fb r = Some (ENOSPC, tq', fb, r') \<and> tq_inv tq' fb A L h \<and> tq_entries tq' L = tq_entries tq L \<or>
     (\<exists>fb' b n i k xs ys. tq_Add off now tq fb r = Some (0, tq', fb', r') \<and> L = xs @ ys \<and> A b = None \<and>
        tq_inv tq' fb' (A(b \<mapsto> n)) (xs @ i # ys) (h(i := k)) \<and> maxsize fb' = maxsize fb \<and>
        tq_entries tq' (xs @ i # ys) = tq_entries tq xs @ (t, off) # tq_entries tq ys \<and>
        tq_towers tq' (xs @ i # ys) = insert b (tq_towers tq L) \<and> frame A (tq_towers tq L) (fblks fb) (fblks fb')))"
proof -
  obtain fl0 where "tq_core tq fb A L h fl0" using inv by (auto simp: tq_inv_def)
  moreover obtain i fl where "fl0 = i # fl" using tq_coreD(7) [OF calculation] pos by (cases fl0) auto
  ultimately have core: "tq_core tq fb A L h (i # fl)" by simp
  define tq1 where "tq1 = tq\<lparr>tq_free_head := te_offset (tqep tq ! i), tq_nfree := length fl, tq_nelems := Suc (tq_nelems tq)\<rparr>"
  note al = tq_AllocateElement_core [OF core, folded tq1_def] and S = tq_sizes [OF core] and D = tq_coreD [OF core]
  have space: "tq_HasSpace tq = Some True"
    using S by (simp add: tq_HasSpace_def tq_consts)
  obtain t upd xs ys where loop: "tq_Add_loop (tqep tq1) (fblks fb) (tq_level tq1) (tq_level tq1) TQ_HEAD now fresh_update = Some (t, upd)"
      and xy: "L = xs @ ys" "split_at (tqep tq1) t xs ys" "first_free (tq_tv (tqep tq1) ` set L) now t" "t < TS_ENDT"
      and u: "length upd = MAXLEVELS" "\<forall>j \<le> tq_level tq1. upd ! j = sl_pred TQ_HEAD h xs j"
    using tq_search_now [OF al(2) now] by blast
  obtain k0 r' where rnd: "GetRandomLevel fb r = (k0, r')" by (cases "GetRandomLevel fb r")
  define k where "k = cap_level (tq_level tq1) k0"
  have k0: "k0 < maxsize fb" using GetRandomLevel_lt [OF fb_inv_maxsize(1) [OF D(1)], of r] rnd by simp
  then have k: "k < maxsize fb" "k \<le> Suc (tq_level tq1)" by (auto simp: k_def cap_level_def)
  obtain b fb1 where get: "FreeBlock_Get k fb = Some (b, fb1)" "b = FBLK_NONE \<Longrightarrow> fb1 = fb"
    using FreeBlock_Get_spec [OF D(1) k(1)] by auto
  define es where "es = (tqep tq1)[i := (tqep tq ! i)\<lparr>te_tv := t\<rparr>]"
  have eps: "tqep tq1 = tqep tq" "tq_level tq1 = tq_level tq" "tq_nalloc tq1 = tq_nalloc tq" "Suc (tq_nfree tq1) = tq_nfree tq"
    using D(7) by (simp_all add: tq1_def)
  have ff: "first_free (tq_tv (tqep tq) ` set L) now t" "normal_ts t" "t \<notin> tq_tv (tqep tq1) ` set (xs @ ys)"
    using xy(1,3) eps by (auto simp: first_free_def)
  have il: "i < length (tqep tq1)" "tq_nalloc tq \<noteq> 0" using al(5) eps D(2) by simp_all
  note run = tq_Add_run [OF tq_magic [OF core] il(2) space al(1) il(1) loop rnd get(1) [unfolded k_def]]
  show ?thesis
  proof (cases "b = FBLK_NONE")
    case True
    have "tq_core (tq1\<lparr>tqep := es\<rparr>) fb A L h fl"
      unfolding es_def using al by (intro tq_write_loose) auto
    moreover have "tq_Add off now tq fb r = Some (ENOSPC, tq1\<lparr>tqep := es\<rparr>, fb, r')"
      using True get run(1) by (simp add: es_def eps)
    moreover have "tq_entries (tq1\<lparr>tqep := es\<rparr>) L = tq_entries tq L"
      using tq_entries_upd [OF al(6)] eps by (simp add: es_def tq_entries_def)
    moreover have "tq_inv (tq1\<lparr>tqep := es\<rparr>) fb A L h" using calculation(1) by (auto simp: tq_inv_def)
    ultimately show ?thesis
      by (rule_tac x = t in exI, rule_tac x = "tq1\<lparr>tqep := es\<rparr>" in exI, rule_tac x = r' in exI) (use ff(1) eps in simp)
  next
    case False
    define es' where "es' = (tqep tq1)[i := \<lparr>te_tv = t, te_offset = off, te_fblk = b\<rparr>]"
    define upd1 where "upd1 = (if k > tq_level tq1 then upd[k := TQ_HEAD] else upd)"
    have i': "i < tq_nalloc tq1 + TQ_OVERHEAD_ELEMS" "i \<notin> set (xs @ ys)" using al(4,6) xy(1) eps by auto
    obtain n ar where ar: "sl_link k upd1 (tq_tower es') i (fblks fb1) = Some ar" "A b = None" "maxsize fb1 = maxsize fb"
        "tq_core (tq1\<lparr>tqep := es', tq_level := max (tq_level tq1) k\<rparr>) (fb1\<lparr>fblks := ar\<rparr>) (A(b \<mapsto> n)) (xs @ i # ys) (h(i := k)) fl"
        "frame A (tq_towers tq1 (xs @ ys)) (fblks fb) ar"
      using tq_link_core [OF al(2) [unfolded xy(1)] al(3) i' al(7) xy(2) ff(2) xy(4) ff(3) k get(1) False u, of off]
      unfolding es'_def upd1_def by blast
    have same': "es' ! x = tqep tq ! x" if "x \<in> set (TQ_HEAD # TQ_NIL # L)" for x
      using that al(3,6) unfolding es'_def eps by (intro nth_list_update_neq) (auto simp: tq_consts)
    have at: "es' ! i = \<lparr>te_tv = t, te_offset = off, te_fblk = b\<rparr>" using al(5) eps by (simp add: es'_def)
    have kM: "k < length upd" using k(1) fb_inv_maxsize(2) [OF D(1)] u(1) by (simp add: MAXLEVELS_def FB_MAX_LEVELS_def)
    define tq2 where "tq2 = tq1\<lparr>tqep := es', tq_level := max (tq_level tq1) k\<rparr>"
    have "tq_Add off now tq fb r = Some (0, tq2, fb1\<lparr>fblks := ar\<rparr>, r')"
      unfolding tq2_def by (rule run(2) [OF False k_def kM es'_def ar(1) [unfolded upd1_def]])
    moreover have "tq_entries (tq2) (xs @ i # ys) =
        tq_entries tq xs @ (t, off) # tq_entries tq ys"
      using same' xy(1) at by (simp add: tq_entries_def tq2_def)
    moreover have "tq_towers (tq2) (xs @ i # ys) = insert b (tq_towers tq L)"
    proof -
      have "tq_base es' ` set (TQ_HEAD # TQ_NIL # L) = tq_base (tqep tq) ` set (TQ_HEAD # TQ_NIL # L)"
        using same' by (intro image_cong) auto
      moreover have "set (TQ_HEAD # TQ_NIL # xs @ i # ys) = insert i (set (TQ_HEAD # TQ_NIL # L))" by (auto simp: xy(1))
      ultimately show ?thesis using at by (simp add: tq_towers_def tq2_def)
    qed
    moreover have "tq_towers tq1 (xs @ ys) = tq_towers tq L" using eps xy(1) by (simp add: tq_towers_def)
    moreover have "tq_inv (tq2) (fb1\<lparr>fblks := ar\<rparr>)
        (A(b \<mapsto> n)) (xs @ i # ys) (h(i := k))" using ar(4) by (auto simp: tq_inv_def tq2_def)
    ultimately have "\<exists>fb' b n i k xs ys. tq_Add off now tq fb r =
          Some (0, tq2, fb', r') \<and> L = xs @ ys \<and> A b = None \<and>
        tq_inv (tq2) fb' (A(b \<mapsto> n)) (xs @ i # ys) (h(i := k)) \<and>
        maxsize fb' = maxsize fb \<and>
        tq_entries (tq2) (xs @ i # ys) =
          tq_entries tq xs @ (t, off) # tq_entries tq ys \<and>
        tq_towers (tq2) (xs @ i # ys) = insert b (tq_towers tq L) \<and>
        frame A (tq_towers tq L) (fblks fb) (fblks fb')"
      by (rule_tac x = "fb1\<lparr>fblks := ar\<rparr>" in exI, rule_tac x = b in exI, rule_tac x = n in exI,
          rule_tac x = i in exI, rule_tac x = k in exI, rule_tac x = xs in exI, rule_tac x = ys in exI)
         (use xy(1) ar(2,3,5) in simp)
    then show ?thesis
      by (rule_tac x = t in exI, rule_tac x = tq2 in exI, rule_tac x = r' in exI)
         (use ff(1) eps in \<open>simp add: tq2_def\<close>)
  qed
qed


subsection \<open>Deletion\<close>

lemma tq_Delete_search:
  assumes core: "tq_core tq fb A (xs @ q # ys) h fl"
  shows "sl_search (fblks fb) (tq_tower (tqep tq)) (tq_Delete_lt tq (tqep tq ! q)) (tq_level tq) TQ_HEAD (Some fresh_update) =
    Some (last (TQ_HEAD # xs), q, Some (upd_fill TQ_HEAD h xs (tq_level tq) fresh_update))"
proof -
  note D = tq_coreD [OF core] and N = tq_nodesD [OF tq_coreD(4) [OF core]]
  have ord: "tq_tv (tqep tq) x < tq_tv (tqep tq) q" if "x \<in> set xs" for x
    using N(10) that by (auto simp: sorted_wrt_append)
  have ord': "tq_tv (tqep tq) q < tq_tv (tqep tq) y" if "y \<in> set (ys @ [TQ_NIL])" for y
    using N(10) N(9) [of q] N(4) that by (auto simp: sorted_wrt_append)
  have chk: "log_assert (x = TQ_NIL \<or> (TQ_HEAD < x \<and> x < tq_nalloc tq + TQ_OVERHEAD_ELEMS)) = Some ()"
    "x < length (tqep tq)" if "x \<in> set (TQ_NIL # xs @ q # ys)" for x
    using that N(5,6) [of x] tq_nodes_tower(1) [OF D(4), of x] by (auto simp: tq_consts log_assert_def)
  have "sl_search (fblks fb) (tq_tower (tqep tq)) (tq_Delete_lt tq (tqep tq ! q)) (tq_level tq) TQ_HEAD (Some fresh_update) =
    Some (last (TQ_HEAD # xs), hd ((q # ys) @ [TQ_NIL]), map_option (upd_fill TQ_HEAD h xs (tq_level tq)) (Some fresh_update))"
  proof (rule sl_search_spec [OF fb_inv_blocks_ok [OF D(1)] D(3)])
    show "tq_tower (tqep tq) x = Some (tq_base (tqep tq) x)" if "x \<in> set (TQ_HEAD # xs)" for x
      using that by (intro tq_nodes_tower(2) [OF D(4)]) auto
    show "tq_Delete_lt tq (tqep tq ! q) x = Some True" if "x \<in> set xs" for x
      using that chk [of x] ord [OF that] by (simp add: tq_Delete_lt_def)
    show "tq_Delete_lt tq (tqep tq ! q) x = Some False" if "x \<in> set ((q # ys) @ [TQ_NIL])" for x
    proof (cases "x = q")
      case False
      then show ?thesis using that chk [of x] ord' [of x] by (auto simp: tq_Delete_lt_def)
    qed (use chk [of q] in \<open>simp add: tq_Delete_lt_def\<close>)
    show "upd_ok (Some fresh_update) (tq_level tq)" using tq_level_bound [OF core] by (simp add: fresh_update_def)
  qed
  then show ?thesis by simp
qed

lemma tq_free_push:
  assumes "tq_free es n fh fl" "p \<notin> set fl" "2 \<le> p" "p < n" "p < length es" "n < SIZE_NONE" "te_offset e = fh"
  shows "tq_free (es[p := e]) n (int p) (p # fl)"
proof -
  have same: "es[p := e] ! i = es ! i" if "i \<in> set fl" for i using that assms(2) by (metis nth_list_update_neq)
  have "tq_free (es[p := e]) n fh fl" by (rule tq_free_cong [OF assms(1) same])
  moreover have "tq_slot (int p) = p" using assms(4,6) by (simp add: tq_slot_def TQ_NONE_def)
  ultimately show ?thesis using assms(3-7) by (auto simp: tq_free_def TQ_NONE_def)
qed

lemma tq_Delete_core:
  assumes core: "tq_core tq fb A (xs @ q # ys) h fl"
  shows "\<exists>tq' fb'. tq_Delete q tq fb = Some (tq', fb') \<and>
    tq_core tq' fb' (A(tq_base (tqep tq) q := None)) (xs @ ys) h (q # fl) \<and> maxsize fb' = maxsize fb \<and>
    tq_nalloc tq' = tq_nalloc tq \<and> (\<forall>x. x \<noteq> q \<longrightarrow> tqep tq' ! x = tqep tq ! x) \<and>
    frame (A(tq_base (tqep tq) q := None)) (tq_towers tq (xs @ ys)) (fblks fb) (fblks fb')"
proof -
  note D = tq_coreD [OF core] and N = tq_nodesD [OF tq_coreD(4) [OF core]] and S = tq_sizes [OF core]
  let ?A = "A(tq_base (tqep tq) q := None)" and ?u = "upd_fill TQ_HEAD h xs (tq_level tq) fresh_update"
  have q: "2 \<le> q" "q < tq_nalloc tq + TQ_OVERHEAD_ELEMS" "q < length (tqep tq)" "q \<notin> set fl" "q \<notin> set (xs @ ys)"
    using N(5-7) [of q] D(6) sl_okD(1) [OF D(3)] by auto
  have tow: "tq_tower (tqep tq) x = Some (tq_base (tqep tq) x)" if "x \<in> set (TQ_HEAD # q # xs)" for x
    using that by (intro tq_nodes_tower(2) [OF D(4)]) auto
  have u: "j < length ?u \<and> ?u ! j = sl_pred TQ_HEAD h xs j" if "j \<le> tq_level tq" for j
    using that tq_level_bound [OF core] by (simp add: fresh_update_def)
  obtain ar fb' m where del: "sl_unlink (Suc (tq_level tq)) 0 ?u (tq_tower (tqep tq)) q (fblks fb) = Some (Suc (h q), ar)"
      "FreeBlock_Release (Suc (h q)) (tq_base (tqep tq) q) (fb\<lparr>fblks := ar\<rparr>) = Some fb'" "fb_inv fb' ?A" "maxsize fb' = maxsize fb"
      "\<forall>tower'. tower' TQ_HEAD = Some (tq_base (tqep tq) TQ_HEAD) \<longrightarrow> sl_lower (fblks fb') tower' TQ_HEAD TQ_NIL (tq_level tq) = Some m"
      "sl_ok ?A (fblks fb') (tq_base (tqep tq)) (maxsize fb) TQ_HEAD TQ_NIL (xs @ ys) h m"
      "frame ?A (tq_base (tqep tq) ` set (TQ_HEAD # xs)) (fblks fb) (fblks fb')"
    using sl_delete [OF D(1,3) tow u] by blast
  define es where "es = (tqep tq)[q := \<lparr>te_tv = TS_NONE, te_offset = tq_free_head tq, te_fblk = FBLK_NONE\<rparr>]"
  define tq' where "tq' = tq\<lparr>tqep := es, tq_free_head := int q, tq_nfree := Suc (length fl), tq_nelems := tq_nelems tq - 1, tq_level := m\<rparr>"
  have same: "es ! x = tqep tq ! x" if "x \<noteq> q" for x using that by (simp add: es_def)
  have hd: "TQ_HEAD \<noteq> q" "TQ_NIL \<noteq> q" using q(1) by (auto simp: tq_consts)
  have "tq_tower es TQ_HEAD = Some (tq_base (tqep tq) TQ_HEAD)"
    using tow [of TQ_HEAD] same [OF hd(1)] by (auto simp: tq_tower_def es_def rd_def split: if_splits)
  then have low: "sl_lower (fblks fb') (tq_tower es) TQ_HEAD TQ_NIL (tq_level tq) = Some m" using del(5) by blast
  have cnt: "length fl + 1 < 2 ^ 64" "1 \<le> tq_nelems tq" "tq_nelems tq < 2 ^ 64" using S by auto
  have run: "tq_Delete q tq fb = Some (tq', fb')"
  proof -
    have "TQ_HEAD < q" using q(1) by (simp add: TQ_HEAD_def)
    then show ?thesis
      using tq_magic [OF core] q(2,3) tq_Delete_search [OF core] del(1,2) low D(7) cnt
      by (simp add: tq_Delete_def tq_FreeElement_def tq'_def es_def [symmetric])
  qed
  have "sl_ok ?A (fblks fb') (tq_base es) (maxsize fb) TQ_HEAD TQ_NIL (xs @ ys) h m"
  proof (rule sl_ok_frame [OF del(6)])
    fix x assume "x \<in> set (TQ_HEAD # TQ_NIL # xs @ ys)"
    then have "x \<noteq> q" using q(5) hd by auto
    then show "tq_base es x = tq_base (tqep tq) x" by (simp add: same)
  qed auto
  moreover have "tq_nodes es (tq_nalloc tq + TQ_OVERHEAD_ELEMS) (xs @ ys)"
  proof (rule tq_nodes_cong)
    show "tq_nodes (tqep tq) (tq_nalloc tq + TQ_OVERHEAD_ELEMS) (xs @ ys)"
      using D(4) unfolding tq_nodes_def by (auto simp: sorted_wrt_append)
    show "te_tv (es ! i) = te_tv (tqep tq ! i)" if "i \<in> set (TQ_NIL # xs @ ys)" for i
      using that q(5) hd by (intro arg_cong [of _ _ te_tv] same) auto
  qed (simp add: es_def)
  moreover have "tq_free es (tq_nalloc tq + TQ_OVERHEAD_ELEMS) (int q) (q # fl)"
    unfolding es_def using q N(3) by (intro tq_free_push [OF D(5)]) simp_all
  ultimately have "tq_core tq' fb' ?A (xs @ ys) h (q # fl)"
    unfolding tq_core_def using D(2,6,8) del(3,4) q S(2) D(7) cnt(2) by (auto simp: tq'_def tq_consts)
  moreover have "frame ?A (tq_towers tq (xs @ ys)) (fblks fb) (fblks fb')"
    by (rule frame_mono [OF del(7)]) (auto simp: tq_towers_def)
  ultimately show ?thesis using run del(4) same by (auto simp: tq'_def)
qed

lemma tq_Delete_spec:
  assumes "tq_inv tq fb A (xs @ q # ys) h"
  shows "\<exists>tq' fb'. tq_Delete q tq fb = Some (tq', fb') \<and>
    tq_inv tq' fb' (A(tq_base (tqep tq) q := None)) (xs @ ys) h \<and> maxsize fb' = maxsize fb \<and>
    tq_nalloc tq' = tq_nalloc tq \<and> tq_nfree tq' = Suc (tq_nfree tq) \<and>
    tq_entries tq' (xs @ ys) = tq_entries tq (xs @ ys) \<and>
    tq_towers tq' (xs @ ys) = tq_towers tq (xs @ ys) \<and>
    frame (A(tq_base (tqep tq) q := None)) (tq_towers tq (xs @ ys)) (fblks fb) (fblks fb')"
proof -
  obtain fl where core: "tq_core tq fb A (xs @ q # ys) h fl" using assms by (auto simp: tq_inv_def)
  obtain tq' fb' where r: "tq_Delete q tq fb = Some (tq', fb')"
      "tq_core tq' fb' (A(tq_base (tqep tq) q := None)) (xs @ ys) h (q # fl)" "maxsize fb' = maxsize fb"
      "tq_nalloc tq' = tq_nalloc tq" "\<forall>x. x \<noteq> q \<longrightarrow> tqep tq' ! x = tqep tq ! x"
      "frame (A(tq_base (tqep tq) q := None)) (tq_towers tq (xs @ ys)) (fblks fb) (fblks fb')"
    using tq_Delete_core [OF core] by blast
  have "q \<notin> set (TQ_HEAD # TQ_NIL # xs @ ys)"
    using sl_okD(1) [OF tq_coreD(3) [OF core]] by auto
  then have same: "tqep tq' ! x = tqep tq ! x" if "x \<in> set (TQ_HEAD # TQ_NIL # xs @ ys)" for x using r(5) that by metis
  have "tq_entries tq' (xs @ ys) = tq_entries tq (xs @ ys)" using same by (simp add: tq_entries_def)
  moreover have "tq_towers tq' (xs @ ys) = tq_towers tq (xs @ ys)"
    unfolding tq_towers_def by (intro image_cong refl arg_cong [of _ _ te_fblk] same)
  moreover have "tq_nfree tq' = Suc (tq_nfree tq)" using tq_coreD(7) [OF core] tq_coreD(7) [OF r(2)] by simp
  ultimately show ?thesis using r(1-4,6) by (auto simp: tq_inv_def)
qed


subsection \<open>Lookup\<close>

lemma tq_search_key:
  assumes core: "tq_core tq fb A (xs @ ys) h fl" and sp: "split_at (tqep tq) key xs ys" and key: "key < TS_ENDT"
  shows "sl_search (fblks fb) (tq_tower (tqep tq)) (\<lambda>x. map_option (\<lambda>e. te_tv e < key) (rd (tqep tq) x))
    (tq_level tq) TQ_HEAD None = Some (last (TQ_HEAD # xs), hd (ys @ [TQ_NIL]), None)"
proof -
  note D = tq_coreD [OF core]
  have "sl_search (fblks fb) (tq_tower (tqep tq)) (\<lambda>x. map_option (\<lambda>e. te_tv e < key) (rd (tqep tq) x))
    (tq_level tq) TQ_HEAD None = Some (last (TQ_HEAD # xs), hd (ys @ [TQ_NIL]), map_option (upd_fill TQ_HEAD h xs (tq_level tq)) None)"
  proof (rule sl_search_spec [OF fb_inv_blocks_ok [OF D(1)] D(3)])
    show "tq_tower (tqep tq) x = Some (tq_base (tqep tq) x)" if "x \<in> set (TQ_HEAD # xs)" for x
      using that by (intro tq_nodes_tower(2) [OF D(4)]) auto
    show "map_option (\<lambda>e. te_tv e < key) (rd (tqep tq) x) = Some True" if "x \<in> set xs" for x
      using that sp tq_nodes_tower(1) [OF D(4), of x] by (auto simp: split_at_def)
    show "map_option (\<lambda>e. te_tv e < key) (rd (tqep tq) x) = Some False" if "x \<in> set (ys @ [TQ_NIL])" for x
      using that sp key tq_nodes_tower(1) [OF D(4), of x] tq_nodesD(4) [OF D(4)] by (auto simp: split_at_def not_less)
  qed simp
  then show ?thesis by simp
qed

lemma tq_next_node:
  assumes core: "tq_core tq fb A (xs @ y # ys) h fl"
  shows "sl_next (fblks fb) (tq_tower (tqep tq)) y 0 = Some (hd (ys @ [TQ_NIL]))"
proof -
  note D = tq_coreD [OF core]
  have ms: "0 < maxsize fb" using fb_inv_maxsize(1) [OF D(1)] .
  obtain n where n: "A (tq_base (tqep tq) y) = Some n" "0 < n" using sl_ok_cell [OF D(3) ms, of y] by auto
  have "tq_tower (tqep tq) y = Some (tq_base (tqep tq) y)" by (rule tq_nodes_tower(2) [OF D(4)]) auto
  with n have "sl_next (fblks fb) (tq_tower (tqep tq)) y 0 = Some (fblks fb ! (tq_base (tqep tq) y + 0))"
    by (intro sl_next_eq [OF fb_inv_blocks_ok [OF D(1)]])
  moreover have "fblks fb ! (tq_base (tqep tq) y + 0) = hd (ys @ [TQ_NIL])"
    using sl_pred_next [of A "fblks fb" "tq_base (tqep tq)" "maxsize fb" TQ_HEAD TQ_NIL "xs @ [y]" ys h "tq_level tq" 0] D(3) ms
    by (simp add: sl_pred_def)
  ultimately show ?thesis by simp
qed

lemma tq_Next_spec:
  assumes "tq_inv tq fb A (xs @ y # ys) h"
  shows "tq_Next y tq fb = Some (hd (ys @ [TQ_NIL]))"
  using assms tq_next_node tq_magic by (fastforce simp: tq_inv_def tq_Next_def)

lemma tq_First_spec:
  assumes "tq_inv tq fb A L h"
  shows "tq_First tq fb = Some (if L = [] then None else Some (hd L))"
proof -
  obtain fl where core: "tq_core tq fb A L h fl" using assms by (auto simp: tq_inv_def)
  note D = tq_coreD [OF core]
  have ms: "0 < maxsize fb" using fb_inv_maxsize(1) [OF D(1)] .
  have "sl_next (fblks fb) (tq_tower (tqep tq)) (sl_pred TQ_HEAD h [] 0) 0 =
      Some (fblks fb ! (tq_base (tqep tq) (sl_pred TQ_HEAD h [] 0) + 0))"
    using D(3) ms tq_nodes_tower(2) [OF D(4), of TQ_HEAD]
    by (intro sl_pred_read(3) [of A _ _ "maxsize fb" TQ_HEAD TQ_NIL "[]" L, OF fb_inv_blocks_ok [OF D(1)]]) (auto simp: sl_pred_def)
  moreover have "fblks fb ! (tq_base (tqep tq) (sl_pred TQ_HEAD h [] 0) + 0) = hd (level_list 0 h L @ [TQ_NIL])"
    using D(3) ms by (intro sl_pred_next [of A _ _ "maxsize fb" _ _ "[]"]) auto
  ultimately have nx: "sl_next (fblks fb) (tq_tower (tqep tq)) TQ_HEAD 0 = Some (hd (L @ [TQ_NIL]))"
    by (simp add: sl_pred_def)
  have "hd L \<noteq> TQ_NIL" if "L \<noteq> []" using tq_nodesD(5) [OF D(4), of "hd L"] that by (auto simp: TQ_NIL_def)
  then show ?thesis using nx tq_magic [OF core] by (auto simp: tq_First_def)
qed

lemma tq_Find_spec:
  assumes inv: "tq_inv tq fb A L h" and key: "key < TS_ENDT"
  defines "below \<equiv> filter (\<lambda>i. tq_tv (tqep tq) i < key) L"
  shows "tq_Find key mt tq fb = Some (case mt of
      LessThan \<Rightarrow> if below = [] then None else Some (last below)
    | Equal \<Rightarrow> find (\<lambda>i. tq_tv (tqep tq) i = key) L
    | GreaterThan \<Rightarrow> find (\<lambda>i. key < tq_tv (tqep tq) i) L)"
proof -
  obtain fl where core: "tq_core tq fb A L h fl" using inv by (auto simp: tq_inv_def)
  note D = tq_coreD [OF core] and N = tq_nodesD [OF tq_coreD(4) [OF core]] and S = tq_sizes [OF core]
  obtain xs ys where L: "L = xs @ ys" and sp: "split_at (tqep tq) key xs ys" using split_at_exists [OF D(4)] by blast
  have xs: "below = xs" unfolding below_def L using sp
    by (auto simp: split_at_def filter_empty_conv not_less filter_id_conv)
  have fe: "find (\<lambda>i. tq_tv (tqep tq) i = key) L = find (\<lambda>i. tq_tv (tqep tq) i = key) ys"
    "find (\<lambda>i. key < tq_tv (tqep tq) i) L = find (\<lambda>i. key < tq_tv (tqep tq) i) ys"
    unfolding L using sp by (auto simp: split_at_def intro!: find_skip)
  have sub: "sz_sub (tq_nelems tq) TQ_OVERHEAD_ELEMS = tq_nelems tq - 2" using S by (simp add: TQ_OVERHEAD_ELEMS_def)
  show ?thesis
  proof (cases "tq_nelems tq - 2 = 0")
    case True
    then have "length L = 0" using S(3) by linarith
    then have "L = []" by simp
    then show ?thesis using True sub by (simp add: tq_Find_def below_def split: Match.split)
  next
    case False
    let ?q = "hd (ys @ [TQ_NIL])"
    have "?q \<in> set (ys @ [TQ_NIL])" by (rule hd_in_set) simp
    then have ql: "?q < length (tqep tq)" by (intro tq_nodes_tower(1) [OF D(4)]) (auto simp: L)
    have run: "tq_Find key mt tq fb = (case mt of
          LessThan \<Rightarrow> Some (if last (TQ_HEAD # xs) = TQ_HEAD then None else Some (last (TQ_HEAD # xs)))
        | Equal \<Rightarrow> Some (if tq_tv (tqep tq) ?q = key then Some ?q else None)
        | GreaterThan \<Rightarrow>
            if ?q = TQ_NIL then Some None
            else if tq_tv (tqep tq) ?q = key then do {
              q' \<leftarrow> sl_next (fblks fb) (tq_tower (tqep tq)) ?q 0;
              _ \<leftarrow> rd (tqep tq) q';
              Some (if q' = TQ_NIL then None else Some q') }
            else Some (Some ?q))"
      using False sub tq_magic [OF core] tq_search_key [OF core [unfolded L] sp key] ql
      by (cases mt) (simp_all add: tq_Find_def)
    have lst: "last (TQ_HEAD # xs) = TQ_HEAD \<longleftrightarrow> xs = []"
    proof (cases "xs = []")
      case False
      then have "last xs \<in> set L" by (simp add: L)
      then show ?thesis using N(5) False by (fastforce simp: TQ_HEAD_def)
    qed simp
    show ?thesis
    proof (cases ys)
      case Nil
      then show ?thesis using run fe xs N(4) key lst by (auto simp: L split: Match.split)
    next
      case (Cons y zs)
      have y: "2 \<le> y" "y \<in> set L" using N(5) [of y] by (auto simp: L Cons)
      have gt: "tq_tv (tqep tq) y < tq_tv (tqep tq) z" if "z \<in> set zs" for z
        using N(10) that by (simp add: L Cons sorted_wrt_append)
      have ge: "key \<le> tq_tv (tqep tq) y" using sp Cons by (simp add: split_at_def)
      have nx: "sl_next (fblks fb) (tq_tower (tqep tq)) y 0 = Some (hd (zs @ [TQ_NIL]))"
        using core by (intro tq_next_node) (simp add: L Cons)
      have none: "find (\<lambda>i. tq_tv (tqep tq) i = key) zs = None" using gt ge by (intro find_none) force
      have hdz: "hd (zs @ [TQ_NIL]) < length (tqep tq)"
        using tq_nodes_tower(1) [OF D(4), of "hd (zs @ [TQ_NIL])"] by (cases zs) (auto simp: L Cons)
      have fz: "find (\<lambda>i. key < tq_tv (tqep tq) i) zs = (if zs = [] then None else Some (hd zs))"
        using gt ge by (cases zs) (auto intro: le_less_trans)
      have hz: "hd zs \<noteq> TQ_NIL" if "zs \<noteq> []" using N(5) [of "hd zs"] that by (auto simp: L Cons TQ_NIL_def)
      have yn: "y \<noteq> TQ_NIL" using y(1) by (simp add: TQ_NIL_def)
      show ?thesis
      proof (cases mt)
        case LessThan
        then show ?thesis using run xs lst by simp
      next
        case Equal
        then show ?thesis using run fe(1) none by (simp add: Cons)
      next
        case GreaterThan
        show ?thesis
        proof (cases "tq_tv (tqep tq) y = key")
          case True
          have "hd (zs @ [TQ_NIL]) = TQ_NIL \<longleftrightarrow> zs = []" using hz by (cases zs) auto
          moreover have "hd (zs @ [TQ_NIL]) = hd zs" if "zs \<noteq> []" using that by simp
          ultimately show ?thesis using run fe(2) fz nx hdz yn True GreaterThan by (simp add: Cons)
        next
          case False
          then have "key < tq_tv (tqep tq) y" using ge by simp
          then show ?thesis using run fe(2) yn False GreaterThan by (simp add: Cons)
        qed
      qed
    qed
  qed
qed


subsection \<open>Initialisation\<close>

lemma tq_free_loop_spec:
  assumes "i + todo \<le> length es"
  shows "\<exists>es'. tq_free_loop todo i es = Some es' \<and> length es' = length es \<and>
    (\<forall>j. i \<le> j \<longrightarrow> j < i + todo \<longrightarrow> es' ! j = \<lparr>te_tv = TS_NONE, te_offset = int j + 1, te_fblk = FBLK_NONE\<rparr>) \<and>
    (\<forall>j. j < i \<or> i + todo \<le> j \<longrightarrow> es' ! j = es ! j)"
  using assms
proof (induction todo arbitrary: i es)
  case 0
  then show ?case by auto
next
  case (Suc todo)
  let ?e = "\<lparr>te_tv = TS_NONE, te_offset = int i + 1, te_fblk = FBLK_NONE\<rparr>"
  have "Suc i + todo \<le> length (es[i := ?e])" using Suc.prems by simp
  from Suc.IH [OF this] obtain es' where es': "tq_free_loop todo (Suc i) (es[i := ?e]) = Some es'"
      "length es' = length es"
      "\<forall>j. Suc i \<le> j \<longrightarrow> j < Suc i + todo \<longrightarrow> es' ! j = \<lparr>te_tv = TS_NONE, te_offset = int j + 1, te_fblk = FBLK_NONE\<rparr>"
      "\<forall>j. j < Suc i \<or> Suc i + todo \<le> j \<longrightarrow> es' ! j = es[i := ?e] ! j" by auto
  have "es' ! j = \<lparr>te_tv = TS_NONE, te_offset = int j + 1, te_fblk = FBLK_NONE\<rparr>" if "i \<le> j" "j < i + Suc todo" for j
    using es'(3,4) that Suc.prems by (cases "j = i") auto
  moreover have "es' ! j = es ! j" if "j < i \<or> i + Suc todo \<le> j" for j using es'(4) that by auto
  ultimately show ?case using es'(1,2) Suc.prems by auto
qed

lemma tq_Initialize_spec:
  assumes inv: "fb_inv fb A" and n: "0 < n" "n + 2 \<le> length (tqep tq)" "n + 2 < SIZE_NONE"
    and get0: "FreeBlock_Get 0 fb = Some (b0, fb1)" "b0 \<noteq> FBLK_NONE"
    and get1: "FreeBlock_Get (maxsize fb - 1) fb1 = Some (b1, fb2)" "b1 \<noteq> FBLK_NONE"
  shows "\<exists>tq' fb' n0 n1. tq_Initialize n tq fb = Some (tq', fb') \<and> A b0 = None \<and> A b1 = None \<and>
    tq_inv tq' fb' (A(b0 \<mapsto> n0, b1 \<mapsto> n1)) [] (\<lambda>_. 0) \<and> tq_nalloc tq' = n \<and> tq_nfree tq' = n \<and>
    maxsize fb' = maxsize fb \<and> tq_towers tq' [] = {b0, b1} \<and> frame A {} (fblks fb) (fblks fb')"
proof -
  have ms: "0 < maxsize fb" using fb_inv_maxsize(1) [OF inv] .
  obtain n0 where f1: "fb_inv fb1 (A(b0 \<mapsto> n0))" "A b0 = None" "maxsize fb1 = maxsize fb"
      and same1: "\<forall>t m i. A t = Some m \<longrightarrow> t \<le> i \<longrightarrow> i < t + m \<longrightarrow> fblks fb1 ! i = fblks fb ! i"
    using fba.get_law [OF inv ms, unfolded get0(1) option.inject prod.inject] get0(2) unfolding FBLK_NONE_def by blast
  have "maxsize fb - 1 < maxsize fb1" using ms f1(3) by simp
  from fba.get_law [OF f1(1) this, unfolded get1(1) option.inject prod.inject] get1(2)
  obtain n1 where f2: "fb_inv fb2 (A(b0 \<mapsto> n0, b1 \<mapsto> n1))" "(A(b0 \<mapsto> n0)) b1 = None" "maxsize fb2 = maxsize fb" "maxsize fb - 1 < n1"
      and same2: "\<forall>t m i. (A(b0 \<mapsto> n0)) t = Some m \<longrightarrow> t \<le> i \<longrightarrow> i < t + m \<longrightarrow> fblks fb2 ! i = fblks fb1 ! i"
    unfolding FBLK_NONE_def f1(3) by blast
  let ?A = "A(b0 \<mapsto> n0, b1 \<mapsto> n1)"
  have b: "b0 \<noteq> b1" "A b1 = None" "?A b1 = Some n1" "?A b0 = Some n0" using f2(2) by (auto split: if_splits)
  note blk = fb_inv_blocks_ok [OF f2(1)]
  have cells: "sz_add b1 (0 + j) = b1 + (0 + j) \<and> b1 + (0 + j) < length (fblks fb2)" if "j < maxsize fb2" for j
    using cell_bound [OF blk b(3), of j] that f2(3,4) by simp
  obtain ar where ar: "sl_fill (maxsize fb2) 0 b1 TQ_NIL (fblks fb2) = Some ar" "length ar = length (fblks fb2)"
      "\<And>j. j < maxsize fb \<Longrightarrow> ar ! (b1 + j) = TQ_NIL"
      "\<And>a. a < b1 \<or> b1 + maxsize fb \<le> a \<Longrightarrow> ar ! a = fblks fb2 ! a"
    using sl_fill_spec [OF cells, of "maxsize fb2" TQ_NIL] f2(3) by auto
  define es2 where "es2 = (tqep tq)[0 := \<lparr>te_tv = TS_ENDT, te_offset = -1, te_fblk = b0\<rparr>,
      Suc 0 := \<lparr>te_tv = TS_NONE, te_offset = -1, te_fblk = b1\<rparr>]"
  obtain es3 where es3: "tq_free_loop n TQ_OVERHEAD_ELEMS es2 = Some es3" "length es3 = length (tqep tq)"
      "\<And>j. 2 \<le> j \<Longrightarrow> j < n + 2 \<Longrightarrow> es3 ! j = \<lparr>te_tv = TS_NONE, te_offset = int j + 1, te_fblk = FBLK_NONE\<rparr>"
      "\<And>j. j < 2 \<Longrightarrow> es3 ! j = es2 ! j"
    using tq_free_loop_spec [of 2 n es2] n(2) by (auto simp: es2_def TQ_OVERHEAD_ELEMS_def)
  define es4 where "es4 = es3[n + 1 := (es3 ! (n + 1))\<lparr>te_offset := TQ_NONE\<rparr>]"
  define tq' where "tq' = \<lparr>tq_nalloc = n, tq_nelems = 2, tq_nfree = n, tq_free_head = 2, tq_level = 0, tqep = es4\<rparr>"
  have sz: "sz_add n 2 = n + 2" "sz_sub (n + 2) 2 = n" using n(3) by (simp_all add: SIZE_NONE_def)
  have run: "tq_Initialize n tq fb = Some (tq', fb2\<lparr>fblks := ar\<rparr>)"
  proof -
    have "0 < length (tqep tq)" "Suc 0 < length (tqep tq)" "Suc n < length (tqep tq)" using n by auto
    then show ?thesis
      using fb_inv_magic [OF inv] get0(1) get1(1) ar(1) es3(1,2) f1(3) sz
      by (simp add: tq_Initialize_def es2_def [symmetric] tq'_def es4_def tq_consts)
  qed
  have e0: "es4 ! TQ_NIL = \<lparr>te_tv = TS_ENDT, te_offset = -1, te_fblk = b0\<rparr>"
    "es4 ! TQ_HEAD = \<lparr>te_tv = TS_NONE, te_offset = -1, te_fblk = b1\<rparr>"
  proof -
    have "0 < length (tqep tq)" "Suc 0 < length (tqep tq)" using n by auto
    then show "es4 ! TQ_NIL = \<lparr>te_tv = TS_ENDT, te_offset = -1, te_fblk = b0\<rparr>"
      "es4 ! TQ_HEAD = \<lparr>te_tv = TS_NONE, te_offset = -1, te_fblk = b1\<rparr>"
      using n es3(4) [of 0] es3(4) [of 1] by (auto simp: es4_def es2_def tq_consts)
  qed
  have off: "te_offset (es4 ! j) = (if j = n + 1 then TQ_NONE else int j + 1)" if "2 \<le> j" "j < n + 2" for j
    using that es3(2,3) n(2) by (auto simp: es4_def)
  have slot: "tq_slot (te_offset (es4 ! j)) = (if j = n + 1 then SIZE_NONE else j + 1)" if "2 \<le> j" "j < n + 2" for j
    using off [OF that] by (simp add: tq_slot_def TQ_NONE_def nat_add_distrib)
  have free: "chain (\<lambda>i. tq_slot (te_offset (es4 ! i))) j [j..<n + 2]" if "2 \<le> j" "j < n + 2" for j
    using that
  proof (induction "n + 2 - j" arbitrary: j)
    case (Suc k)
    have up: "[j..<n + 2] = j # [Suc j..<n + 2]" using Suc.prems by (simp add: upt_conv_Cons)
    have "j \<noteq> SIZE_NONE" using Suc.prems n(3) by simp
    moreover have "[Suc j..<n + 2] = []" if "j = n + 1" using that by simp
    ultimately show ?case using Suc.hyps(1) [of "Suc j"] Suc.hyps(2) Suc.prems slot [of j]
      unfolding up by (cases "j = n + 1") auto
  qed simp
  have fl: "tq_free es4 (n + 2) 2 [2..<n + 2]"
    using free [of 2] n(1,3) off by (auto simp: tq_free_def tq_slot_def TQ_NONE_def)
  have "fb_inv (fb2\<lparr>fblks := ar\<rparr>) ?A"
  proof (rule fb_inv_cells [OF f2(1) ar(2)])
    fix a assume "outside ?A a"
    then have "a < b1 \<or> b1 + n1 \<le> a" using b(3) by (auto simp: outside_def simp del: fun_upd_apply)
    then show "ar ! a = fblks fb2 ! a" using f2(4) by (intro ar(4)) auto
  qed
  moreover have "sl_ok ?A ar (tq_base es4) (maxsize fb) TQ_HEAD TQ_NIL [] (\<lambda>_. 0) 0"
    by (rule sl_ok_empty [of _ _ _ _ _ n1 n0]) (use b e0 ms f2(4) ar(3) in \<open>auto simp: tq_consts simp del: fun_upd_apply\<close>)
  moreover have "tq_nodes es4 (n + 2) []" using n e0 es3(2) by (auto simp: tq_nodes_def es4_def)
  ultimately have "tq_core tq' (fb2\<lparr>fblks := ar\<rparr>) ?A [] (\<lambda>_. 0) [2..<n + 2]"
    unfolding tq_core_def using n fl f2(3) by (simp add: tq'_def TQ_OVERHEAD_ELEMS_def del: upt_Suc)
  moreover have "frame A {} (fblks fb) ar"
    unfolding frame_def
  proof (intro allI impI)
    fix c m i assume c: "A c = Some m" "i < m"
    have A: "?A c = Some m" "(A(b0 \<mapsto> n0)) c = Some m" using c f1(2) b(2) by auto
    have "c \<noteq> b1" using c b(2) by auto
    then have "apart c m b1 n1" by (rule blocks_okD(4) [OF blk A(1) b(3)])
    then have "ar ! (c + i) = fblks fb2 ! (c + i)" using c f2(4) by (intro ar(4)) (auto simp: apart_def)
    also have "\<dots> = fblks fb1 ! (c + i)" using same2 A(2) c(2) by (simp del: fun_upd_apply)
    also have "\<dots> = fblks fb ! (c + i)" using same1 c by simp
    finally show "ar ! (c + i) = fblks fb ! (c + i)" .
  qed
  moreover have "tq_towers tq' [] = {b0, b1}" using e0 by (auto simp: tq_towers_def tq'_def)
  ultimately show ?thesis using run f1(2) b(2) f2(3) unfolding tq_inv_def
    by (rule_tac x = tq' in exI, rule_tac x = "fb2\<lparr>fblks := ar\<rparr>" in exI, rule_tac x = n0 in exI, rule_tac x = n1 in exI)
       (auto simp: tq'_def)
qed

subsection \<open>The interface of a time index\<close>

text \<open>
  What the product queue and its cursors rely on: nodes in strictly increasing time order, found by
  their time and removed one at a time.
\<close>

locale time_index =
  fixes inv :: "'s \<Rightarrow> nat list \<Rightarrow> bool"
    and time_of :: "'s \<Rightarrow> nat \<Rightarrow> Timestamp"
    and first :: "'s \<Rightarrow> nat option option"
    and lookup :: "Timestamp \<Rightarrow> Match \<Rightarrow> 's \<Rightarrow> nat option option"
    and delete :: "nat \<Rightarrow> 's \<Rightarrow> 's option"
  assumes sorted_law: "inv s L \<Longrightarrow> sorted_wrt (\<lambda>i j. time_of s i < time_of s j) L"
    and end_law: "inv s L \<Longrightarrow> i \<in> set L \<Longrightarrow> time_of s i < TS_ENDT"
    and first_law: "inv s L \<Longrightarrow> first s = Some (if L = [] then None else Some (hd L))"
    and lookup_law: "inv s L \<Longrightarrow> key < TS_ENDT \<Longrightarrow> lookup key GreaterThan s = Some (find (\<lambda>i. key < time_of s i) L)"
    and delete_law: "inv s (xs @ q # ys) \<Longrightarrow> \<exists>s'. delete q s = Some s' \<and> inv s' (xs @ ys) \<and>
      (\<forall>i \<in> set (xs @ ys). time_of s' i = time_of s i)"
begin

text \<open>Looking for the time after a node's own finds its successor: this is how a cursor moves on.\<close>

lemma lookup_after:
  assumes "inv s (xs @ y # ys)"
  shows "lookup (time_of s y) GreaterThan s = Some (if ys = [] then None else Some (hd ys))"
proof -
  have so: "sorted_wrt (\<lambda>i j. time_of s i < time_of s j) (xs @ y # ys)" using sorted_law [OF assms] .
  then have "find (\<lambda>i. time_of s y < time_of s i) xs = None"
    by (auto simp: find_None_iff sorted_wrt_append dest: less_asym)
  moreover have "time_of s y < time_of s (hd ys)" if "ys \<noteq> []"
    using so that by (simp add: sorted_wrt_append)
  ultimately have "find (\<lambda>i. time_of s y < time_of s i) (xs @ y # ys) = (if ys = [] then None else Some (hd ys))"
    by (induction xs) (cases ys, auto split: if_splits)
  then show ?thesis using lookup_law [OF assms end_law [OF assms]] by simp
qed

text \<open>Removing the first node makes room by giving up the oldest entry.\<close>

lemma delete_oldest:
  assumes "inv s (y # ys)"
  shows "\<exists>s'. first s = Some (Some y) \<and> delete y s = Some s' \<and> inv s' ys \<and>
    first s' = Some (if ys = [] then None else Some (hd ys)) \<and> (\<forall>i \<in> set ys. time_of s y < time_of s' i)"
  using first_law [OF assms] delete_law [of s "[]" y ys] sorted_law [OF assms] assms first_law by fastforce

end

interpretation tqi: time_index "\<lambda>(tq, fb) L. \<exists>A h. tq_inv tq fb A L h" "\<lambda>(tq, fb). tq_tv (tqep tq)"
  "\<lambda>(tq, fb). tq_First tq fb" "\<lambda>key mt (tq, fb). tq_Find key mt tq fb" "\<lambda>q (tq, fb). tq_Delete q tq fb"
proof unfold_locales
  fix s L assume "(\<lambda>(tq, fb) L. \<exists>A h. tq_inv tq fb A L h) s L"
  then obtain tq fb A h where s: "s = (tq, fb)" "tq_inv tq fb A L h" by auto
  obtain fl where "tq_core tq fb A L h fl" using s(2) by (auto simp: tq_inv_def)
  note N = tq_nodesD [OF tq_coreD(4) [OF this]]
  show "sorted_wrt (\<lambda>i j. (\<lambda>(tq, fb). tq_tv (tqep tq)) s i < (\<lambda>(tq, fb). tq_tv (tqep tq)) s j) L"
    using N(10) by (simp add: s(1))
  show "(\<lambda>(tq, fb). tq_tv (tqep tq)) s i < TS_ENDT" if "i \<in> set L" for i using N(9) that by (simp add: s(1))
  show "(\<lambda>(tq, fb). tq_First tq fb) s = Some (if L = [] then None else Some (hd L))"
    using tq_First_spec [OF s(2)] by (simp add: s(1))
  show "(\<lambda>(tq, fb). tq_Find key GreaterThan tq fb) s = Some (find (\<lambda>i. key < (\<lambda>(tq, fb). tq_tv (tqep tq)) s i) L)"
    if "key < TS_ENDT" for key
    using tq_Find_spec [OF s(2) that, of GreaterThan] by (simp add: s(1))
next
  fix s xs q ys assume "(\<lambda>(tq, fb) L. \<exists>A h. tq_inv tq fb A L h) s (xs @ q # ys)"
  then obtain tq fb A h where s: "s = (tq, fb)" "tq_inv tq fb A (xs @ q # ys) h" by auto
  obtain tq' fb' where d: "tq_Delete q tq fb = Some (tq', fb')"
      "tq_inv tq' fb' (A(tq_base (tqep tq) q := None)) (xs @ ys) h" "tq_entries tq' (xs @ ys) = tq_entries tq (xs @ ys)"
    using tq_Delete_spec [OF s(2)] by blast
  then show "\<exists>s'. (\<lambda>(tq, fb). tq_Delete q tq fb) s = Some s' \<and>
      (\<lambda>(tq, fb) L. \<exists>A h. tq_inv tq fb A L h) s' (xs @ ys) \<and>
      (\<forall>i \<in> set (xs @ ys). (\<lambda>(tq, fb). tq_tv (tqep tq)) s' i = (\<lambda>(tq, fb). tq_tv (tqep tq)) s i)"
    by (intro exI [of _ "(tq', fb')"]) (auto simp: s(1) tq_entries_def)
qed

subsection \<open>Properties\<close>

definition raw_queue :: TimeQueue where
  "raw_queue = \<lparr>tq_nalloc = 0, tq_nelems = 0, tq_nfree = 0, tq_free_head = 0, tq_level = 0,
     tqep = replicate 6 \<lparr>te_tv = TS_ZERO, te_offset = 0, te_fblk = 0\<rparr>\<rparr>"

definition demo_queue :: TimeQueue where
  "demo_queue = fst (the (tq_Initialize 4 raw_queue demo_arena))"

definition demo_queue_arena :: FreeBlock where
  "demo_queue_arena = snd (the (tq_Initialize 4 raw_queue demo_arena))"

lemma demo_queue_gets:
  "\<exists>b0 fb1 b1 fb2. FreeBlock_Get 0 demo_arena = Some (b0, fb1) \<and> b0 \<noteq> FBLK_NONE \<and>
     FreeBlock_Get (maxsize demo_arena - 1) fb1 = Some (b1, fb2) \<and> b1 \<noteq> FBLK_NONE"
proof -
  have "(case FreeBlock_Get 0 demo_arena of None \<Rightarrow> False | Some (b0, fb1) \<Rightarrow> b0 \<noteq> FBLK_NONE \<and>
      (case FreeBlock_Get (maxsize demo_arena - 1) fb1 of None \<Rightarrow> False | Some (b1, fb2) \<Rightarrow> b1 \<noteq> FBLK_NONE))"
    by code_simp
  then show ?thesis by (auto split: option.splits)
qed

lemma demo_queue_spec:
  "\<exists>A. tq_inv demo_queue demo_queue_arena A [] (\<lambda>_. 0)" "tq_nfree demo_queue = 4"
  "tq_Initialize 4 raw_queue demo_arena = Some (demo_queue, demo_queue_arena)"
proof -
  obtain b0 fb1 b1 fb2 where g: "FreeBlock_Get 0 demo_arena = Some (b0, fb1)" "b0 \<noteq> FBLK_NONE"
      "FreeBlock_Get (maxsize demo_arena - 1) fb1 = Some (b1, fb2)" "b1 \<noteq> FBLK_NONE"
    using demo_queue_gets by blast
  have "0 < (4::nat)" "4 + 2 \<le> length (tqep raw_queue)" "4 + 2 < SIZE_NONE"
    by (simp_all add: raw_queue_def SIZE_NONE_def)
  from tq_Initialize_spec [OF demo_arena_spec(2) this g]
  show "\<exists>A. tq_inv demo_queue demo_queue_arena A [] (\<lambda>_. 0)" "tq_nfree demo_queue = 4"
      "tq_Initialize 4 raw_queue demo_arena = Some (demo_queue, demo_queue_arena)"
    unfolding demo_queue_def demo_queue_arena_def by force+
qed

text \<open>
  C4. \<open>TimeQueue::Add\<close> on a well-formed queue with an unused element always returns. The product is
  entered under the first microsecond from the current time on that no other product has, at its
  place in the time order, and only towers of the queue and the new tower's block are written. When
  the arena has no tower left it returns \<open>ENOSPC\<close> with the entries unchanged, but with one unused
  element less.
\<close>

theorem tq_Add_sorted_insert:
  assumes "tq_inv tq fb A L h" "0 < tq_nfree tq" "normal_ts now" "usecs now + int (length L) < usecs TS_ENDT"
  shows "\<exists>t tq' r'. first_free (tq_tv (tqep tq) ` set L) now t \<and> Suc (tq_nfree tq') = tq_nfree tq \<and>
    tq_nalloc tq' = tq_nalloc tq \<and>
    (tq_Add off now tq fb r = Some (ENOSPC, tq', fb, r') \<and> tq_inv tq' fb A L h \<and> tq_entries tq' L = tq_entries tq L \<or>
     (\<exists>fb' b n i k xs ys. tq_Add off now tq fb r = Some (0, tq', fb', r') \<and> L = xs @ ys \<and> A b = None \<and>
        tq_inv tq' fb' (A(b \<mapsto> n)) (xs @ i # ys) (h(i := k)) \<and> maxsize fb' = maxsize fb \<and>
        tq_entries tq' (xs @ i # ys) = tq_entries tq xs @ (t, off) # tq_entries tq ys \<and>
        tq_towers tq' (xs @ i # ys) = insert b (tq_towers tq L) \<and> frame A (tq_towers tq L) (fblks fb) (fblks fb')))"
  using assms by (rule tq_Add_spec)

theorem tq_Add_sorted_insert_witness:
  "\<exists>t tq' r'. first_free {} (Timestamp 100 0) t \<and> Suc (tq_nfree tq') = 4 \<and>
     (tq_Add 4096 (Timestamp 100 0) demo_queue demo_queue_arena rng_init = Some (ENOSPC, tq', demo_queue_arena, r') \<or>
      (\<exists>fb' i. tq_Add 4096 (Timestamp 100 0) demo_queue demo_queue_arena rng_init = Some (0, tq', fb', r') \<and>
        tq_entries tq' [i] = [(t, 4096)]))"
proof -
  obtain A where "tq_inv demo_queue demo_queue_arena A [] (\<lambda>_. 0)" using demo_queue_spec(1) by blast
  from tq_Add_sorted_insert [OF this, of "Timestamp 100 0" 4096 rng_init] show ?thesis
    by (fastforce simp: demo_queue_spec(2) normal_ts_def usecs_def TS_ENDT_def tq_entries_def)
qed

text \<open>
  C5. \<open>TimeQueue::Delete\<close> of an element of a well-formed queue always returns, removes exactly that
  element, gives its tower and its slot back, and keeps the time and offset of every other element.
\<close>

theorem tq_Delete_removes:
  assumes "tq_inv tq fb A (xs @ q # ys) h"
  shows "\<exists>tq' fb'. tq_Delete q tq fb = Some (tq', fb') \<and>
    tq_inv tq' fb' (A(tq_base (tqep tq) q := None)) (xs @ ys) h \<and> maxsize fb' = maxsize fb \<and>
    tq_nalloc tq' = tq_nalloc tq \<and> tq_nfree tq' = Suc (tq_nfree tq) \<and>
    tq_entries tq' (xs @ ys) = tq_entries tq (xs @ ys) \<and>
    tq_towers tq' (xs @ ys) = tq_towers tq (xs @ ys) \<and>
    frame (A(tq_base (tqep tq) q := None)) (tq_towers tq (xs @ ys)) (fblks fb) (fblks fb')"
  using assms by (rule tq_Delete_spec)

lemma demo_queue_one:
  "\<exists>tq fb A h i. tq_Add 4096 (Timestamp 100 0) demo_queue demo_queue_arena rng_init =
     Some (0, tq, fb, snd (GetRandomLevel demo_queue_arena rng_init)) \<and>
     tq_inv tq fb A [i] h \<and> tq_entries tq [i] = [(Timestamp 100 0, 4096)]"
proof -
  obtain A where inv: "tq_inv demo_queue demo_queue_arena A [] (\<lambda>_. 0)" using demo_queue_spec(1) by blast
  have r: "map_option (\<lambda>(st, tq, fb, r). (st, r)) (tq_Add 4096 (Timestamp 100 0) demo_queue demo_queue_arena rng_init) =
      Some (0, snd (GetRandomLevel demo_queue_arena rng_init))"
    by code_simp
  have now: "normal_ts (Timestamp 100 0)" "usecs (Timestamp 100 0) + int (length []) < usecs TS_ENDT"
    by (simp_all add: normal_ts_def usecs_def TS_ENDT_def)
  have ff: "t = now" if "first_free {} now t" "normal_ts now" for t now
    using that unfolding first_free_def by (metis empty_iff order_le_less)
  have ne: "ENOSPC \<noteq> 0" by (simp add: ENOSPC_def)
  from tq_Add_spec [OF inv _ now, of 4096 rng_init] demo_queue_spec(2) obtain t tq' r' fb' b n i k where
      a: "first_free {} (Timestamp 100 0) t" "tq_Add 4096 (Timestamp 100 0) demo_queue demo_queue_arena rng_init = Some (0, tq', fb', r')"
      "tq_inv tq' fb' (A(b \<mapsto> n)) [i] ((\<lambda>_. 0)(i := k))" "tq_entries tq' [i] = [(t, 4096)]"
    using r ne by (fastforce simp: tq_entries_def)
  then show ?thesis using r ff [OF a(1) now(1)] by auto
qed

theorem tq_Delete_removes_witness:
  "\<exists>tq fb A h i tq' fb'. tq_entries tq [i] = [(Timestamp 100 0, 4096)] \<and> tq_Delete i tq fb = Some (tq', fb') \<and>
     tq_inv tq' fb' (A(tq_base (tqep tq) i := None)) [] h \<and> tq_nfree tq' = Suc (tq_nfree tq)"
proof -
  obtain tq fb A h i where "tq_inv tq fb A ([] @ i # []) h" "tq_entries tq [i] = [(Timestamp 100 0, 4096)]"
    using demo_queue_one by auto
  then show ?thesis using tq_Delete_removes [of tq fb A "[]" i "[]" h] unfolding append_Nil by blast
qed

text \<open>
  C11. \<open>TimeQueue::Find\<close> on a well-formed queue always returns and meets its three match modes: the last
  element before the key, the element with the key, or the first element after it; the null pointer
  when there is none.
\<close>

theorem tq_Find_match:
  assumes "tq_inv tq fb A L h" "key < TS_ENDT"
  shows "tq_Find key mt tq fb = Some (case mt of
      LessThan \<Rightarrow> (let below = filter (\<lambda>i. tq_tv (tqep tq) i < key) L in if below = [] then None else Some (last below))
    | Equal \<Rightarrow> find (\<lambda>i. tq_tv (tqep tq) i = key) L
    | GreaterThan \<Rightarrow> find (\<lambda>i. key < tq_tv (tqep tq) i) L)"
  unfolding Let_def using assms by (rule tq_Find_spec)

theorem tq_Find_match_witness:
  "\<exists>tq fb i. tq_entries tq [i] = [(Timestamp 100 0, 4096)] \<and>
     tq_Find (Timestamp 99 5) GreaterThan tq fb = Some (Some i) \<and>
     tq_Find (Timestamp 100 0) Equal tq fb = Some (Some i) \<and> tq_Find (Timestamp 100 0) LessThan tq fb = Some None"
proof -
  obtain tq fb A h i where q: "tq_inv tq fb A [i] h" "tq_entries tq [i] = [(Timestamp 100 0, 4096)]"
    using demo_queue_one by blast
  have k: "Timestamp 99 5 < TS_ENDT" "Timestamp 100 0 < TS_ENDT" "Timestamp 99 5 < Timestamp 100 0"
    by (simp_all add: TS_ENDT_def less_Timestamp_def)
  show ?thesis
    using q(2) tq_Find_match [OF q(1) k(1), of GreaterThan] tq_Find_match [OF q(1) k(2), of Equal]
      tq_Find_match [OF q(1) k(2), of LessThan] k(3)
    by (intro exI [of _ tq] exI [of _ fb] exI [of _ i]) (simp add: tq_entries_def)
qed

text \<open>
  C12. Making room: the element \<open>First\<close> returns is the oldest one, deleting it leaves the others in
  order, and every element that stays is later. A reader at the deleted element's time that asks
  \<open>Find\<close> for the next later one still gets the successor.
\<close>

theorem tq_delete_oldest:
  assumes "tq_inv tq fb A (y # ys) h"
  shows "tq_First tq fb = Some (Some y) \<and>
    tq_Find (tq_tv (tqep tq) y) GreaterThan tq fb = Some (if ys = [] then None else Some (hd ys)) \<and>
    (\<exists>tq' fb' A' h'. tq_Delete y tq fb = Some (tq', fb') \<and> tq_inv tq' fb' A' ys h' \<and>
      tq_First tq' fb' = Some (if ys = [] then None else Some (hd ys)) \<and>
      (\<forall>i \<in> set ys. tq_tv (tqep tq) y < tq_tv (tqep tq') i))"
  using tqi.delete_oldest [of "(tq, fb)" y ys] tqi.lookup_after [of "(tq, fb)" "[]" y ys] assms by fastforce

theorem tq_delete_oldest_witness:
  "\<exists>tq fb i tq' fb'. tq_First tq fb = Some (Some i) \<and> tq_Delete i tq fb = Some (tq', fb') \<and> tq_First tq' fb' = Some None"
proof -
  obtain tq fb A h i where "tq_inv tq fb A [i] h" using demo_queue_one by blast
  from tq_delete_oldest [OF this, unfolded if_P [OF refl]] show ?thesis by blast
qed

end
