(* ===== verification/Queue_Layout.thy ===== *)
theory Queue_Layout
  imports Region_Alloc Signature_Index Time_Queue
begin

text \<open>
  The layout of the queue file: the control header that describes it, and the places of the four tables inside the
  index section. Sizes are those of the 64-bit (LP64) layout of the structures: 8 bytes for \<open>size_t\<close>, \<open>off_t\<close> and
  pointers, 4 for \<open>int\<close>, 16 for \<open>timeval\<close> and for a signature.
\<close>

subsection \<open>Sizes\<close>

definition FB_RequiredSize :: "nat \<Rightarrow> nat option" where
  "FB_RequiredSize nelems = do {
     log_assert (nelems \<noteq> 0);
     Some (sz_add (296 - 8 * 2) (GetArenaSize nelems * 8 mod 2 ^ 64)) }"

definition TQ_RequiredSize :: "nat \<Rightarrow> nat option" where
  "TQ_RequiredSize nelems = do {
     log_assert (nelems \<noteq> 0);
     Some (sz_add 48 (sz_add nelems TQ_OVERHEAD_ELEMS * 32 mod 2 ^ 64)) }"

definition SX_RequiredSize :: "nat \<Rightarrow> nat option" where
  "SX_RequiredSize nelems = do {
     log_assert (nelems \<noteq> 0);
     chains \<leftarrow> calc_nchains nelems;
     Some (sz_add (sz_add 40 (nelems * 32 mod 2 ^ 64)) (sz_add 8 (chains * 8 mod 2 ^ 64))) }"

definition RL_RequiredSize :: "nat \<Rightarrow> nat option" where
  "RL_RequiredSize nelems = do {
     log_assert (nelems \<noteq> 0);
     nchains \<leftarrow> CalculateNumChains nelems;
     Some (sz_add (sz_add 136 (sz_add nelems RL_FREE_OVERHEAD * 32 mod 2 ^ 64)) (sz_add 8 (nchains * 8 mod 2 ^ 64))) }"

text \<open>The two static variables of \<open>ix_sz\<close>: the number of elements it was last called with and the size it computed.\<close>

record ix_cache =
  prev_nelems :: nat
  ix_size :: nat

definition ix_sz :: "nat \<Rightarrow> nat \<Rightarrow> ix_cache \<Rightarrow> (nat \<times> ix_cache) option" where
  "ix_sz nelems align c = do {
     log_assert (nelems \<noteq> 0);
     if nelems \<noteq> prev_nelems c then do {
       rl \<leftarrow> RL_RequiredSize nelems;
       a \<leftarrow> roundUp rl align;
       tq \<leftarrow> TQ_RequiredSize nelems;
       b \<leftarrow> roundUp tq align;
       fb \<leftarrow> FB_RequiredSize nelems;
       d \<leftarrow> roundUp fb align;
       sx \<leftarrow> SX_RequiredSize nelems;
       e \<leftarrow> roundUp sx align;
       let size = sz_add (sz_add (sz_add a b) d) e;
       Some (size, \<lparr>prev_nelems = nelems, ix_size = size\<rparr>) }
     else Some (ix_size c, c) }"

text \<open>The addresses of the four tables; the bounds check is an assertion in a debug build and the result 0 otherwise.\<close>

record ix_layout =
  rlpp :: nat
  tqpp :: nat
  fbpp :: nat
  sxpp :: nat

definition ix_ptrs :: "bool \<Rightarrow> nat \<Rightarrow> nat \<Rightarrow> nat \<Rightarrow> nat \<Rightarrow> (int \<times> ix_layout) option" where
  "ix_ptrs ndebug ix ixsz nelems align = do {
     log_assert (nelems \<noteq> 0);
     rl \<leftarrow> RL_RequiredSize nelems;
     tq \<leftarrow> TQ_RequiredSize nelems;
     fb \<leftarrow> FB_RequiredSize nelems;
     sx \<leftarrow> SX_RequiredSize nelems;
     tp \<leftarrow> roundUp (sz_add ix rl) align;
     fp \<leftarrow> roundUp (sz_add tp tq) align;
     sp \<leftarrow> roundUp (sz_add fp fb) align;
     let lay = \<lparr>rlpp = ix, tqpp = tp, fbpp = fp, sxpp = sp\<rparr>;
     if sz_add sp sx \<le> sz_add ix ixsz then Some (1, lay)
     else if ndebug then Some (0, lay) else None }"

subsection \<open>The control header\<close>

definition PQ_MAGIC :: nat where "PQ_MAGIC = 0x50515545"
definition PQ_VERSION :: nat where "PQ_VERSION = 100"
definition WRITE_COUNT_MAGIC :: nat where "WRITE_COUNT_MAGIC = 0x50515545"
definition MAX_WRITE_COUNT :: nat where "MAX_WRITE_COUNT = 2 ^ 32 - 1"
definition METRICS_MAGIC :: nat where "METRICS_MAGIC = 0x50515546"
definition METRICS_MAGIC_2 :: nat where "METRICS_MAGIC_2 = 0x50515547"

record pqctl =
  ctl_magic :: nat
  ctl_version :: nat
  datao :: int
  ixo :: int
  ixsz :: nat
  ctl_nalloc :: nat
  ctl_align :: nat
  highwater :: int
  maxproducts :: nat
  write_count_magic :: nat
  write_count :: nat
  metrics_magic :: nat
  mostRecent :: Timestamp
  minVirtResTime :: Timestamp
  isFull :: int
  metrics_magic_2 :: nat
  mvrtSize :: int
  mvrtSlots :: nat

definition InitializeControlHeader :: "int \<Rightarrow> int \<Rightarrow> nat \<Rightarrow> nat \<Rightarrow> nat \<Rightarrow> pqctl" where
  "InitializeControlHeader dataOffset indexOffset indexSize maxSlots align =
     \<lparr>ctl_magic = PQ_MAGIC, ctl_version = PQ_VERSION, datao = dataOffset, ixo = indexOffset, ixsz = indexSize,
      ctl_nalloc = maxSlots, ctl_align = align, highwater = 0, maxproducts = 0,
      write_count_magic = WRITE_COUNT_MAGIC, write_count = 1, metrics_magic = METRICS_MAGIC,
      mostRecent = TS_NONE, minVirtResTime = TS_NONE, isFull = 0, metrics_magic_2 = METRICS_MAGIC_2,
      mvrtSize = -1, mvrtSlots = 0\<rparr>"

text \<open>The output parameters of the validation; they keep their old values where the code does not assign them.\<close>

record geometry =
  dataOffset :: int
  indexOffset :: int
  indexSize :: nat
  maxSlots :: nat
  g_align :: nat

definition ValidateControlHeader :: "pqctl \<Rightarrow> nat \<Rightarrow> nat \<Rightarrow> geometry \<Rightarrow> (int \<times> geometry) option" where
  "ValidateControlHeader ctl regionSize pageSize g =
     (if ctl_magic ctl \<noteq> PQ_MAGIC then Some (EINVAL, g)
      else if ctl_version ctl \<noteq> PQ_VERSION then Some (EINVAL, g)
      else if pageSize = 0 then None
      else if to_size (datao ctl) mod pageSize \<noteq> 0 then Some (EINVAL, g)
      else if to_size (datao ctl) \<noteq> regionSize then
        if regionSize \<noteq> pageSize then Some (EINVAL, g)
        else Some (EAGAIN, g\<lparr>dataOffset := datao ctl\<rparr>)
      else Some (0, \<lparr>dataOffset = datao ctl, indexOffset = ixo ctl, indexSize = ixsz ctl, maxSlots = ctl_nalloc ctl,
                     g_align = ctl_align ctl\<rparr>))"


subsection \<open>The tables fit\<close>

definition up :: "nat \<Rightarrow> nat \<Rightarrow> nat" where
  "up x unit = ((x + unit - 1) div unit) * unit"

lemma up_bounds:
  assumes "0 < u"
  shows "x \<le> up x u" "up x u < x + u" "u dvd up x u"
proof -
  have "(x + u - 1) div u * u + (x + u - 1) mod u = x + u - 1" by (rule div_mult_mod_eq)
  moreover have "(x + u - 1) mod u < u" using assms by simp
  ultimately show "x \<le> up x u" "up x u < x + u" using assms unfolding up_def by linarith+
  show "u dvd up x u" by (simp add: up_def)
qed

lemma up_add:
  assumes "0 < u" "u dvd b"
  shows "up (b + x) u = b + up x u"
proof -
  obtain k where k: "b = u * k" using assms(2) by blast
  have "b + x + u - 1 = (x + u - 1) + u * k" using assms(1) k by simp
  then have "(b + x + u - 1) div u = k + (x + u - 1) div u" using div_mult_self2 [of u "x + u - 1" k] assms(1) by (simp only: not_gr_zero neq0_conv)
  then show ?thesis unfolding up_def k by (simp only: add_mult_distrib add_mult_distrib2 mult.commute)
qed

lemma roundUp_exact:
  assumes "0 < u" "x + u < 2 ^ 64"
  shows "roundUp x u = Some (up x u)"
proof -
  have "sz_add x u = x + u" "sz_sub (x + u) 1 = x + u - 1" using assms by simp_all
  moreover have "up x u < 2 ^ 64" using up_bounds(2) [OF assms(1), of x] assms(2) by simp
  ultimately show ?thesis using assms(1) by (simp add: roundUp_def up_def)
qed

lemma ix_sz_fresh:
  assumes n: "nelems \<noteq> 0" "nelems \<noteq> prev_nelems c" and u: "0 < align"
    and sizes: "RL_RequiredSize nelems = Some rl" "TQ_RequiredSize nelems = Some tq" "FB_RequiredSize nelems = Some fb" "SX_RequiredSize nelems = Some sx"
    and room: "rl + tq + fb + sx + 4 * align < 2 ^ 64"
  shows "ix_sz nelems align c = Some (up rl align + up tq align + up fb align + up sx align,
    \<lparr>prev_nelems = nelems, ix_size = up rl align + up tq align + up fb align + up sx align\<rparr>)"
proof -
  have "up rl align < rl + align" "up tq align < tq + align" "up fb align < fb + align" "up sx align < sx + align"
    using up_bounds(2) [OF u] by simp_all
  then show ?thesis using n sizes room u by (simp add: ix_sz_def roundUp_exact Let_def)
qed

lemma ix_ptrs_fits:
  assumes n: "nelems \<noteq> 0" and u: "0 < align" "align dvd ix"
    and sizes: "RL_RequiredSize nelems = Some rl" "TQ_RequiredSize nelems = Some tq" "FB_RequiredSize nelems = Some fb" "SX_RequiredSize nelems = Some sx"
    and room: "ix + rl + tq + fb + sx + 4 * align < 2 ^ 64"
    and big: "up rl align + up tq align + up fb align + up sx align \<le> isz" "ix + isz < 2 ^ 64"
  shows "ix_ptrs nd ix isz nelems align = Some (1, \<lparr>rlpp = ix, tqpp = ix + up rl align, fbpp = ix + up rl align + up tq align,
    sxpp = ix + up rl align + up tq align + up fb align\<rparr>)"
proof -
  have b: "up rl align < rl + align" "up tq align < tq + align" "up fb align < fb + align" "up sx align < sx + align" "sx \<le> up sx align"
    using up_bounds(1,2) [OF u(1)] by simp_all
  have d: "align dvd ix + up rl align" "align dvd ix + up rl align + up tq align" using u(2) up_bounds(3) [OF u(1)] by simp_all
  have "roundUp (ix + rl) align = Some (ix + up rl align)"
    using roundUp_exact [OF u(1), of "ix + rl"] up_add [OF u, of rl] room by simp
  moreover have "roundUp (ix + up rl align + tq) align = Some (ix + up rl align + up tq align)"
    using roundUp_exact [OF u(1), of "ix + up rl align + tq"] up_add [OF u(1) d(1), of tq] room b by simp
  moreover have "roundUp (ix + up rl align + up tq align + fb) align = Some (ix + up rl align + up tq align + up fb align)"
    using roundUp_exact [OF u(1), of "ix + up rl align + up tq align + fb"] up_add [OF u(1) d(2), of fb] room b by simp
  ultimately show ?thesis using n sizes room b big by (simp add: ix_ptrs_def)
qed

subsection \<open>Properties\<close>

text \<open>
  C39. Where the size computed by \<open>ix_sz\<close> for a number of slots and an alignment fits into the index section and the
  section starts at a multiple of the alignment, \<open>ix_ptrs\<close> succeeds: the four tables lie inside the section, in order
  and without overlap, each on a multiple of the alignment. The second part is about the static variables of \<open>ix_sz\<close>:
  a later call with another alignment and the same number of slots returns the old sz.
\<close>

theorem index_layout_fits:
  assumes "nelems \<noteq> 0" "nelems \<noteq> prev_nelems c" "0 < align" "align dvd ix"
    and "RL_RequiredSize nelems = Some rl" "TQ_RequiredSize nelems = Some tq" "FB_RequiredSize nelems = Some fb" "SX_RequiredSize nelems = Some sx"
    and "ix + rl + tq + fb + sx + 4 * align < 2 ^ 64" "ix_sz nelems align c = Some (sz, c')" "sz \<le> isz" "ix + isz < 2 ^ 64"
  shows "(\<exists>lay. ix_ptrs nd ix isz nelems align = Some (1, lay) \<and> rlpp lay = ix \<and>
      rlpp lay + rl \<le> tqpp lay \<and> tqpp lay + tq \<le> fbpp lay \<and> fbpp lay + fb \<le> sxpp lay \<and> sxpp lay + sx \<le> ix + isz \<and>
      align dvd tqpp lay \<and> align dvd fbpp lay \<and> align dvd sxpp lay) \<and>
    ix_sz nelems align' c' = Some (sz, c')"
proof -
  have room: "rl + tq + fb + sx + 4 * align < 2 ^ 64" using assms(9) by simp
  have size: "sz = up rl align + up tq align + up fb align + up sx align" "c' = \<lparr>prev_nelems = nelems, ix_size = sz\<rparr>"
    using ix_sz_fresh [OF assms(1-3,5-8) room] assms(10) by simp_all
  have b: "x \<le> up x align" "align dvd up x align" for x using up_bounds(1,3) [OF assms(3)] by simp_all
  have "ix_sz nelems align' c' = Some (sz, c')" using assms(1) size(2) by (simp add: ix_sz_def)
  then show ?thesis
    using ix_ptrs_fits [OF assms(1,3,4,5-9) _ assms(12), of nd] assms(4,11) size(1) b [of rl] b [of tq] b [of fb] b [of sx] by simp
qed

lemma sizes_of_16:
  "RL_RequiredSize 16 = Some 808" "TQ_RequiredSize 16 = Some 624" "FB_RequiredSize 16 = Some 1024" "SX_RequiredSize 16 = Some 584"
proof -
  have "isqrt 5184 = 72" by (rule isqrt_unique) simp_all
  then have "GetArenaSize 16 = 93"
    by (simp add: GetArenaSize_def log4_of_16 next_numblks_def numeral_3_eq_3 numeral_2_eq_2)
  then show "FB_RequiredSize 16 = Some 1024" by (simp add: FB_RequiredSize_def)
  show "RL_RequiredSize 16 = Some 808" by (simp add: RL_RequiredSize_def raw_table_chains RL_FREE_OVERHEAD_def)
  have "calc_nchains 16 = Some 3" using raw_table_chains
    by (simp add: CalculateNumChains_def calc_nchains_def RL_EXP_CHAIN_LEN_def SX_EXP_CHAIN_LEN_def)
  then show "SX_RequiredSize 16 = Some 584" by (simp add: SX_RequiredSize_def)
  show "TQ_RequiredSize 16 = Some 624" by (simp add: TQ_RequiredSize_def TQ_OVERHEAD_ELEMS_def)
qed

lemma ix_sz_16: "ix_sz 16 4096 \<lparr>prev_nelems = 0, ix_size = 0\<rparr> = Some (16384, \<lparr>prev_nelems = 16, ix_size = 16384\<rparr>)"
  using ix_sz_fresh [of 16 "\<lparr>prev_nelems = 0, ix_size = 0\<rparr>" 4096, OF _ _ _ sizes_of_16] by (simp add: up_def)

theorem index_layout_fits_witness:
  "(\<exists>lay. ix_ptrs True 40960 16384 16 4096 = Some (1, lay) \<and> rlpp lay = 40960 \<and>
      rlpp lay + 808 \<le> tqpp lay \<and> tqpp lay + 624 \<le> fbpp lay \<and> fbpp lay + 1024 \<le> sxpp lay \<and> sxpp lay + 584 \<le> 40960 + 16384 \<and>
      4096 dvd tqpp lay \<and> 4096 dvd fbpp lay \<and> 4096 dvd sxpp lay) \<and>
   ix_sz 16 8 \<lparr>prev_nelems = 16, ix_size = 16384\<rparr> = Some (16384, \<lparr>prev_nelems = 16, ix_size = 16384\<rparr>)"
  by (rule index_layout_fits [OF _ _ _ _ sizes_of_16 _ ix_sz_16]) (simp_all add: dvd_def)

end
