(* ===== verification/C_String.thy ===== *)
theory C_String
  imports RDM_Prelude
begin

text \<open>
  The parts of the C and C++ string library the modelled sources call, on character lists: character
  classes and case conversion in the C locale, fixed-width hexadecimal output of \<open>printf\<close>, decimal
  output, and \<open>std::stoul\<close> with base detection. A C string ends at its first null character.
\<close>

subsection \<open>Characters\<close>

abbreviation code :: "char \<Rightarrow> nat" where "code c \<equiv> of_char c"

definition isspace :: "char \<Rightarrow> bool" where
  "isspace c \<longleftrightarrow> code c = 32 \<or> (9 \<le> code c \<and> code c \<le> 13)"

definition isdigit :: "char \<Rightarrow> bool" where
  "isdigit c \<longleftrightarrow> 48 \<le> code c \<and> code c \<le> 57"

definition islower :: "char \<Rightarrow> bool" where
  "islower c \<longleftrightarrow> 97 \<le> code c \<and> code c \<le> 122"

definition isupper :: "char \<Rightarrow> bool" where
  "isupper c \<longleftrightarrow> 65 \<le> code c \<and> code c \<le> 90"

definition isalnum :: "char \<Rightarrow> bool" where
  "isalnum c \<longleftrightarrow> isdigit c \<or> islower c \<or> isupper c"

definition tolower_c :: "char \<Rightarrow> char" where
  "tolower_c c = (if isupper c then char_of (code c + 32) else c)"

definition toupper_c :: "char \<Rightarrow> char" where
  "toupper_c c = (if islower c then char_of (code c - 32) else c)"

abbreviation lower :: "string \<Rightarrow> string" where "lower s \<equiv> map tolower_c s"

abbreviation upper :: "string \<Rightarrow> string" where "upper s \<equiv> map toupper_c s"

definition NUL :: char where "NUL = CHR 0x00"

definition c_str :: "string \<Rightarrow> string" where
  "c_str s = takeWhile (\<lambda>c. c \<noteq> NUL) s"

subsection \<open>Numbers\<close>

definition digit_val :: "char \<Rightarrow> nat option" where
  "digit_val c =
     (if isdigit c then Some (code c - 48)
      else if islower c then Some (code c - 87)
      else if isupper c then Some (code c - 55)
      else None)"

definition is_digit_of :: "nat \<Rightarrow> char \<Rightarrow> bool" where
  "is_digit_of base c = (case digit_val c of None \<Rightarrow> False | Some d \<Rightarrow> d < base)"

definition digits_val :: "nat \<Rightarrow> string \<Rightarrow> nat" where
  "digits_val base s = foldl (\<lambda>a c. a * base + the (digit_val c)) 0 s"

text \<open>
  \<open>std::stoul(s, &pos, 0)\<close>: the value and \<open>pos\<close>, or \<open>None\<close> for an exception. White space and a
  sign may come first; \<open>0x\<close> selects base 16, a leading \<open>0\<close> base 8.
\<close>

definition stoul0 :: "string \<Rightarrow> (nat \<times> nat) option" where
  "stoul0 s =
     (let r = dropWhile isspace s;
          neg = (r \<noteq> [] \<and> hd r = CHR ''-'');
          r1 = (if r \<noteq> [] \<and> (hd r = CHR ''-'' \<or> hd r = CHR ''+'') then tl r else r);
          hex = (length r1 > 2 \<and> r1 ! 0 = CHR ''0'' \<and> tolower_c (r1 ! 1) = CHR ''x'' \<and> is_digit_of 16 (r1 ! 2));
          base = (if hex then 16 else if r1 \<noteq> [] \<and> hd r1 = CHR ''0'' then 8 else 10);
          r2 = (if hex then drop 2 r1 else r1);
          ds = takeWhile (is_digit_of base) r2;
          v = digits_val base ds
      in if ds = [] \<or> v \<ge> 2 ^ 64 then None
         else Some (if neg then (2 ^ 64 - v) mod 2 ^ 64 else v,
                    length s - length (dropWhile (is_digit_of base) r2)))"

definition hex_digit :: "nat \<Rightarrow> char" where
  "hex_digit n = char_of (if n < 10 then 48 + n else 87 + n)"

text \<open>The last \<open>w\<close> hexadecimal digits of a number, as \<open>%0wx\<close> prints a value below \<open>16 ^ w\<close>.\<close>

primrec hexw :: "nat \<Rightarrow> nat \<Rightarrow> string" where
  "hexw 0 n = []"
| "hexw (Suc w) n = hexw w (n div 16) @ [hex_digit (n mod 16)]"

lemma length_hexw [simp]: "length (hexw w n) = w"
  by (induction w arbitrary: n) auto

lemma code_hex_digit: "n < 16 \<Longrightarrow> code (hex_digit n) = (if n < 10 then 48 + n else 87 + n)"
  by (simp add: hex_digit_def)

lemma digit_val_hex_digit: "n < 16 \<Longrightarrow> digit_val (hex_digit n) = Some n"
  by (auto simp: digit_val_def isdigit_def islower_def isupper_def code_hex_digit)

lemma hex_digit_props:
  assumes "n < 16"
  shows "is_digit_of 16 (hex_digit n)" "isalnum (hex_digit n)" "tolower_c (hex_digit n) = hex_digit n"
  using assms by (auto simp: is_digit_of_def digit_val_hex_digit isalnum_def isdigit_def islower_def isupper_def
      tolower_c_def code_hex_digit)

lemma hexw_digits: "c \<in> set (hexw w n) \<Longrightarrow> is_digit_of 16 c \<and> isalnum c \<and> tolower_c c = c"
  by (induction w arbitrary: n) (auto simp: hex_digit_props)

lemma digits_val_snoc: "digits_val b (s @ [c]) = digits_val b s * b + the (digit_val c)"
  by (simp add: digits_val_def)

lemma digits_val_hexw: "digits_val 16 (hexw w n) = n mod 16 ^ w"
proof (induction w arbitrary: n)
  case 0
  then show ?case by (simp add: digits_val_def)
next
  case (Suc w)
  have "n mod 16 ^ Suc w = (n div 16 mod 16 ^ w) * 16 + n mod 16"
    using mod_mult2_eq [of n 16 "16 ^ w"] by (simp add: mult.commute)
  then show ?case using Suc by (simp add: digits_val_snoc digit_val_hex_digit)
qed

lemma stoul0_hexw:
  assumes "0 < w" "n < 16 ^ w" "w \<le> 16"
  shows "stoul0 (CHR ''0'' # CHR ''x'' # hexw w n) = Some (n, w + 2)"
proof -
  have all: "\<forall>c \<in> set (hexw w n). is_digit_of 16 c" using hexw_digits by blast
  have tw: "takeWhile (is_digit_of 16) (hexw w n) = hexw w n" "dropWhile (is_digit_of 16) (hexw w n) = []"
    using all by (simp_all add: takeWhile_eq_all_conv dropWhile_eq_Nil_conv)
  have "hexw w n ! 0 \<in> set (hexw w n)" using assms(1) by (intro nth_mem) simp
  then have "is_digit_of 16 (hexw w n ! 0)" using all by blast
  moreover have "\<not> isspace (CHR ''0'')" "tolower_c (CHR ''x'') = CHR ''x''"
    by (simp_all add: isspace_def tolower_c_def isupper_def)
  moreover have "n < 2 ^ 64"
    using assms(2,3) power_increasing [of w 16 "16 :: nat"] by simp
  moreover have "hexw w n \<noteq> []" using assms(1) by (metis length_hexw length_0_conv less_numeral_extra(3))
  ultimately show ?thesis
    using assms(1,2) by (simp add: stoul0_def Let_def tw digits_val_hexw)
qed

subsection \<open>Case conversion\<close>

lemma tolower_toupper: "\<not> isupper c \<Longrightarrow> tolower_c (toupper_c c) = c"
  by (auto simp: tolower_c_def toupper_c_def isupper_def islower_def)

end
