(* ===== verification/Feed_Type.thy ===== *)
theory Feed_Type
  imports C_String "HOL-Library.Word"
begin

text \<open>
  src/core/FeedType.h and FeedType.cpp: feed types as 32-bit masks, their table of names, the parser
  of feed expressions and the formatting of a mask as an expression.

  The parser of the code is a set of mutually recursive functions with loops that need not end. They
  are the cases of the one partial function \<open>parse_nt\<close>, indexed by the procedure and, inside its loop,
  the value accumulated so far.

  Proved: a formatted mask parses back to itself; an expression of the grammar parses to its meaning
  in terms of set operations; an input without a minus sign always ends; and an error that leaves a
  minus sign as the current token does not.
\<close>

unbundle bit_operations_syntax

named_theorems feed_consts \<open>the numeric values of the feed types\<close>

type_synonym feedtype = "32 word"

subsection \<open>Feed types\<close>

definition NONE :: feedtype where [feed_consts]: "NONE = 0"

definition FT0 :: feedtype where [feed_consts]: "FT0 = 1"

definition FT1 :: feedtype where [feed_consts]: "FT1 = 2"

definition DDPLUS :: feedtype where [feed_consts]: "DDPLUS = 3"

definition FT2 :: feedtype where [feed_consts]: "FT2 = 4"

definition FT3 :: feedtype where [feed_consts]: "FT3 = 8"

definition FT4 :: feedtype where [feed_consts]: "FT4 = 16"

definition WMO :: feedtype where [feed_consts]: "WMO = 15"

definition FT5 :: feedtype where [feed_consts]: "FT5 = 32"

definition UNIDATA :: feedtype where [feed_consts]: "UNIDATA = 47"

definition FT6 :: feedtype where [feed_consts]: "FT6 = 64"

definition FT7 :: feedtype where [feed_consts]: "FT7 = 128"

definition FT8 :: feedtype where [feed_consts]: "FT8 = 256"

definition FT9 :: feedtype where [feed_consts]: "FT9 = 512"

definition FT10 :: feedtype where [feed_consts]: "FT10 = 1024"

definition FSL :: feedtype where [feed_consts]: "FSL = 1984"

definition FT11 :: feedtype where [feed_consts]: "FT11 = 2048"

definition FT12 :: feedtype where [feed_consts]: "FT12 = 4096"

definition FT13 :: feedtype where [feed_consts]: "FT13 = 8192"

definition NMC :: feedtype where [feed_consts]: "NMC = 14336"

definition FT14 :: feedtype where [feed_consts]: "FT14 = 16384"

definition FT15 :: feedtype where [feed_consts]: "FT15 = 32768"

definition FT16 :: feedtype where [feed_consts]: "FT16 = 65536"

definition FT17 :: feedtype where [feed_consts]: "FT17 = 131072"

definition FT18 :: feedtype where [feed_consts]: "FT18 = 262144"

definition FT19 :: feedtype where [feed_consts]: "FT19 = 524288"

definition FT20 :: feedtype where [feed_consts]: "FT20 = 1048576"

definition FT21 :: feedtype where [feed_consts]: "FT21 = 2097152"

definition FT22 :: feedtype where [feed_consts]: "FT22 = 4194304"

definition FT23 :: feedtype where [feed_consts]: "FT23 = 8388608"

definition FT24 :: feedtype where [feed_consts]: "FT24 = 16777216"

definition FT25 :: feedtype where [feed_consts]: "FT25 = 33554432"

definition FT26 :: feedtype where [feed_consts]: "FT26 = 67108864"

definition NPORT :: feedtype where [feed_consts]: "NPORT = 130023424"

definition FT27 :: feedtype where [feed_consts]: "FT27 = 134217728"

definition FT28 :: feedtype where [feed_consts]: "FT28 = 268435456"

definition FT29 :: feedtype where [feed_consts]: "FT29 = 536870912"

definition FT30 :: feedtype where [feed_consts]: "FT30 = 1073741824"

definition ANY :: feedtype where [feed_consts]: "ANY = 0xffffffff"

definition FEED_DEFS :: "(string \<times> feedtype) list" where
  "FEED_DEFS = [
     (''none'', NONE), (''pps'', FT0), (''dds'', FT1), (''ddplus'', DDPLUS),
     (''hds'', FT2), (''ids'', FT3), (''spare'', FT4), (''wmo'', WMO),
     (''uniwisc'', FT5), (''unidata'', UNIDATA), (''pcws'', FT6), (''fsl2'', FT7),
     (''fsl3'', FT8), (''fsl4'', FT9), (''fsl5'', FT10), (''fsl'', FSL),
     (''gpssrc'', FT11), (''conduit'', FT12), (''fnexrad'', FT13), (''nmc'', NMC),
     (''lightning'', FT14), (''wsi'', FT15), (''satellite'', FT16), (''faa604'', FT17),
     (''gps'', FT18), (''fnmoc'', FT19), (''gem'', FT20), (''nimage'', FT21),
     (''ntext'', FT22), (''ngrid'', FT23), (''npoint'', FT24), (''ngraph'', FT25),
     (''nother'', FT26), (''nport'', NPORT), (''nexrad3'', FT27), (''nexrad2'', FT28),
     (''nxrdsrc'', FT29), (''exp'', FT30), (''any'', ANY), (''ft0'', FT0),
     (''domestic'', FT1), (''ft1'', FT1), (''hrs'', FT2), (''ft2'', FT2),
     (''intnl'', FT3), (''ft3'', FT3), (''nps'', FT4), (''ft4'', FT4),
     (''ft5'', FT5), (''mcidas'', FT5), (''acars'', FT6), (''ft6'', FT6),
     (''profiler'', FT7), (''ft7'', FT7), (''ft8'', FT8), (''ft9'', FT9),
     (''ft10'', FT10), (''profs'', FSL), (''afos'', FT11), (''nmc1'', FT11),
     (''ft11'', FT11), (''nmc2'', FT12), (''nceph'', FT12), (''ft12'', FT12),
     (''nmc3'', FT13), (''ft13'', FT13), (''ft14'', FT14), (''nldn'', FT14),
     (''ft15'', FT15), (''difax'', FT16), (''ft16'', FT16), (''faa'', FT17),
     (''604'', FT17), (''ft17'', FT17), (''ft18'', FT18), (''nogaps'', FT19),
     (''seismic'', FT19), (''ft19'', FT19), (''cmc'', FT20), (''ft20'', FT20),
     (''image'', FT21), (''ft21'', FT21), (''text'', FT22), (''ft22'', FT22),
     (''grid'', FT23), (''ft23'', FT23), (''point'', FT24), (''nbufr'', FT24),
     (''bufr'', FT24), (''ft24'', FT24), (''graph'', FT25), (''ft25'', FT25),
     (''other'', FT26), (''ft26'', FT26), (''nnexrad'', FT27), (''nexrad'', FT27),
     (''ft27'', FT27), (''nexrd2'', FT28), (''craft'', FT28), (''ft28'', FT28),
     (''ft29'', FT29), (''ft30'', FT30)]"

text \<open>The lookup table: a later entry of the same name would overwrite an earlier one.\<close>

definition GetFeedMap :: "string \<rightharpoonup> feedtype" where
  "GetFeedMap = map_of (rev FEED_DEFS)"

subsection \<open>Tokens\<close>

definition PARSE_OK :: nat where "PARSE_OK = 0"

definition PARSE_ERR_RP :: nat where "PARSE_ERR_RP = 1"

definition PARSE_ERR_PRIM :: nat where "PARSE_ERR_PRIM = 2"

definition PARSE_ERR_GARB :: nat where "PARSE_ERR_GARB = 3"

definition PARSE_ERR_UKFT :: nat where "PARSE_ERR_UKFT = 4"

lemmas parse_codes = PARSE_OK_def PARSE_ERR_RP_def PARSE_ERR_PRIM_def PARSE_ERR_GARB_def PARSE_ERR_UKFT_def

datatype TokenType = NAME | END | UNION | DIFF | COMPLEMENT | LP | RP

record ParseState =
  ps_err :: nat
  ps_tok :: TokenType
  ps_name :: string
  ps_cp :: string

definition AdvanceToken :: "ParseState \<Rightarrow> ParseState" where
  "AdvanceToken ps =
     (if ps_err ps \<noteq> PARSE_OK then ps
      else case dropWhile isspace (ps_cp ps) of
        [] \<Rightarrow> ps\<lparr>ps_cp := [], ps_tok := END\<rparr>
      | c # r \<Rightarrow>
          if c = NUL then ps\<lparr>ps_cp := c # r, ps_tok := END\<rparr>
          else if c = CHR ''|'' \<or> c = CHR ''+'' then ps\<lparr>ps_cp := r, ps_tok := UNION\<rparr>
          else if c = CHR ''-'' then ps\<lparr>ps_cp := r, ps_tok := DIFF\<rparr>
          else if c = CHR ''('' then ps\<lparr>ps_cp := r, ps_tok := LP\<rparr>
          else if c = CHR '')'' then ps\<lparr>ps_cp := r, ps_tok := RP\<rparr>
          else if c = CHR ''~'' then ps\<lparr>ps_cp := r, ps_tok := COMPLEMENT\<rparr>
          else ps\<lparr>ps_name := takeWhile isalnum (c # r), ps_cp := dropWhile isalnum (c # r), ps_tok := NAME\<rparr>)"

subsection \<open>The parser\<close>

text \<open>The value of a name: an entry of the table, or a number that takes up the whole token.\<close>

definition feed_value :: "string \<Rightarrow> feedtype option" where
  "feed_value s =
     (case GetFeedMap s of
        Some v \<Rightarrow> Some v
      | None \<Rightarrow> (case stoul0 s of
          None \<Rightarrow> None
        | Some (n, pos) \<Rightarrow> if pos = length s then Some (word_of_nat n) else None))"

text \<open>
  The procedures \<open>ParsePrimary\<close>, \<open>ParseTerm\<close> and \<open>ParseExpr\<close>; \<open>TermLoop\<close> and \<open>ExprLoop\<close> are the
  endless loops of the latter two, with their accumulator.
\<close>

datatype Nonterminal = Primary | Term | TermLoop feedtype | Expr | ExprLoop feedtype

partial_function (option) parse_nt :: "Nonterminal \<Rightarrow> ParseState \<Rightarrow> (feedtype \<times> ParseState) option" where
  "parse_nt nt ps = (case nt of
     Primary \<Rightarrow>
       if ps_err ps \<noteq> PARSE_OK then Some (0, ps)
       else (case ps_tok ps of
         NAME \<Rightarrow>
           (case feed_value (lower (ps_name ps)) of
              Some v \<Rightarrow> Some (v, AdvanceToken ps)
            | None \<Rightarrow> Some (0, (AdvanceToken ps)\<lparr>ps_err := PARSE_ERR_UKFT\<rparr>))
       | COMPLEMENT \<Rightarrow> do {
           (v, ps') \<leftarrow> parse_nt Primary (AdvanceToken ps);
           Some (NOT v, ps') }
       | LP \<Rightarrow> do {
           (e, ps') \<leftarrow> parse_nt Expr (AdvanceToken ps);
           if ps_tok ps' \<noteq> RP then Some (0, ps'\<lparr>ps_err := PARSE_ERR_RP\<rparr>)
           else Some (e, AdvanceToken ps') }
       | _ \<Rightarrow> Some (0, ps\<lparr>ps_err := PARSE_ERR_PRIM\<rparr>))
   | Term \<Rightarrow> do {
       (left, ps') \<leftarrow> parse_nt Primary ps;
       if ps_err ps' \<noteq> PARSE_OK then Some (0, ps') else parse_nt (TermLoop left) ps' }
   | TermLoop left \<Rightarrow>
       if ps_tok ps = DIFF then do {
         (v, ps') \<leftarrow> parse_nt Primary (AdvanceToken ps);
         parse_nt (TermLoop (left AND NOT v)) ps' }
       else Some (left, ps)
   | Expr \<Rightarrow> do {
       (left, ps') \<leftarrow> parse_nt Term ps;
       if ps_err ps' \<noteq> PARSE_OK then Some (0, ps') else parse_nt (ExprLoop left) ps' }
   | ExprLoop left \<Rightarrow>
       if ps_tok ps = UNION then do {
         let ps1 = AdvanceToken ps;
         if ps_err ps1 \<noteq> PARSE_OK then Some (0, ps1)
         else do {
           (v, ps') \<leftarrow> parse_nt Term ps1;
           parse_nt (ExprLoop (left OR v)) ps' } }
       else Some (left, ps))"

declare parse_nt.simps [code]

text \<open>\<open>Parse\<close> returns the status; the result variable keeps its value on an error.\<close>

definition ft_Parse :: "string \<Rightarrow> feedtype \<Rightarrow> (nat \<times> feedtype) option" where
  "ft_Parse str result =
     (if str = [] then Some (PARSE_ERR_PRIM, result)
      else do {
        (v, ps) \<leftarrow> parse_nt Expr (AdvanceToken \<lparr>ps_err = PARSE_OK, ps_tok = END, ps_name = [], ps_cp = c_str str\<rparr>);
        let err = (if ps_err ps = PARSE_OK \<and> ps_tok ps \<noteq> END then PARSE_ERR_GARB else ps_err ps);
        Some (err, if err = PARSE_OK then v else result) })"

definition GetParseErrorMsg :: "nat \<Rightarrow> string" where
  "GetParseErrorMsg errCode =
     (if errCode = PARSE_OK then []
      else if errCode = PARSE_ERR_RP then ''missing right paren in feedtype expression''
      else if errCode = PARSE_ERR_PRIM then ''bad syntax in feedtype expression''
      else if errCode = PARSE_ERR_GARB then ''garbage at end of feedtype expression''
      else if errCode = PARSE_ERR_UKFT then ''unknown feed name in feedtype expression''
      else ''error in feedtype expression'')"

subsection \<open>Formatting\<close>

primrec find_any :: "nat \<Rightarrow> (string \<times> feedtype) list \<Rightarrow> nat" where
  "find_any idx [] = idx"
| "find_any idx (d # ds) = (if snd d \<noteq> ANY then find_any (Suc idx) ds else idx)"

text \<open>The backward traversal of the table; \<open>todo\<close> is \<open>idx + 1\<close>.\<close>

primrec format_loop :: "nat \<Rightarrow> feedtype \<Rightarrow> string \<Rightarrow> (feedtype \<times> string) option" where
  "format_loop 0 remaining s = Some (remaining, s)"
| "format_loop (Suc idx) remaining s =
     (if remaining = 0 then Some (remaining, s)
      else do {
        (name, ty) \<leftarrow> rd FEED_DEFS idx;
        if ty = NONE then Some (remaining, s)
        else if ty AND remaining = ty then
          format_loop idx (remaining AND NOT ty) ((if s \<noteq> [] then s @ ''|'' else s) @ upper name)
        else format_loop idx remaining s })"

definition ft_ToString :: "feedtype \<Rightarrow> string option" where
  "ft_ToString v =
     (if v = NONE then Some ''NONE''
      else do {
        (remaining, s) \<leftarrow> format_loop (Suc (find_any 0 FEED_DEFS)) v [];
        Some (if remaining \<noteq> 0 then s @ (if s = [] then ''0x'' else ''|0x'') @ hexw 8 (unat remaining) else s) })"


subsection \<open>The table\<close>

lemma FEED_DEFS_distinct: "distinct (map fst FEED_DEFS)"
  by code_simp

lemma FEED_DEFS_names: "list_all (\<lambda>(n, t). n \<noteq> [] \<and> list_all (\<lambda>c. isalnum (toupper_c c) \<and> \<not> isupper c) n) FEED_DEFS"
  by code_simp

lemma FEED_DEFS_no_hex: "list_all (\<lambda>(n, t). take 2 n \<noteq> ''0x'') FEED_DEFS"
  by code_simp

lemma find_any_ANY: "find_any 0 FEED_DEFS = 38"
  by code_simp

lemma length_FEED_DEFS: "length FEED_DEFS = 102"
  by code_simp

lemma GetFeedMap_entry: "(n, t) \<in> set FEED_DEFS \<Longrightarrow> GetFeedMap n = Some t"
  unfolding GetFeedMap_def using FEED_DEFS_distinct by (intro map_of_is_SomeI) (simp_all add: rev_map [symmetric])

lemma feed_value_entry:
  assumes "(n, t) \<in> set FEED_DEFS"
  shows "feed_value (lower (upper n)) = Some t" "upper n \<noteq> []" "list_all isalnum (upper n)"
proof -
  have n: "n \<noteq> []" "list_all (\<lambda>c. isalnum (toupper_c c) \<and> \<not> isupper c) n"
    using FEED_DEFS_names assms by (auto simp: list_all_iff)
  then have "map (tolower_c \<circ> toupper_c) n = n" by (auto simp: list_all_iff tolower_toupper intro: map_idI)
  then show "feed_value (lower (upper n)) = Some t" using GetFeedMap_entry [OF assms] by (simp add: feed_value_def)
  show "upper n \<noteq> []" "list_all isalnum (upper n)" using n by (auto simp: list_all_iff)
qed

lemma GetFeedMap_hex: "GetFeedMap (CHR ''0'' # CHR ''x'' # s) = None"
proof -
  have "CHR ''0'' # CHR ''x'' # s \<notin> fst ` set FEED_DEFS" using FEED_DEFS_no_hex by (fastforce simp: list_all_iff)
  then show ?thesis by (simp add: GetFeedMap_def map_of_eq_None_iff)
qed

lemma feed_value_hex: "feed_value (lower (''0x'' @ hexw 8 (unat w))) = Some w"
proof -
  have low: "lower (hexw 8 (unat w)) = hexw 8 (unat w)" using hexw_digits by (intro map_idI) blast
  have "tolower_c (CHR ''0'') = CHR ''0''" "tolower_c (CHR ''x'') = CHR ''x''" by (simp_all add: tolower_c_def isupper_def)
  then have eq: "lower (''0x'' @ hexw 8 (unat w)) = CHR ''0'' # CHR ''x'' # hexw 8 (unat w)" using low by simp
  have "unat w < 16 ^ 8" using unsigned_less [of w] by simp
  then have "stoul0 (CHR ''0'' # CHR ''x'' # hexw 8 (unat w)) = Some (unat w, 8 + 2)" by (intro stoul0_hexw) auto
  then show ?thesis unfolding eq by (simp add: feed_value_def GetFeedMap_hex)
qed


subsection \<open>Expressions and their meaning\<close>

text \<open>The grammar the parser accepts, with the meaning of an expression as a set of feed bits.\<close>

datatype fprim = Atom string | Compl fprim | Paren fexpr
  and fterm = TPrim fprim | TDiff fterm fprim
  and fexpr = ETerm fterm | EUnion fexpr fterm

primrec show_prim :: "fprim \<Rightarrow> string" and show_term :: "fterm \<Rightarrow> string" and show_expr :: "fexpr \<Rightarrow> string" where
  "show_prim (Atom n) = n"
| "show_prim (Compl p) = CHR ''~'' # show_prim p"
| "show_prim (Paren e) = CHR ''('' # show_expr e @ '')''"
| "show_term (TPrim p) = show_prim p"
| "show_term (TDiff t p) = show_term t @ CHR ''-'' # show_prim p"
| "show_expr (ETerm t) = show_term t"
| "show_expr (EUnion e t) = show_expr e @ CHR ''|'' # show_term t"

primrec mean_prim :: "fprim \<Rightarrow> feedtype" and mean_term :: "fterm \<Rightarrow> feedtype" and mean_expr :: "fexpr \<Rightarrow> feedtype" where
  "mean_prim (Atom n) = the (feed_value (lower n))"
| "mean_prim (Compl p) = NOT (mean_prim p)"
| "mean_prim (Paren e) = mean_expr e"
| "mean_term (TPrim p) = mean_prim p"
| "mean_term (TDiff t p) = mean_term t AND NOT (mean_prim p)"
| "mean_expr (ETerm t) = mean_term t"
| "mean_expr (EUnion e t) = mean_expr e OR mean_term t"

definition atom_ok :: "string \<Rightarrow> bool" where
  "atom_ok n \<longleftrightarrow> n \<noteq> [] \<and> list_all isalnum n \<and> feed_value (lower n) \<noteq> None"

primrec ok_prim :: "fprim \<Rightarrow> bool" and ok_term :: "fterm \<Rightarrow> bool" and ok_expr :: "fexpr \<Rightarrow> bool" where
  "ok_prim (Atom n) \<longleftrightarrow> atom_ok n"
| "ok_prim (Compl p) \<longleftrightarrow> ok_prim p"
| "ok_prim (Paren e) \<longleftrightarrow> ok_expr e"
| "ok_term (TPrim p) \<longleftrightarrow> ok_prim p"
| "ok_term (TDiff t p) \<longleftrightarrow> ok_term t \<and> ok_prim p"
| "ok_expr (ETerm t) \<longleftrightarrow> ok_term t"
| "ok_expr (EUnion e t) \<longleftrightarrow> ok_expr e \<and> ok_term t"

text \<open>\<open>at_token s ps\<close>: the scanner has just moved on to the first token of \<open>s\<close>.\<close>

definition at_token :: "string \<Rightarrow> ParseState \<Rightarrow> bool" where
  "at_token s ps \<longleftrightarrow> (\<exists>ps0. ps_err ps0 = PARSE_OK \<and> ps_cp ps0 = s \<and> ps = AdvanceToken ps0)"

definition stops :: "string \<Rightarrow> bool" where
  "stops s \<longleftrightarrow> s = [] \<or> \<not> isalnum (hd s)"

lemmas char_classes = isspace_def isalnum_def isdigit_def islower_def isupper_def NUL_def

lemma AdvanceToken_err [simp]: "ps_err (AdvanceToken ps) = ps_err ps"
  by (simp add: AdvanceToken_def split: list.split)

lemma at_token_err: "at_token s ps \<Longrightarrow> ps_err ps = PARSE_OK"
  by (auto simp: at_token_def)

lemma at_token_sym:
  assumes "at_token (c # r) ps" "c \<in> set ''|-()~''"
  shows "ps_cp ps = r" "ps_tok ps = (if c = CHR ''|'' then UNION else if c = CHR ''-'' then DIFF
    else if c = CHR ''('' then LP else if c = CHR '')'' then RP else COMPLEMENT)"
  using assms by (auto simp: at_token_def AdvanceToken_def char_classes)

lemma at_token_end: "at_token [] ps \<Longrightarrow> ps_tok ps = END"
  by (auto simp: at_token_def AdvanceToken_def)

lemma at_token_next: "at_token s ps \<Longrightarrow> ps_cp ps = r \<Longrightarrow> at_token r (AdvanceToken ps)"
  using at_token_err unfolding at_token_def by blast

lemma at_token_name:
  assumes "at_token (n @ r) ps" "n \<noteq> []" "list_all isalnum n" "stops r"
  shows "ps_tok ps = NAME" "ps_name ps = n" "ps_cp ps = r"
proof -
  obtain ps0 where p: "ps_err ps0 = PARSE_OK" "ps_cp ps0 = n @ r" "ps = AdvanceToken ps0"
    using assms(1) by (auto simp: at_token_def)
  obtain c m where n: "n = c # m" using assms(2) by (cases n) auto
  have c: "isalnum c" using assms(3) n by simp
  have ns: "\<not> isspace c" "c \<noteq> NUL" "c \<notin> set ''|+-()~''" using c by (auto simp: char_classes)
  have "takeWhile isalnum (n @ r) = n" "dropWhile isalnum (n @ r) = r"
    using assms(3,4) by (auto simp: list_all_iff stops_def takeWhile_append2 dropWhile_append2 takeWhile_eq_Nil_iff)
       (cases r; simp)+
  then show "ps_tok ps = NAME" "ps_name ps = n" "ps_cp ps = r" using p n ns by (simp_all add: AdvanceToken_def)
qed

lemma stops_sym [simp]: "c \<in> set ''|-()~'' \<Longrightarrow> stops (c # r)" "stops []"
  by (auto simp: stops_def char_classes)

lemma parse_shown:
  shows "ok_prim p \<Longrightarrow> stops r \<Longrightarrow> at_token (show_prim p @ r) ps \<Longrightarrow>
      \<exists>ps'. parse_nt Primary ps = Some (mean_prim p, ps') \<and> at_token r ps'"
    and "ok_term t \<Longrightarrow> stops r \<Longrightarrow> at_token (show_term t @ r) ps \<Longrightarrow>
      \<exists>ps'. parse_nt Term ps = parse_nt (TermLoop (mean_term t)) ps' \<and> at_token r ps'"
    and "ok_expr e \<Longrightarrow> (r = [] \<or> hd r \<in> set ''|)'') \<Longrightarrow> at_token (show_expr e @ r) ps \<Longrightarrow>
      \<exists>ps'. parse_nt Expr ps = parse_nt (ExprLoop (mean_expr e)) ps' \<and> at_token r ps'"
proof (induction p and t and e arbitrary: r ps and r ps and r ps)
  case (Atom n)
  have n: "n \<noteq> []" "list_all isalnum n" "feed_value (lower n) \<noteq> None" using Atom.prems(1) by (auto simp: atom_ok_def)
  have tok: "ps_tok ps = NAME" "ps_name ps = n" "ps_cp ps = r"
    using at_token_name [of n r ps] Atom.prems n by auto
  then show ?case using at_token_next [OF Atom.prems(3) tok(3)] at_token_err [OF Atom.prems(3)] n(3)
    by (subst parse_nt.simps) (auto split: option.splits)
next
  case (Compl p)
  have at: "at_token (CHR ''~'' # (show_prim p @ r)) ps" using Compl.prems(3) by simp
  note sym = at_token_sym [OF at]
  have "at_token (show_prim p @ r) (AdvanceToken ps)" using at_token_next [OF at] sym by simp
  then obtain ps' where "parse_nt Primary (AdvanceToken ps) = Some (mean_prim p, ps')" "at_token r ps'"
    using Compl by auto
  then show ?case using sym at_token_err [OF at] by (subst parse_nt.simps) simp
next
  case (Paren e)
  have at: "at_token (CHR ''('' # (show_expr e @ CHR '')'' # r)) ps" using Paren.prems(3) by simp
  note sym = at_token_sym [OF at]
  have "at_token (show_expr e @ CHR '')'' # r) (AdvanceToken ps)" using at_token_next [OF at] sym by simp
  moreover have "ok_expr e" using Paren.prems(1) by simp
  ultimately obtain ps' where ps': "parse_nt Expr (AdvanceToken ps) = parse_nt (ExprLoop (mean_expr e)) ps'" "at_token (CHR '')'' # r) ps'"
    using Paren.IH [of "CHR '')'' # r" "AdvanceToken ps"] by auto
  note sym' = at_token_sym [OF ps'(2)]
  have "parse_nt (ExprLoop (mean_expr e)) ps' = Some (mean_expr e, ps')" using sym' by (subst parse_nt.simps) simp
  then show ?case using sym sym' ps'(1) at_token_err [OF at] at_token_next [OF ps'(2)]
    by (subst parse_nt.simps) simp
next
  case (TPrim p)
  then obtain ps' where "parse_nt Primary ps = Some (mean_prim p, ps')" "at_token r ps'" by auto
  then show ?case using at_token_err by (subst parse_nt.simps) auto
next
  case (TDiff t p)
  have at: "at_token (show_term t @ CHR ''-'' # (show_prim p @ r)) ps" using TDiff.prems(3) by simp
  then obtain ps1 where ps1: "parse_nt Term ps = parse_nt (TermLoop (mean_term t)) ps1" "at_token (CHR ''-'' # (show_prim p @ r)) ps1"
    using TDiff.IH(1) [OF _ _ at] TDiff.prems(1) by auto
  note sym = at_token_sym [OF ps1(2)]
  have "at_token (show_prim p @ r) (AdvanceToken ps1)" using at_token_next [OF ps1(2)] sym by simp
  then obtain ps' where "parse_nt Primary (AdvanceToken ps1) = Some (mean_prim p, ps')" "at_token r ps'"
    using TDiff.IH(2) TDiff.prems by auto
  then show ?case using ps1(1) sym by (subst (asm) parse_nt.simps [of "TermLoop _"]) auto
next
  case (ETerm t)
  have "stops r" using ETerm.prems(2) by (cases r) auto
  then obtain ps' where ps': "parse_nt Term ps = parse_nt (TermLoop (mean_term t)) ps'" "at_token r ps'"
    using ETerm by auto
  have "ps_tok ps' \<noteq> DIFF" using ETerm.prems(2) ps'(2) at_token_sym at_token_end by (cases r) auto
  then have "parse_nt (TermLoop (mean_term t)) ps' = Some (mean_term t, ps')" by (subst parse_nt.simps) simp
  then show ?case using ps' at_token_err by (subst parse_nt.simps) auto
next
  case (EUnion e t)
  have at: "at_token (show_expr e @ CHR ''|'' # (show_term t @ r)) ps" using EUnion.prems(3) by simp
  then obtain ps1 where ps1: "parse_nt Expr ps = parse_nt (ExprLoop (mean_expr e)) ps1" "at_token (CHR ''|'' # (show_term t @ r)) ps1"
    using EUnion.IH(1) [OF _ _ at] EUnion.prems(1) by auto
  note sym = at_token_sym [OF ps1(2)]
  have "at_token (show_term t @ r) (AdvanceToken ps1)" using at_token_next [OF ps1(2)] sym by simp
  moreover have "stops r" using EUnion.prems(2) by (cases r) auto
  ultimately obtain ps' where ps': "parse_nt Term (AdvanceToken ps1) = parse_nt (TermLoop (mean_term t)) ps'" "at_token r ps'"
    using EUnion.IH(2) EUnion.prems(1) by auto
  have "ps_tok ps' \<noteq> DIFF" using EUnion.prems(2) ps'(2) at_token_sym at_token_end by (cases r) auto
  then have "parse_nt (TermLoop (mean_term t)) ps' = Some (mean_term t, ps')" by (subst parse_nt.simps) simp
  then have "parse_nt (ExprLoop (mean_expr e)) ps1 = parse_nt (ExprLoop (mean_expr e OR mean_term t)) ps'"
    using ps'(1) sym at_token_err [OF ps1(2)] by (subst parse_nt.simps) simp
  then show ?case using ps1(1) ps'(2) by auto
qed

lemma show_not_empty: "ok_prim p \<Longrightarrow> show_prim p \<noteq> []" "ok_term t \<Longrightarrow> show_term t \<noteq> []" "ok_expr e \<Longrightarrow> show_expr e \<noteq> []"
  by (induction p and t and e) (auto simp: atom_ok_def)

lemma show_no_NUL:
  "ok_prim p \<Longrightarrow> NUL \<notin> set (show_prim p)" "ok_term t \<Longrightarrow> NUL \<notin> set (show_term t)" "ok_expr e \<Longrightarrow> NUL \<notin> set (show_expr e)"
  by (induction p and t and e) (auto simp: atom_ok_def list_all_iff char_classes)

lemma c_str_id: "NUL \<notin> set s \<Longrightarrow> c_str s = s"
  by (auto simp: c_str_def takeWhile_eq_all_conv)

lemma ft_Parse_show:
  assumes "ok_expr e"
  shows "ft_Parse (show_expr e) result = Some (PARSE_OK, mean_expr e)"
proof -
  define ps where "ps = AdvanceToken \<lparr>ps_err = PARSE_OK, ps_tok = END, ps_name = [], ps_cp = show_expr e\<rparr>"
  have "at_token (show_expr e @ []) ps" unfolding at_token_def ps_def by (intro exI conjI) simp_all
  then obtain ps' where ps': "parse_nt Expr ps = parse_nt (ExprLoop (mean_expr e)) ps'" "at_token [] ps'"
    using parse_shown(3) [OF assms] by blast
  have "parse_nt (ExprLoop (mean_expr e)) ps' = Some (mean_expr e, ps')"
    using at_token_end [OF ps'(2)] by (subst parse_nt.simps) simp
  then show ?thesis
    using ps' at_token_err [OF ps'(2)] at_token_end [OF ps'(2)] show_not_empty(3) [OF assms]
      c_str_id [OF show_no_NUL(3) [OF assms]]
    by (simp add: ft_Parse_def ps_def)
qed


subsection \<open>Formatting and parsing back\<close>

text \<open>\<open>shown s v\<close>: the text \<open>s\<close> is empty, or an expression, of meaning \<open>v\<close>.\<close>

definition shown :: "string \<Rightarrow> feedtype \<Rightarrow> bool" where
  "shown s v \<longleftrightarrow> s = [] \<and> v = 0 \<or> (\<exists>e. ok_expr e \<and> s = show_expr e \<and> mean_expr e = v)"

lemma shown_add:
  assumes "shown s v" "n \<noteq> []" "list_all isalnum n" "feed_value (lower n) = Some t"
  shows "shown ((if s \<noteq> [] then s @ ''|'' else s) @ n) (v OR t)"
proof -
  have at: "ok_prim (Atom n)" using assms(2-4) by (simp add: atom_ok_def)
  show ?thesis
  proof (cases "s = []")
    case True
    then have "v = 0" using assms(1) show_not_empty(3) unfolding shown_def by metis
    then show ?thesis using True at assms(4) unfolding shown_def
      by (intro disjI2 exI [of _ "ETerm (TPrim (Atom n))"]) simp
  next
    case False
    then obtain e where "ok_expr e" "s = show_expr e" "mean_expr e = v" using assms(1) by (auto simp: shown_def)
    then show ?thesis using False at assms(4) unfolding shown_def
      by (intro disjI2 exI [of _ "EUnion e (TPrim (Atom n))"]) simp
  qed
qed

lemma format_loop_shown:
  assumes "n \<le> length FEED_DEFS" "shown s v"
  shows "\<exists>rem' s' v'. format_loop n rem s = Some (rem', s') \<and> shown s' v' \<and> v' OR rem' = v OR rem"
  using assms
proof (induction n arbitrary: rem s v)
  case 0
  then show ?case by auto
next
  case (Suc idx)
  obtain name ty where d: "FEED_DEFS ! idx = (name, ty)" by (cases "FEED_DEFS ! idx")
  have mem: "(name, ty) \<in> set FEED_DEFS" using Suc.prems(1) d by (metis Suc_le_lessD nth_mem)
  have rd: "rd FEED_DEFS idx = Some (name, ty)" using Suc.prems(1) d by simp
  let ?s = "(if s \<noteq> [] then s @ ''|'' else s) @ upper name"
  have sh: "shown ?s (v OR ty)" using shown_add [OF Suc.prems(2)] feed_value_entry [OF mem] by blast
  have bits: "(v OR ty) OR (rem AND NOT ty) = v OR rem" if "ty AND rem = ty"
  proof -
    have "(v OR ty) OR (rem AND NOT ty) = v OR (ty OR rem)" by (rule bit_eqI) (auto simp: bit_simps)
    also have "ty OR rem = rem" by (rule bit_eqI) (metis that bit_or_iff bit_and_iff)
    finally show ?thesis .
  qed
  show ?case
    using Suc.IH [OF _ sh, of "rem AND NOT ty"] Suc.IH [OF _ Suc.prems(2), of rem] Suc.prems rd bits by auto
qed

lemma ft_ToString_Parse:
  "\<exists>s. ft_ToString v = Some s \<and> ft_Parse s result = Some (PARSE_OK, v)"
proof (cases "v = NONE")
  case True
  have m: "(''none'', NONE) \<in> set FEED_DEFS" by (simp add: FEED_DEFS_def)
  have "upper ''none'' = ''NONE''" by code_simp
  then have "ok_expr (ETerm (TPrim (Atom ''NONE'')))" "mean_expr (ETerm (TPrim (Atom ''NONE''))) = NONE"
    using feed_value_entry [OF m] by (simp_all add: atom_ok_def)
  from ft_Parse_show [OF this(1), of result] this(2) show ?thesis using True by (simp add: ft_ToString_def)
next
  case False
  have "Suc (find_any 0 FEED_DEFS) \<le> length FEED_DEFS" by (simp add: find_any_ANY length_FEED_DEFS)
  moreover have "shown [] 0" by (simp add: shown_def)
  ultimately obtain rem s v' where l: "format_loop (Suc (find_any 0 FEED_DEFS)) v [] = Some (rem, s)"
      "shown s v'" "v' OR rem = 0 OR v" using format_loop_shown by blast
  define h where "h = (if rem \<noteq> 0 then s @ (if s = [] then ''0x'' else ''|0x'') @ hexw 8 (unat rem) else s)"
  have st: "ft_ToString v = Some h" using False l(1) by (simp add: ft_ToString_def h_def del: format_loop.simps)
  have "shown h v"
  proof (cases "rem = 0")
    case True
    then show ?thesis using l by (simp add: h_def)
  next
    case False
    have "list_all isalnum (''0x'' @ hexw 8 (unat rem))"
      using hexw_digits by (auto simp: list_all_iff) (simp_all add: char_classes)
    from shown_add [OF l(2) _ this feed_value_hex] l(3) False show ?thesis by (cases "s = []") (auto simp: h_def)
  qed
  then obtain e where "ok_expr e" "h = show_expr e" "mean_expr e = v" using False by (auto simp: shown_def NONE_def)
  then show ?thesis using st ft_Parse_show by blast
qed


subsection \<open>Inputs on which the parser returns, and on which it does not\<close>

definition weight :: "ParseState \<Rightarrow> nat" where
  "weight ps = length (ps_cp ps) + (if ps_tok ps = NAME \<or> ps_tok ps = END then 0 else 1)"

definition no_minus :: "ParseState \<Rightarrow> bool" where
  "no_minus ps \<longleftrightarrow> ps_tok ps \<noteq> DIFF \<and> CHR ''-'' \<notin> set (ps_cp ps)"

primrec rank :: "Nonterminal \<Rightarrow> nat" where
  "rank Primary = 1" | "rank Term = 2" | "rank (TermLoop l) = 0" | "rank Expr = 3" | "rank (ExprLoop l) = 0"

lemma AdvanceToken_weight:
  assumes "ps_err ps = PARSE_OK"
  shows "weight (AdvanceToken ps) \<le> length (ps_cp ps)"
proof -
  obtain d where d: "dropWhile isspace (ps_cp ps) = d" by simp
  have "length d \<le> length (ps_cp ps)" unfolding d [symmetric] by (rule length_dropWhile_le)
  moreover have "length (dropWhile isalnum r) \<le> length r" for r by (rule length_dropWhile_le)
  then have "length (dropWhile isalnum r) \<le> n" if "length r \<le> n" for r n using that by (rule le_trans)
  ultimately show ?thesis using assms unfolding AdvanceToken_def weight_def d
    by (cases d) (simp_all add: Suc_le_eq less_imp_le)
qed

lemma AdvanceToken_no_minus:
  assumes "no_minus ps"
  shows "no_minus (AdvanceToken ps)"
proof -
  have sub: "c \<notin> set (dropWhile P s)" if "c \<notin> set s" for P c and s :: string using that set_dropWhileD by metis
  obtain d where d: "dropWhile isspace (ps_cp ps) = d" by simp
  have "CHR ''-'' \<notin> set d" using assms sub d unfolding no_minus_def by blast
  moreover from this have "CHR ''-'' \<notin> set (dropWhile isalnum d)" by (rule sub)
  ultimately show ?thesis using assms unfolding AdvanceToken_def no_minus_def d by (cases d) (auto simp: NUL_def)
qed

lemma parse_returns:
  assumes "no_minus ps"
  shows "\<exists>v ps'. parse_nt nt ps = Some (v, ps') \<and> no_minus ps' \<and> weight ps' \<le> weight ps"
  using assms
proof (induction "weight ps * 4 + rank nt" arbitrary: nt ps rule: less_induct)
  case less
  have adv: "weight (AdvanceToken ps) \<le> length (ps_cp ps)" if "ps_err ps = PARSE_OK" using AdvanceToken_weight that .
  have advn: "no_minus (AdvanceToken ps)" using AdvanceToken_no_minus less.prems .
  show ?case
  proof (cases nt)
    case Primary
    show ?thesis
    proof (cases "ps_err ps = PARSE_OK")
      case False
      then show ?thesis using Primary less.prems by (subst parse_nt.simps) simp
    next
      case True
      note a = adv [OF True]
      show ?thesis
      proof (cases "ps_tok ps")
        case NAME
        have "no_minus ((AdvanceToken ps)\<lparr>ps_err := e\<rparr>) \<and> weight ((AdvanceToken ps)\<lparr>ps_err := e\<rparr>) \<le> weight ps" for e
          using a advn NAME by (simp add: no_minus_def weight_def)
        moreover have "weight (AdvanceToken ps) \<le> weight ps" using a NAME by (simp add: weight_def)
        ultimately show ?thesis using True Primary NAME advn
          by (subst parse_nt.simps) (auto split: option.splits)
      next
        case COMPLEMENT
        have "weight (AdvanceToken ps) < weight ps" using a COMPLEMENT by (simp add: weight_def)
        with less.hyps [of "AdvanceToken ps" "Nonterminal.Primary"] advn Primary
        obtain v ps' where "parse_nt Nonterminal.Primary (AdvanceToken ps) = Some (v, ps')" "no_minus ps'" "weight ps' \<le> weight ps"
          by fastforce
        then show ?thesis using True Primary COMPLEMENT by (subst parse_nt.simps) simp
      next
        case LP
        have w: "weight (AdvanceToken ps) < weight ps" using a LP by (simp add: weight_def)
        with less.hyps [of "AdvanceToken ps" Expr] advn Primary
        obtain v ps' where r: "parse_nt Expr (AdvanceToken ps) = Some (v, ps')" "no_minus ps'" "weight ps' \<le> weight (AdvanceToken ps)"
          by fastforce
        have "no_minus (ps'\<lparr>ps_err := e\<rparr>) \<and> weight (ps'\<lparr>ps_err := e\<rparr>) \<le> weight ps" for e
          using r w by (simp add: no_minus_def weight_def)
        moreover have "weight (AdvanceToken ps') \<le> weight ps"
          using AdvanceToken_weight [of ps'] r w by (cases "ps_err ps' = PARSE_OK") (auto simp: weight_def AdvanceToken_def)
        ultimately show ?thesis using True Primary LP r AdvanceToken_no_minus [OF r(2)] by (subst parse_nt.simps) auto
      qed (use True Primary less.prems in \<open>(subst parse_nt.simps, simp add: no_minus_def weight_def)+\<close>)
    qed
  next
    case Term
    with less.hyps [of ps Primary] less.prems
    obtain v ps' where r: "parse_nt Primary ps = Some (v, ps')" "no_minus ps'" "weight ps' \<le> weight ps" by auto
    have "parse_nt (TermLoop v) ps' = Some (v, ps')" using r(2) by (subst parse_nt.simps) (simp add: no_minus_def)
    then show ?thesis using r Term by (subst parse_nt.simps) simp
  next
    case (TermLoop l)
    then show ?thesis using less.prems by (subst parse_nt.simps) (simp add: no_minus_def)
  next
    case Expr
    with less.hyps [of ps Term] less.prems
    obtain v ps' where r: "parse_nt Term ps = Some (v, ps')" "no_minus ps'" "weight ps' \<le> weight ps" by auto
    then obtain v' ps'' where "parse_nt (ExprLoop v) ps' = Some (v', ps'')" "no_minus ps''" "weight ps'' \<le> weight ps"
      using less.hyps [of ps' "ExprLoop v"] Expr by fastforce
    then show ?thesis using r Expr by (subst parse_nt.simps) simp
  next
    case (ExprLoop l)
    show ?thesis
    proof (cases "ps_tok ps = UNION \<and> ps_err ps = PARSE_OK")
      case True
      then have w: "weight (AdvanceToken ps) < weight ps" using adv by (simp add: weight_def)
      with less.hyps [of "AdvanceToken ps" Term] advn ExprLoop
      obtain v ps' where r: "parse_nt Term (AdvanceToken ps) = Some (v, ps')" "no_minus ps'" "weight ps' \<le> weight (AdvanceToken ps)"
        by fastforce
      then obtain v' ps'' where "parse_nt (ExprLoop (l OR v)) ps' = Some (v', ps'')" "no_minus ps''" "weight ps'' \<le> weight ps"
        using less.hyps [of ps' "ExprLoop (l OR v)"] w ExprLoop by fastforce
      then show ?thesis using r True ExprLoop by (subst parse_nt.simps) simp
    next
      case False
      then show ?thesis using ExprLoop less.prems advn by (subst parse_nt.simps) (auto simp: AdvanceToken_def)
    qed
  qed
qed

lemma ft_Parse_returns:
  assumes "CHR ''-'' \<notin> set str"
  shows "ft_Parse str result \<noteq> None"
proof -
  have "CHR ''-'' \<notin> set (c_str str)" using assms by (auto simp: c_str_def dest: set_takeWhileD)
  then have "no_minus \<lparr>ps_err = PARSE_OK, ps_tok = END, ps_name = [], ps_cp = c_str str\<rparr>" by (simp add: no_minus_def)
  from parse_returns [OF AdvanceToken_no_minus [OF this], of Expr] show ?thesis by (auto simp: ft_Parse_def Let_def)
qed

text \<open>In the error state the scanner does not move, so the loop of \<open>ParseTerm\<close> sees its minus sign forever.\<close>

lemma parse_in_error:
  assumes "parse_nt nt ps = Some y"
  shows "ps_err ps \<noteq> PARSE_OK \<longrightarrow> (nt = Primary \<longrightarrow> y = (0, ps)) \<and> (ps_tok ps = DIFF \<longrightarrow> (\<forall>l. nt \<noteq> TermLoop l))"
proof (rule parse_nt.raw_induct [where P = "\<lambda>nt ps y. ps_err ps \<noteq> PARSE_OK \<longrightarrow>
    (nt = Primary \<longrightarrow> y = (0, ps)) \<and> (ps_tok ps = DIFF \<longrightarrow> (\<forall>l. nt \<noteq> TermLoop l))", OF _ assms], goal_cases)
  case (1 f nt ps y)
  have same: "AdvanceToken ps = ps" if "ps_err ps \<noteq> PARSE_OK" using that by (simp add: AdvanceToken_def)
  show ?case
  proof (cases nt)
    case (TermLoop l)
    have False if e: "ps_err ps \<noteq> PARSE_OK" "ps_tok ps = DIFF"
    proof -
      obtain v ps' where "f Primary ps = Some (v, ps')" "f (TermLoop (l AND NOT v)) ps' = Some y"
        using 1(2) TermLoop e same by (auto simp: bind_eq_Some_conv)
      with 1(1) e show False by blast
    qed
    then show ?thesis using TermLoop by auto
  qed (use 1(2) in auto)
qed

lemma c_str_Cons: "c \<noteq> NUL \<Longrightarrow> c_str (c # s) = c # c_str s"
  by (simp add: c_str_def)

lemma c_str_append: "NUL \<notin> set a \<Longrightarrow> c_str (a @ b) = a @ c_str b"
  by (induction a) (auto simp: c_str_Cons)

lemma ft_Parse_hangs_spec:
  assumes n: "atom_ok n" and m: "m \<noteq> []" "list_all isalnum m" "feed_value (lower m) = None"
  shows "ft_Parse (n @ ''-'' @ m @ ''-'' @ rest) result = None"
proof -
  define r where "r = c_str rest"
  have al: "NUL \<notin> set n" "NUL \<notin> set m" "NUL \<noteq> CHR ''-''" "n \<noteq> []" "list_all isalnum n"
    using n m(2) by (auto simp: atom_ok_def list_all_iff char_classes)
  then have c: "c_str (n @ ''-'' @ m @ ''-'' @ rest) = n @ CHR ''-'' # m @ CHR ''-'' # r"
    by (simp add: c_str_append c_str_Cons r_def)
  define ps where "ps = AdvanceToken \<lparr>ps_err = PARSE_OK, ps_tok = END, ps_name = [], ps_cp = n @ CHR ''-'' # m @ CHR ''-'' # r\<rparr>"
  have "at_token (n @ CHR ''-'' # m @ CHR ''-'' # r) ps" unfolding at_token_def ps_def by (intro exI conjI) simp_all
  then have "at_token (show_prim (Atom n) @ CHR ''-'' # m @ CHR ''-'' # r) ps" by simp
  then obtain ps1 where ps1: "parse_nt Primary ps = Some (mean_prim (Atom n), ps1)" "at_token (CHR ''-'' # m @ CHR ''-'' # r) ps1"
    using parse_shown(1) [of "Atom n" "CHR ''-'' # m @ CHR ''-'' # r" ps] n by auto
  note sym = at_token_sym [OF ps1(2)]
  define ps2 where "ps2 = AdvanceToken ps1"
  have at2: "at_token (m @ CHR ''-'' # r) ps2" unfolding ps2_def using at_token_next [OF ps1(2)] sym by simp
  have s2: "ps_tok ps2 = NAME" "ps_name ps2 = m" "ps_cp ps2 = CHR ''-'' # r" using at_token_name [OF at2 m(1,2)] by auto
  have at3: "at_token (CHR ''-'' # r) (AdvanceToken ps2)" using at_token_next [OF at2 s2(3)] .
  define ps3 where "ps3 = (AdvanceToken ps2)\<lparr>ps_err := PARSE_ERR_UKFT\<rparr>"
  have p3: "parse_nt Primary ps2 = Some (0, ps3)"
    using s2 m(3) at_token_err [OF at2] by (subst parse_nt.simps) (simp add: ps3_def)
  have "ps_tok ps3 = DIFF" "ps_err ps3 \<noteq> PARSE_OK" using at_token_sym(2) [OF at3] by (simp_all add: ps3_def parse_codes)
  then have "parse_nt (TermLoop l) ps3 = None" for l using parse_in_error [of "TermLoop l" ps3] by (cases "parse_nt (TermLoop l) ps3") auto
  then have "parse_nt (TermLoop (mean_prim (Atom n))) ps1 = None"
    using sym p3 by (subst parse_nt.simps) (simp add: ps2_def)
  then have "parse_nt Expr ps = None" using ps1 at_token_err [OF ps1(2)]
    by (simp add: parse_nt.simps [of Expr] parse_nt.simps [of Term])
  then show ?thesis using al(4) c unfolding ft_Parse_def by (simp add: ps_def)
qed

subsection \<open>Properties\<close>

text \<open>
  C22. A feed type formatted by \<open>ToString\<close> parses back to the same feed type, for every 32-bit mask,
  whatever combination of named and unnamed bits it has.
\<close>

theorem ft_ToString_Parse_roundtrip:
  "\<exists>s. ft_ToString v = Some s \<and> ft_Parse s result = Some (PARSE_OK, v)"
  by (rule ft_ToString_Parse)

text \<open>
  C23. \<open>Parse\<close> computes the meaning of every expression of the grammar: union, left-associative
  difference binding tighter, complement, parentheses, names in any case and numbers.
\<close>

theorem ft_Parse_meaning:
  assumes "ok_expr e"
  shows "ft_Parse (show_expr e) result = Some (PARSE_OK, mean_expr e)"
  using assms by (rule ft_Parse_show)

theorem ft_Parse_meaning_witness:
  "ft_Parse ''Any-(WMO|0x10)'' 0 = Some (PARSE_OK, ANY AND NOT (WMO OR 16))"
proof -
  let ?e = "ETerm (TDiff (TPrim (Atom ''Any'')) (Paren (EUnion (ETerm (TPrim (Atom ''WMO''))) (TPrim (Atom ''0x10'')))))"
  have v: "feed_value (lower ''Any'') = Some ANY" "feed_value (lower ''WMO'') = Some WMO" "feed_value (lower ''0x10'') = Some 16"
    by code_simp+
  have "list_all (list_all isalnum) [''Any'', ''WMO'', ''0x10'']" by code_simp
  then have "ok_expr ?e" using v by (simp add: atom_ok_def del: list.map)
  from ft_Parse_meaning [OF this, of 0] v show ?thesis by (simp del: list.map)
qed

text \<open>
  C24. \<open>Parse\<close> returns on every input without a minus sign, however malformed it is.
\<close>

theorem ft_Parse_terminates:
  assumes "CHR ''-'' \<notin> set str"
  shows "ft_Parse str result \<noteq> None"
  using assms by (rule ft_Parse_returns)

theorem ft_Parse_terminates_witness: "ft_Parse ''(((~wmo'' 5 \<noteq> None"
  by (rule ft_Parse_terminates) simp

text \<open>
  C36. \<open>Parse\<close> never returns on a known name followed by a minus sign, an unknown name and another
  minus sign: the scanner does not move on after an error, and the loop of \<open>ParseTerm\<close> looks only at
  the token.
\<close>

theorem ft_Parse_hangs:
  assumes "atom_ok n" "m \<noteq> []" "list_all isalnum m" "feed_value (lower m) = None"
  shows "ft_Parse (n @ ''-'' @ m @ ''-'' @ rest) result = None"
  using assms by (rule ft_Parse_hangs_spec)

theorem ft_Parse_hangs_witness: "ft_Parse ''any-foo-wmo'' 0 = None"
proof -
  have a: "atom_ok ''any''" "list_all isalnum ''foo''" "feed_value (lower ''foo'') = None" by code_simp+
  from ft_Parse_hangs [OF a(1) _ a(2,3), of "''wmo''" 0] show ?thesis by simp
qed

end
