(* ===== verification/Prod_Class.thy ===== *)
theory Prod_Class
  imports Feed_Type Time_Stamp
begin

text \<open>
  Product metadata and selection: src/core/Pattern.cpp, ProdInfo.h, ProdSpec.h and ProdClass.cpp.

  The regular-expression engine is \<open>std::regex\<close>. It is the argument \<open>re\<close> of the definitions:
  \<open>re icase captures expr\<close> is \<open>None\<close> when compiling \<open>expr\<close> throws, and otherwise a search function
  whose answer is \<open>None\<close> when the search throws, \<open>Some None\<close> when nothing matches and
  \<open>Some (Some gs)\<close> with the matched groups, the whole match first.

  \<open>member\<close> says which products a class describes. \<open>Contains\<close> decides it; the lemmas relate \<open>Intersect\<close>
  and \<open>Optimize\<close> to it.
\<close>

unbundle bit_operations_syntax

subsection \<open>Patterns\<close>

type_synonym matcher = "string \<Rightarrow> string list option option"

type_synonym regex_engine = "bool \<Rightarrow> bool \<Rightarrow> string \<Rightarrow> matcher option"

record Pattern =
  ere :: string
  reg :: matcher
  ignoreCase :: bool
  isMatchAll :: bool
  captures :: bool

fun sanitizeExpression :: "string \<Rightarrow> string" where
  "sanitizeExpression working =
     (if length working > 2 \<and> take 2 working = ''.*'' then sanitizeExpression (drop 2 working) else working)"

declare sanitizeExpression.simps [simp del]

text \<open>The constructor; a match-all pattern keeps a default-constructed expression it never uses.\<close>

definition new_Pattern :: "regex_engine \<Rightarrow> string \<Rightarrow> bool \<Rightarrow> bool \<Rightarrow> Pattern option" where
  "new_Pattern re expr ic cap =
     (if expr = ''.*'' then
        Some \<lparr>ere = ''.*'', reg = (\<lambda>_. Some None), ignoreCase = ic, isMatchAll = True, captures = cap\<rparr>
      else do {
        let e = sanitizeExpression expr;
        r \<leftarrow> re ic cap e;
        Some \<lparr>ere = e, reg = r, ignoreCase = ic, isMatchAll = False, captures = cap\<rparr> })"

definition isMatch :: "Pattern \<Rightarrow> string \<Rightarrow> bool" where
  "isMatch p target \<longleftrightarrow> isMatchAll p \<or> (case reg p target of Some (Some _) \<Rightarrow> True | _ \<Rightarrow> False)"

text \<open>\<open>Pattern::extract\<close> returns whether the pattern matched and the new contents of \<open>matches\<close>.\<close>

definition pat_extract :: "Pattern \<Rightarrow> string \<Rightarrow> string list \<Rightarrow> bool \<times> string list" where
  "pat_extract p target matches =
     (if isMatchAll p then (True, [target])
      else case reg p target of Some (Some gs) \<Rightarrow> (True, gs) | _ \<Rightarrow> (False, matches))"

subsection \<open>Products and classes\<close>

record ProdInfo =
  arrival :: Timestamp
  signature :: "8 word list"
  origin :: string
  pi_feedtype :: feedtype
  seqno :: "32 word"
  ident :: string
  pi_sz :: "32 word"

record ProdSpec =
  sp_feedtype :: feedtype
  sp_pattern :: string

record ProdClass =
  from_sec :: int
  from_usec :: int
  to_sec :: int
  to_usec :: int
  specs :: "ProdSpec list"

definition empty_class :: ProdClass where
  "empty_class = \<lparr>from_sec = 0, from_usec = 0, to_sec = 0, to_usec = 0, specs = []\<rparr>"

text \<open>The comparison loop of \<open>operator==\<close> over the specs, once their numbers agree.\<close>

fun specs_eq :: "ProdSpec list \<Rightarrow> ProdSpec list \<Rightarrow> bool" where
  "specs_eq (a # as) (b # bs) =
     (if sp_feedtype a \<noteq> sp_feedtype b then False
      else if sp_pattern a \<noteq> sp_pattern b then False
      else specs_eq as bs)"
| "specs_eq _ _ = True"

definition pc_eq :: "ProdClass \<Rightarrow> ProdClass \<Rightarrow> bool" where
  "pc_eq a b =
     (if from_sec a \<noteq> from_sec b \<or> from_usec a \<noteq> from_usec b then False
      else if to_sec a \<noteq> to_sec b \<or> to_usec a \<noteq> to_usec b then False
      else if length (specs a) \<noteq> length (specs b) then False
      else specs_eq (specs a) (specs b))"

primrec contains_loop :: "regex_engine \<Rightarrow> ProdInfo \<Rightarrow> ProdSpec list \<Rightarrow> bool option" where
  "contains_loop re info [] = Some False"
| "contains_loop re info (sp # sps) =
     (if pi_feedtype info AND sp_feedtype sp \<noteq> 0 then
        if sp_pattern sp = [] \<or> sp_pattern sp = ''.*'' then Some True
        else do {
          pat \<leftarrow> new_Pattern re (sp_pattern sp) False False;
          if isMatch pat (ident info) then Some True else contains_loop re info sps }
      else contains_loop re info sps)"

definition Contains :: "regex_engine \<Rightarrow> ProdClass \<Rightarrow> ProdInfo \<Rightarrow> bool option" where
  "Contains re c info =
     (if tv_sec (arrival info) < from_sec c \<or>
         (tv_sec (arrival info) = from_sec c \<and> tv_usec (arrival info) < from_usec c) then Some False
      else if tv_sec (arrival info) > to_sec c \<or>
         (tv_sec (arrival info) = to_sec c \<and> tv_usec (arrival info) > to_usec c) then Some False
      else if specs c = [] then Some True
      else contains_loop re info (specs c))"

definition Optimize :: "ProdClass \<Rightarrow> ProdClass" where
  "Optimize c =
     (if specs c = [] then c else c\<lparr>specs := filter (\<lambda>sp. sp_feedtype sp \<noteq> NONE) (specs c)\<rparr>)"

definition intersect_specs :: "ProdSpec list \<Rightarrow> ProdSpec list \<Rightarrow> ProdSpec list" where
  "intersect_specs fs ws =
     concat (map (\<lambda>w. concat (map (\<lambda>f.
       let i = sp_feedtype f AND sp_feedtype w in
       if i \<noteq> NONE then
         (if sp_pattern f = ''.*'' \<or> sp_pattern f = sp_pattern w
          then [\<lparr>sp_feedtype = i, sp_pattern = sp_pattern w\<rparr>] else [])
       else []) fs)) ws)"

definition is_any :: "ProdClass \<Rightarrow> bool" where
  "is_any c \<longleftrightarrow> specs c = [] \<or>
     (length (specs c) = 1 \<and> sp_feedtype (specs c ! 0) = ANY \<and> sp_pattern (specs c ! 0) = ''.*'')"

text \<open>\<open>Intersect\<close> returns its verdict and the new value of \<open>result\<close>.\<close>

definition Intersect :: "ProdClass \<Rightarrow> ProdClass \<Rightarrow> ProdClass \<Rightarrow> bool \<times> ProdClass" where
  "Intersect c want result =
     (if specs c = [] \<and> specs want = [] then (True, want)
      else if from_sec c > to_sec want \<or> (from_sec c = to_sec want \<and> from_usec c > to_usec want) then (False, result)
      else if from_sec want > to_sec c \<or> (from_sec want = to_sec c \<and> from_usec want > to_usec c) then (False, result)
      else
        let r1 = (if from_sec c > from_sec want \<or> (from_sec c = from_sec want \<and> from_usec c > from_usec want)
                  then result\<lparr>from_sec := from_sec c, from_usec := from_usec c\<rparr>
                  else result\<lparr>from_sec := from_sec want, from_usec := from_usec want\<rparr>);
            r2 = (if to_sec c < to_sec want \<or> (to_sec c = to_sec want \<and> to_usec c < to_usec want)
                  then r1\<lparr>to_sec := to_sec c, to_usec := to_usec c\<rparr>
                  else r1\<lparr>to_sec := to_sec want, to_usec := to_usec want\<rparr>)
        in if is_any c then (True, r2\<lparr>specs := specs want\<rparr>)
           else let r3 = r2\<lparr>specs := intersect_specs (specs c) (specs want)\<rparr>
                in (specs r3 \<noteq> [], r3))"

definition GetUnionFeedtype :: "ProdClass \<Rightarrow> feedtype" where
  "GetUnionFeedtype c = foldl (\<lambda>ft sp. ft OR sp_feedtype sp) NONE (specs c)"


subsection \<open>Membership\<close>

abbreviation cfrom :: "ProdClass \<Rightarrow> Timestamp" where "cfrom c \<equiv> Timestamp (from_sec c) (from_usec c)"

abbreviation cto :: "ProdClass \<Rightarrow> Timestamp" where "cto c \<equiv> Timestamp (to_sec c) (to_usec c)"

definition in_time :: "ProdClass \<Rightarrow> ProdInfo \<Rightarrow> bool" where
  "in_time c info \<longleftrightarrow> cfrom c \<le> arrival info \<and> arrival info \<le> cto c"

definition accepts :: "regex_engine \<Rightarrow> ProdSpec \<Rightarrow> ProdInfo \<Rightarrow> bool" where
  "accepts re sp info \<longleftrightarrow> pi_feedtype info AND sp_feedtype sp \<noteq> 0 \<and>
     (sp_pattern sp = [] \<or> (\<exists>p. new_Pattern re (sp_pattern sp) False False = Some p \<and> isMatch p (ident info)))"

definition member :: "regex_engine \<Rightarrow> ProdClass \<Rightarrow> ProdInfo \<Rightarrow> bool" where
  "member re c info \<longleftrightarrow> in_time c info \<and> (specs c = [] \<or> (\<exists>sp \<in> set (specs c). accepts re sp info))"

text \<open>A class all of whose patterns the engine compiles.\<close>

definition compiles :: "regex_engine \<Rightarrow> ProdClass \<Rightarrow> bool" where
  "compiles re c \<longleftrightarrow> (\<forall>sp \<in> set (specs c). sp_pattern sp = [] \<or> new_Pattern re (sp_pattern sp) False False \<noteq> None)"

lemma match_all: "\<exists>p. new_Pattern re ''.*'' ic cap = Some p \<and> isMatch p s"
  by (simp add: new_Pattern_def isMatch_def)

lemma accepts_any: "sp_pattern sp = ''.*'' \<Longrightarrow> accepts re sp info \<longleftrightarrow> pi_feedtype info AND sp_feedtype sp \<noteq> 0"
  using match_all [of re False False "ident info"] by (auto simp: accepts_def)

lemma contains_loop_accepts:
  assumes "\<forall>sp \<in> set sps. sp_pattern sp = [] \<or> new_Pattern re (sp_pattern sp) False False \<noteq> None"
  shows "contains_loop re info sps = Some (\<exists>sp \<in> set sps. accepts re sp info)"
  using assms
proof (induction sps)
  case (Cons sp sps)
  then show ?case
    using accepts_any [of sp re info] by (cases "sp_pattern sp = ''.*''") (auto simp: accepts_def)
qed simp

lemma ts_le_iff: "Timestamp a b \<le> t \<longleftrightarrow> \<not> (tv_sec t < a \<or> (tv_sec t = a \<and> tv_usec t < b))"
  "t \<le> Timestamp a b \<longleftrightarrow> \<not> (tv_sec t > a \<or> (tv_sec t = a \<and> tv_usec t > b))"
  by (cases t; auto simp: not_less [symmetric] less_Timestamp_def)+

lemma Contains_member: "compiles re c \<Longrightarrow> Contains re c info = Some (member re c info)"
  unfolding Contains_def member_def in_time_def ts_le_iff compiles_def
  by (auto simp: contains_loop_accepts)

lemma specs_eq_iff: "length as = length bs \<Longrightarrow> specs_eq as bs \<longleftrightarrow> as = bs"
  by (induction as bs rule: specs_eq.induct) auto

lemma pc_eq_iff: "pc_eq a b \<longleftrightarrow> a = b"
  by (cases a; cases b) (auto simp: pc_eq_def specs_eq_iff)

subsection \<open>Intersection\<close>

lemma in_intersect_specs:
  "sp \<in> set (intersect_specs fs ws) \<longleftrightarrow> (\<exists>w \<in> set ws. \<exists>f \<in> set fs. sp_feedtype f AND sp_feedtype w \<noteq> 0 \<and>
     (sp_pattern f = ''.*'' \<or> sp_pattern f = sp_pattern w) \<and>
     sp = \<lparr>sp_feedtype = sp_feedtype f AND sp_feedtype w, sp_pattern = sp_pattern w\<rparr>)"
  by (auto simp: intersect_specs_def Let_def NONE_def split: if_splits)

lemma ts_compare: "a > c \<or> (a = c \<and> b > d) \<longleftrightarrow> Timestamp c d < Timestamp a b"
  by (auto simp: less_Timestamp_def)

lemma ts_compare': "a < c \<or> (a = c \<and> b < d) \<longleftrightarrow> Timestamp a b < Timestamp c d"
  by (auto simp: less_Timestamp_def)

lemma Intersect_cases:
  assumes "specs c \<noteq> [] \<or> specs want \<noteq> []"
  obtains (disjoint) "cto want < cfrom c \<or> cto c < cfrom want" "Intersect c want result = (False, result)"
  | (overlap) r where "\<not> (cto want < cfrom c \<or> cto c < cfrom want)"
      "Intersect c want result = (is_any c \<or> specs r \<noteq> [], r)"
      "cfrom r = max (cfrom c) (cfrom want)" "cto r = min (cto c) (cto want)"
      "specs r = (if is_any c then specs want else intersect_specs (specs c) (specs want))"
proof (cases "cto want < cfrom c \<or> cto c < cfrom want")
  case True
  then have "Intersect c want result = (False, result)"
    unfolding Intersect_def ts_compare using assms by auto
  then show ?thesis using True disjoint by blast
next
  case False
  define r1 where "r1 = (if cfrom want < cfrom c then result\<lparr>from_sec := from_sec c, from_usec := from_usec c\<rparr>
    else result\<lparr>from_sec := from_sec want, from_usec := from_usec want\<rparr>)"
  define r2 where "r2 = (if cto c < cto want then r1\<lparr>to_sec := to_sec c, to_usec := to_usec c\<rparr>
    else r1\<lparr>to_sec := to_sec want, to_usec := to_usec want\<rparr>)"
  define r where "r = r2\<lparr>specs := if is_any c then specs want else intersect_specs (specs c) (specs want)\<rparr>"
  have "Intersect c want result = (is_any c \<or> specs r \<noteq> [], r)"
    unfolding Intersect_def ts_compare ts_compare' r1_def [symmetric] r2_def [symmetric] Let_def
    using assms False by (auto simp: r_def)
  moreover have "cfrom r = max (cfrom c) (cfrom want)" "cto r = min (cto c) (cto want)"
    by (auto simp: r_def r2_def r1_def max_def min_def)
  ultimately show ?thesis using False overlap [of r] by (simp add: r_def)
qed

lemma in_time_inter:
  assumes "cfrom r = max (cfrom c) (cfrom w)" "cto r = min (cto c) (cto w)"
  shows "in_time r info \<longleftrightarrow> in_time c info \<and> in_time w info"
  using assms by (auto simp: in_time_def)

lemma in_time_overlap: "in_time c info \<Longrightarrow> in_time w info \<Longrightarrow> \<not> (cto w < cfrom c \<or> cto c < cfrom w)"
  unfolding in_time_def by (meson leD order_trans)

lemma and_nonzero_mono:
  fixes a b c :: feedtype
  assumes "a AND (b AND c) \<noteq> 0"
  shows "a AND b \<noteq> 0" "a AND c \<noteq> 0"
  using assms by (metis and.assoc and_zero_eq zero_and_eq, metis and.left_commute and_zero_eq)

lemma intersect_specs_accepts:
  assumes "sp \<in> set (intersect_specs fs ws)" "accepts re sp info"
  shows "(\<exists>f \<in> set fs. accepts re f info) \<and> (\<exists>w \<in> set ws. accepts re w info)"
proof -
  obtain w f where wf: "w \<in> set ws" "f \<in> set fs" "sp_pattern f = ''.*'' \<or> sp_pattern f = sp_pattern w"
      "sp = \<lparr>sp_feedtype = sp_feedtype f AND sp_feedtype w, sp_pattern = sp_pattern w\<rparr>"
    using assms(1) by (auto simp: in_intersect_specs)
  note and_nonzero_mono [of "pi_feedtype info" "sp_feedtype f" "sp_feedtype w"]
  then have "accepts re w info" "accepts re f info"
    using assms(2) wf(3,4) accepts_any [of f re info] by (auto simp: accepts_def)
  then show ?thesis using wf by blast
qed

lemma ANY_minus_1: "ANY = -1"
  by code_simp

lemma and_ANY: "x AND ANY = x"
  unfolding ANY_minus_1 by simp

lemma Intersect_sound_spec:
  assumes "specs c \<noteq> [] \<or> specs want \<noteq> []" "Intersect c want result = (True, r)" "pi_feedtype info \<noteq> 0" "member re r info"
  shows "member re c info \<and> member re want info"
  using assms(1)
proof (cases rule: Intersect_cases [where result = result])
  case disjoint
  then show ?thesis using assms(2) by simp
next
  case (overlap r')
  have r: "r' = r" using overlap(2) assms(2) by simp
  have t: "in_time c info" "in_time want info"
    using in_time_inter [OF overlap(3,4), of info] assms(4) by (auto simp: member_def r)
  show ?thesis
  proof (cases "is_any c")
    case True
    have "accepts re sp info" if "sp_feedtype sp = ANY" "sp_pattern sp = ''.*''" for sp
    proof -
      have "pi_feedtype info AND ANY = pi_feedtype info" by (rule and_ANY)
      then show ?thesis using accepts_any [OF that(2)] that(1) assms(3) by simp
    qed
    then have "member re c info" using True t(1) by (auto simp: member_def is_any_def length_Suc_conv)
    then show ?thesis using True t(2) assms(4) overlap(5) by (simp add: member_def r)
  next
    case False
    then have "specs r \<noteq> []" using overlap(2) assms(2) by (auto simp: r)
    then obtain sp where "sp \<in> set (intersect_specs (specs c) (specs want))" "accepts re sp info"
      using assms(4) overlap(5) False by (auto simp: member_def r)
    then show ?thesis using intersect_specs_accepts t by (auto simp: member_def)
  qed
qed

lemma single_bit:
  fixes a :: feedtype
  assumes "k < 32"
  shows "push_bit k 1 AND a \<noteq> 0 \<longleftrightarrow> bit a k"
proof -
  have "push_bit k 1 AND a = (if bit a k then push_bit k 1 else 0)"
    by (rule bit_eqI) (auto simp: bit_simps)
  moreover have "push_bit k 1 \<noteq> (0 :: feedtype)" using assms by (simp add: push_bit_eq_0_iff)
  ultimately show ?thesis by simp
qed

lemma Intersect_exact_spec:
  assumes "specs want \<noteq> []" "\<forall>f \<in> set (specs c). sp_pattern f = ''.*''"
    and "pi_feedtype info = push_bit k 1" "k < 32"
  shows "(case Intersect c want result of (ok, r) \<Rightarrow> ok \<and> member re r info) \<longleftrightarrow> member re c info \<and> member re want info"
proof
  have "pi_feedtype info \<noteq> 0" using assms(3,4) by (simp add: push_bit_eq_0_iff)
  then show "member re c info \<and> member re want info" if "case Intersect c want result of (ok, r) \<Rightarrow> ok \<and> member re r info"
    using Intersect_sound_spec [of c want result "snd (Intersect c want result)" info re] assms(1) that
    by (auto split: prod.splits)
next
  assume m: "member re c info \<and> member re want info"
  then have t: "in_time c info" "in_time want info" by (auto simp: member_def)
  have "specs c \<noteq> [] \<or> specs want \<noteq> []" using assms(1) by simp
  then show "case Intersect c want result of (ok, r) \<Rightarrow> ok \<and> member re r info"
  proof (cases rule: Intersect_cases [where result = result])
    case disjoint
    then show ?thesis using in_time_overlap [OF t] by blast
  next
    case (overlap r)
    have tr: "in_time r info" using in_time_inter [OF overlap(3,4)] t by blast
    show ?thesis
    proof (cases "is_any c")
      case True
      then show ?thesis using overlap(2,5) m tr by (simp add: member_def)
    next
      case False
      then obtain f w where fw: "f \<in> set (specs c)" "accepts re f info" "w \<in> set (specs want)" "accepts re w info"
        using m assms(1) by (auto simp: member_def is_any_def)
      let ?sp = "\<lparr>sp_feedtype = sp_feedtype f AND sp_feedtype w, sp_pattern = sp_pattern w\<rparr>"
      have "bit (sp_feedtype f AND sp_feedtype w) k"
        using fw(2,4) single_bit [OF assms(4)] assms(3) by (simp add: accepts_def bit_and_iff)
      then have "sp_feedtype f AND sp_feedtype w \<noteq> 0" "accepts re ?sp info"
        using fw(4) single_bit [OF assms(4), of "sp_feedtype f AND sp_feedtype w"] assms(3)
        by (auto simp: accepts_def)
      moreover from this(1) have "?sp \<in> set (specs r)"
        unfolding overlap(5) using False fw(1,3) assms(2) by (auto simp: in_intersect_specs)
      ultimately show ?thesis using overlap(2) tr by (auto simp: member_def)
    qed
  qed
qed

subsection \<open>Optimisation\<close>

lemma not_accepts_NONE: "sp_feedtype sp = NONE \<Longrightarrow> \<not> accepts re sp info"
  by (simp add: accepts_def NONE_def)

lemma Optimize_spec:
  shows "(\<exists>sp \<in> set (specs c). sp_feedtype sp \<noteq> NONE) \<or> specs c = [] \<Longrightarrow> member re (Optimize c) info \<longleftrightarrow> member re c info"
    and "specs c \<noteq> [] \<Longrightarrow> \<forall>sp \<in> set (specs c). sp_feedtype sp = NONE \<Longrightarrow>
      \<not> member re c info \<and> (member re (Optimize c) info \<longleftrightarrow> in_time c info)"
  using not_accepts_NONE [of _ re info]
  by (auto simp: Optimize_def member_def in_time_def filter_empty_conv)

subsection \<open>Properties\<close>

text \<open>
  C25. Every product of the class \<open>Intersect\<close> computes belongs to both classes, whatever their patterns,
  unless both classes are without specs.
\<close>

theorem Intersect_sound:
  assumes "specs c \<noteq> [] \<or> specs want \<noteq> []" "Intersect c want result = (True, r)" "pi_feedtype info \<noteq> 0" "member re r info"
  shows "member re c info \<and> member re want info"
  using assms by (rule Intersect_sound_spec)

definition demo_class :: "feedtype \<Rightarrow> string \<Rightarrow> int \<Rightarrow> ProdClass" where
  "demo_class ft pat t = \<lparr>from_sec = 0, from_usec = 0, to_sec = t, to_usec = 0, specs = [\<lparr>sp_feedtype = ft, sp_pattern = pat\<rparr>]\<rparr>"

definition demo_info :: ProdInfo where
  "demo_info = \<lparr>arrival = Timestamp 50 0, signature = replicate 16 0, origin = ''src'', pi_feedtype = FT2, seqno = 0,
     ident = ''SDUS52'', pi_sz = 100\<rparr>"

text \<open>A concrete engine: a pattern matches where it is a prefix of the target.\<close>

definition prefix_engine :: regex_engine where
  "prefix_engine ic cap e = Some (\<lambda>s. Some (if take (length e) s = e then Some [e] else None))"

lemma demo_member: "member prefix_engine (demo_class (FT2 AND WMO) ''SDUS'' 100) demo_info"
proof -
  have "FT2 AND (FT2 AND WMO) \<noteq> 0" by code_simp
  then show ?thesis
    by (simp add: member_def in_time_def demo_class_def demo_info_def accepts_def new_Pattern_def isMatch_def
        prefix_engine_def sanitizeExpression.simps Let_def less_eq_Timestamp_def less_Timestamp_def)
qed

theorem Intersect_sound_witness:
  "\<exists>r. Intersect (demo_class FT2 ''.*'' 100) (demo_class WMO ''SDUS'' 200) empty_class = (True, r) \<and>
     member prefix_engine (demo_class FT2 ''.*'' 100) demo_info \<and> member prefix_engine (demo_class WMO ''SDUS'' 200) demo_info"
proof -
  have "Intersect (demo_class FT2 ''.*'' 100) (demo_class WMO ''SDUS'' 200) empty_class =
      (True, demo_class (FT2 AND WMO) ''SDUS'' 100)"
    by code_simp
  moreover have "pi_feedtype demo_info \<noteq> 0" by (simp add: demo_info_def FT2_def)
  ultimately show ?thesis
    using Intersect_sound [OF _ _ _ demo_member, of "demo_class FT2 ''.*'' 100" "demo_class WMO ''SDUS'' 200" empty_class]
    by (simp add: demo_class_def)
qed

text \<open>
  C26. For a product of a single feed type and a filter without patterns \<open>Intersect\<close> is exact: it
  succeeds with a class the product belongs to if and only if the product belongs to both classes.
\<close>

theorem Intersect_exact:
  assumes "specs want \<noteq> []" "\<forall>f \<in> set (specs c). sp_pattern f = ''.*''"
    and "pi_feedtype info = push_bit k 1" "k < 32"
  shows "(case Intersect c want result of (ok, r) \<Rightarrow> ok \<and> member re r info) \<longleftrightarrow> member re c info \<and> member re want info"
  using assms by (rule Intersect_exact_spec)

theorem Intersect_exact_witness:
  "(case Intersect (demo_class FT2 ''.*'' 100) (demo_class WMO ''SDUS'' 200) empty_class of (ok, r) \<Rightarrow>
      ok \<and> member prefix_engine r demo_info) \<longleftrightarrow>
   member prefix_engine (demo_class FT2 ''.*'' 100) demo_info \<and> member prefix_engine (demo_class WMO ''SDUS'' 200) demo_info"
proof (rule Intersect_exact [where k = 2])
  show "pi_feedtype demo_info = push_bit 2 1" by (simp add: demo_info_def FT2_def)
qed (simp_all add: demo_class_def)

text \<open>
  C34. \<open>Optimize\<close> keeps the products of a class that has a spec with a feed type, or none at all. A class
  whose specs all lack feed types describes no product, but its optimised form describes every product
  of its period.
\<close>

theorem Optimize_members:
  "((\<exists>sp \<in> set (specs c). sp_feedtype sp \<noteq> NONE) \<or> specs c = [] \<longrightarrow> (member re (Optimize c) info \<longleftrightarrow> member re c info)) \<and>
   (specs c \<noteq> [] \<and> (\<forall>sp \<in> set (specs c). sp_feedtype sp = NONE) \<longrightarrow>
      \<not> member re c info \<and> (member re (Optimize c) info \<longleftrightarrow> in_time c info))"
  using Optimize_spec by blast

theorem Optimize_members_witness:
  "member prefix_engine (Optimize (demo_class NONE ''SDUS'' 100)) demo_info \<and> \<not> member prefix_engine (demo_class NONE ''SDUS'' 100) demo_info"
  using Optimize_members [of "demo_class NONE ''SDUS'' 100" prefix_engine demo_info]
  by (simp add: demo_class_def demo_info_def in_time_def less_eq_Timestamp_def less_Timestamp_def)

end
