(* ===== verification/Queue_Index.thy ===== *)
theory Queue_Index
  imports Queue_Layout Prod_Class
begin

text \<open>
  The index manager of the product queue and its statistics. It keeps four tables in one section of the file: the
  regions of the data section, the products in time order, the products by signature, and the arena that holds the
  towers of the skip lists of the first two. The operations delete old products, find room for a new one, give it back,
  and find a product by its signature.
\<close>

subsection \<open>State\<close>

text \<open>The status codes of the queue.\<close>

definition PQ_End :: int where "PQ_End = -1"
definition PQ_Dup :: int where "PQ_Dup = -2"
definition PQ_Big :: int where "PQ_Big = -3"
definition PQ_System :: int where "PQ_System = -4"
definition PQ_Locked :: int where "PQ_Locked = -5"
definition PQ_Corrupt :: int where "PQ_Corrupt = -6"
definition PQ_NotFound :: int where "PQ_NotFound = -7"
definition PQ_Invalid :: int where "PQ_Invalid = -8"

text \<open>
  The manager. Its pointers to the control header and to the tables are set together by \<open>LayoutExisting\<close> and reset
  together by \<open>Clear\<close>: they are null exactly when \<open>ixp\<close> is 0, and the fields of the tables stand for the mapped
  memory. (\<open>loadControlRegion\<close> passes no header to \<open>LayoutExisting\<close>; \<open>open\<close> clears the manager before it is used.)
  \<open>rnd\<close> is the state of the generator that the arena draws levels from.
\<close>

record QueueIndexManager =
  ixp :: nat
  mgr_ixsz :: nat
  mgr_nalloc :: nat
  ctlp :: pqctl
  rlp :: RegionList
  tqp :: TimeQueue
  sxp :: SignatureIndex
  fbp :: FreeBlock
  smallest_extent_seen :: nat
  rnd :: rng

text \<open>
  The two callbacks of the operations. \<open>decodeFunc\<close> maps and locks a region of the file and decodes the metadata in
  it; other processes hold locks, so its answer may differ from call to call: its first argument counts the calls.
  \<open>mvrtFunc\<close> gets the time and the metadata of a product that was just deleted.
\<close>

type_synonym decoder = "nat \<Rightarrow> int \<Rightarrow> nat \<Rightarrow> int \<times> ProdInfo"
type_synonym mvrt_hook = "nat \<Rightarrow> Timestamp \<Rightarrow> ProdInfo \<Rightarrow> QueueIndexManager \<Rightarrow> pqctl"

subsection \<open>Statistics\<close>

definition TrackAllocation :: "int \<Rightarrow> nat \<Rightarrow> QueueIndexManager \<Rightarrow> QueueIndexManager" where
  "TrackAllocation offset allocatedExtent ix =
     (if ixp ix = 0 then ix else
      let ctl = ctlp ix;
          rl = rlp ix;
          hw = offset + to_off allocatedExtent - datao ctl;
          ctl1 = (if hw > highwater ctl then ctl\<lparr>highwater := hw\<rparr> else ctl);
          ctl2 = (if rl_nelems rl > maxproducts ctl1 then ctl1\<lparr>maxproducts := rl_nelems rl\<rparr> else ctl1);
          n = sz_add (nbytes rl) allocatedExtent;
          rl1 = rl\<lparr>nbytes := n, maxbytes := (if n > maxbytes rl then n else maxbytes rl)\<rparr>
      in ix\<lparr>ctlp := ctl2, rlp := rl1\<rparr>)"

definition TrackMvrt :: "Timestamp \<Rightarrow> Timestamp \<Rightarrow> Timestamp \<Rightarrow> QueueIndexManager \<Rightarrow> pqctl" where
  "TrackMvrt now creationTime receptionTime ix =
     (if ixp ix = 0 then ctlp ix else
      let ctl = ctlp ix;
          creatPtr = (if receptionTime < creationTime then receptionTime else creationTime)
      in if creatPtr < now then
           let virtResTime = ts_sub now creatPtr
           in if minVirtResTime ctl = TS_NONE \<or> virtResTime < minVirtResTime ctl
              then ctl\<lparr>minVirtResTime := virtResTime, mvrtSize := to_off (nbytes (rlp ix)), mvrtSlots := rl_nelems (rlp ix)\<rparr>
              else ctl
         else ctl)"

definition MarkMostRecent :: "Timestamp \<Rightarrow> QueueIndexManager \<Rightarrow> QueueIndexManager" where
  "MarkMostRecent now ix = (if ixp ix = 0 then ix else ix\<lparr>ctlp := (ctlp ix)\<lparr>mostRecent := now\<rparr>\<rparr>)"

definition ClearMvrt :: "QueueIndexManager \<Rightarrow> QueueIndexManager" where
  "ClearMvrt ix =
     (if ixp ix = 0 then ix
      else ix\<lparr>ctlp := (ctlp ix)\<lparr>minVirtResTime := TS_NONE, mvrtSize := -1, mvrtSlots := 0\<rparr>\<rparr>)"

text \<open>The output parameters keep their values when nothing is mapped.\<close>

definition GetMvrt :: "QueueIndexManager \<Rightarrow> Timestamp \<times> int \<times> nat \<Rightarrow> Timestamp \<times> int \<times> nat" where
  "GetMvrt ix out =
     (if ixp ix = 0 then out else
      let ctl = ctlp ix in
        (if metrics_magic ctl = METRICS_MAGIC then minVirtResTime ctl else TS_NONE,
         if metrics_magic_2 ctl = METRICS_MAGIC_2 then mvrtSize ctl else -1,
         if metrics_magic_2 ctl = METRICS_MAGIC_2 then mvrtSlots ctl else 0))"

subsection \<open>Layout and formatting\<close>

definition mgr_Clear :: "QueueIndexManager \<Rightarrow> QueueIndexManager" where
  "mgr_Clear ix = ix\<lparr>ixp := 0, mgr_ixsz := 0, mgr_nalloc := 0, smallest_extent_seen := SIZE_NONE\<rparr>"

text \<open>The tables that \<open>ix\<close> holds are the memory at the places that \<open>ix_ptrs\<close> computes.\<close>

definition LayoutExisting :: "bool \<Rightarrow> pqctl \<Rightarrow> nat \<Rightarrow> nat \<Rightarrow> nat \<Rightarrow> nat \<Rightarrow> QueueIndexManager \<Rightarrow> (int \<times> QueueIndexManager) option" where
  "LayoutExisting ndebug ctl indexRegion isz nalloc align ix =
     (if indexRegion = 0 then Some (EINVAL, ix)
      else do {
        let ix1 = ix\<lparr>ctlp := ctl, ixp := indexRegion, mgr_ixsz := isz, mgr_nalloc := nalloc\<rparr>;
        (ok, _) \<leftarrow> ix_ptrs ndebug indexRegion isz nalloc align;
        if ok = 0 then Some (PQ_Corrupt, mgr_Clear ix1) else Some (0, ix1) })"

definition FormatNew :: "bool \<Rightarrow> pqctl \<Rightarrow> nat \<Rightarrow> nat \<Rightarrow> nat \<Rightarrow> nat \<Rightarrow> int \<Rightarrow> int \<Rightarrow> QueueIndexManager \<Rightarrow> (int \<times> QueueIndexManager) option" where
  "FormatNew ndebug ctl indexRegion isz nalloc align dOffset iOffset ix0 =
     (if indexRegion = 0 then Some (EINVAL, ix0)
      else do {
        (status, ix) \<leftarrow> LayoutExisting ndebug ctl indexRegion isz nalloc align ix0;
        if status \<noteq> 0 then Some (status, ix)
        else do {
          fb \<leftarrow> FreeBlock_Initialize (mgr_nalloc ix) (fbp ix);
          (tq, fb1) \<leftarrow> tq_Initialize (mgr_nalloc ix) (tqp ix) fb;
          (rl, fb2) \<leftarrow> rl_Initialize (mgr_nalloc ix) (rlp ix) fb1;
          let initialExtent = to_size (iOffset - dOffset);
          (root, rl1, fb3, r1) \<leftarrow> rl_Add dOffset initialExtent rl fb2 (rnd ix);
          let ix1 = ix\<lparr>fbp := fb3, tqp := tq, rlp := rl1, rnd := r1\<rparr>;
          case root of
            None \<Rightarrow> Some (ENOMEM, ix1)
          | Some _ \<Rightarrow> do {
              sx \<leftarrow> sx_Initialize (mgr_nalloc ix) (sxp ix);
              Some (0, ix1\<lparr>rlp := rl1\<lparr>maxfextent := initialExtent\<rparr>, sxp := sx\<rparr>) } } })"

subsection \<open>Deleting products\<close>

definition TryDeleteProduct :: "nat \<Rightarrow> nat \<Rightarrow> (int \<Rightarrow> nat \<Rightarrow> int \<times> ProdInfo) \<Rightarrow> QueueIndexManager \<Rightarrow> (int \<times> ProdInfo option \<times> QueueIndexManager) option" where
  "TryDeleteProduct t rlix dec ix = do {
     rep \<leftarrow> rd (rp (rlp ix)) rlix;
     te \<leftarrow> rd (tqep (tqp ix)) t;
     if rg_offset rep \<noteq> te_offset te then Some (PQ_Corrupt, None, ix)
     else do {
       let (status, info) = dec (rg_offset rep) (GetExtent rep);
       if status \<noteq> 0 then Some (status, Some info, ix)
       else do {
         (removed, sx) \<leftarrow> sx_Remove (signature info) (sxp ix);
         if \<not> removed then Some (PQ_Corrupt, Some info, ix\<lparr>sxp := sx\<rparr>)
         else do {
           (tq, fb) \<leftarrow> tq_Delete t (tqp ix) (fbp ix);
           (rl, fb1, r) \<leftarrow> rl_Free rlix (rlp ix) fb (rnd ix);
           Some (0, Some info, ix\<lparr>sxp := sx, tqp := tq, rlp := rl, fbp := fb1, rnd := r\<rparr>) } } } }"

text \<open>
  The loop of \<open>DeleteOldest\<close> at the element \<open>t\<close>, the null pointer as \<open>None\<close>. The result carries the number of calls
  of the decoder.
\<close>

partial_function (option) DeleteOldest_loop :: "decoder \<Rightarrow> mvrt_hook \<Rightarrow> nat \<Rightarrow> nat option \<Rightarrow> int \<Rightarrow> QueueIndexManager \<Rightarrow> (int \<times> nat \<times> QueueIndexManager) option" where
  "DeleteOldest_loop decodeFunc mvrtFunc k t status ix =
     (case t of
        None \<Rightarrow> Some (status, k, ix)
      | Some q \<Rightarrow> do {
          te \<leftarrow> rd (tqep (tqp ix)) q;
          rlix \<leftarrow> rl_Find (te_offset te) (rlp ix);
          if rlix = RL_NONE then Some (status, k, ix)
          else do {
            (status', info, ix') \<leftarrow> TryDeleteProduct q rlix (decodeFunc k) ix;
            if status' = 0 then do {
              let ix1 = ix'\<lparr>ctlp := (ctlp ix')\<lparr>isFull := 1\<rparr>\<rparr>;
              Some (0, Suc k, ix1\<lparr>ctlp := mvrtFunc k (te_tv te) (the info) ix1\<rparr>) }
            else if status' \<noteq> EACCES then Some (status', Suc k, ix')
            else do {
              nxt \<leftarrow> tq_Next q (tqp ix') (fbp ix');
              DeleteOldest_loop decodeFunc mvrtFunc (Suc k) (Some nxt) status' ix' } } })"

declare DeleteOldest_loop.simps [code]

definition DeleteOldest :: "decoder \<Rightarrow> mvrt_hook \<Rightarrow> nat \<Rightarrow> QueueIndexManager \<Rightarrow> (int \<times> nat \<times> QueueIndexManager) option" where
  "DeleteOldest decodeFunc mvrtFunc k ix = do {
     t \<leftarrow> tq_First (tqp ix) (fbp ix);
     DeleteOldest_loop decodeFunc mvrtFunc k t EACCES ix }"

partial_function (option) MakeSpace :: "nat \<Rightarrow> decoder \<Rightarrow> mvrt_hook \<Rightarrow> nat \<Rightarrow> QueueIndexManager \<Rightarrow> (int \<times> nat \<times> nat \<times> QueueIndexManager) option" where
  "MakeSpace extent decodeFunc mvrtFunc k ix =
     (if rl_nelems (rlp ix) = 0 then Some (ENOMEM, RL_NONE, k, ix)
      else do {
        (status, k', ix') \<leftarrow> DeleteOldest decodeFunc mvrtFunc k ix;
        if status \<noteq> 0 then Some (status, RL_NONE, k', ix')
        else do {
          (rlix, rl, fb) \<leftarrow> rl_Get extent (rlp ix') (fbp ix');
          let ix1 = ix'\<lparr>rlp := rl, fbp := fb\<rparr>;
          if rlix = RL_NONE then MakeSpace extent decodeFunc mvrtFunc k' ix1
          else Some (0, rlix, k', ix1) } })"

declare MakeSpace.simps [code]

partial_function (option) MakeSlot :: "decoder \<Rightarrow> mvrt_hook \<Rightarrow> nat \<Rightarrow> QueueIndexManager \<Rightarrow> (int \<times> nat \<times> QueueIndexManager) option" where
  "MakeSlot decodeFunc mvrtFunc k ix =
     (if rl_nelems (rlp ix) = 0 then Some (ENOMEM, k, ix)
      else do {
        (status, k', ix') \<leftarrow> DeleteOldest decodeFunc mvrtFunc k ix;
        if status \<noteq> 0 then Some (status, k', ix')
        else if \<not> rl_HasSpace (rlp ix') then MakeSlot decodeFunc mvrtFunc k' ix'
        else Some (0, k', ix') })"

declare MakeSlot.simps [code]

definition FreeByOffset :: "int \<Rightarrow> Signature \<Rightarrow> QueueIndexManager \<Rightarrow> (int \<times> QueueIndexManager) option" where
  "FreeByOffset offset sig ix = do {
     rlix \<leftarrow> rl_Find offset (rlp ix);
     if rlix = RL_NONE then Some (EINVAL, ix)
     else do {
       rep \<leftarrow> rd (rp (rlp ix)) rlix;
       if IsFree rep then Some (EINVAL, ix)
       else do {
         (removed, sx) \<leftarrow> sx_Remove sig (sxp ix);
         if \<not> removed then Some (EINVAL, ix\<lparr>sxp := sx\<rparr>)
         else do {
           (rl, fb, r) \<leftarrow> rl_Free rlix (rlp ix) (fbp ix) (rnd ix);
           Some (0, ix\<lparr>sxp := sx, rlp := rl, fbp := fb, rnd := r\<rparr>) } } } }"

subsection \<open>Room for a product\<close>

text \<open>
  The second half of \<open>AllocateProductSpace\<close>: the region in the slot \<open>rlix\<close> has been taken out of the free space. The
  offset and the extent of the region are the output parameters, \<open>None\<close> where they are not assigned.
\<close>

definition enter_region :: "nat \<Rightarrow> Signature \<Rightarrow> nat \<Rightarrow> QueueIndexManager \<Rightarrow> (int \<times> (int \<times> nat) option \<times> QueueIndexManager) option" where
  "enter_region extent sig rlix ix = do {
     hit \<leftarrow> rd (rp (rlp ix)) rlix;
     (status, rl, fb, r) \<leftarrow>
       (if sz_add (sz_add extent (smallest_extent_seen ix)) 64 < GetExtent hit
        then Split rlix extent (rlp ix) (fbp ix) (rnd ix) else Some (0, rlp ix, fbp ix, rnd ix));
     if status \<noteq> 0 then do {
       (rl1, fb1, r1) \<leftarrow> rl_Put rlix rl fb r;
       Some (status, None, ix\<lparr>rlp := rl1, fbp := fb1, rnd := r1\<rparr>) }
     else do {
       hit1 \<leftarrow> rd (rp rl) rlix;
       rps \<leftarrow> wr (rp rl) rlix (SetAlloc hit1);
       rl1 \<leftarrow> AddToHash rlix (rl\<lparr>rp := rps\<rparr>);
       hit2 \<leftarrow> rd (rp rl1) rlix;
       (sxe, sx) \<leftarrow> sx_Add sig (rg_offset hit2) (sxp ix);
       if sxe = None then do {
         rl2 \<leftarrow> RemoveFromHash rlix rl1;
         hit3 \<leftarrow> rd (rp rl2) rlix;
         rps2 \<leftarrow> wr (rp rl2) rlix (ClearAlloc hit3);
         (rl3, fb3, r3) \<leftarrow> rl_Put rlix (rl2\<lparr>rp := rps2\<rparr>) fb r;
         Some (ENOMEM, None, ix\<lparr>rlp := rl3, fbp := fb3, rnd := r3, sxp := sx\<rparr>) }
       else Some (0, Some (rg_offset hit2, GetExtent hit2), ix\<lparr>rlp := rl1, fbp := fb, rnd := r, sxp := sx\<rparr>) } }"

definition AllocateProductSpace ::
  "nat \<Rightarrow> Signature \<Rightarrow> decoder \<Rightarrow> mvrt_hook \<Rightarrow> nat \<Rightarrow> QueueIndexManager \<Rightarrow> (int \<times> (int \<times> nat) option \<times> nat \<times> QueueIndexManager) option" where
  "AllocateProductSpace extent0 sig decodeFunc mvrtFunc k ix = do {
     found \<leftarrow> sx_Find sig (sxp ix);
     if found \<noteq> None then Some (PQ_Dup, None, k, ix)
     else do {
       (st1, k1, ix1) \<leftarrow> (if \<not> rl_HasSpace (rlp ix) then MakeSlot decodeFunc mvrtFunc k ix else Some (0, k, ix));
       if st1 \<noteq> 0 then Some (st1, None, k1, ix1)
       else do {
         extent \<leftarrow> roundUp extent0 (ctl_align (ctlp ix1));
         let ix2 = (if extent < smallest_extent_seen ix1 then ix1\<lparr>smallest_extent_seen := extent\<rparr> else ix1);
         (rlix0, rl, fb) \<leftarrow> rl_Get extent (rlp ix2) (fbp ix2);
         let ix3 = ix2\<lparr>rlp := rl, fbp := fb\<rparr>;
         (st4, rlix, k4, ix4) \<leftarrow>
           (if rlix0 = RL_NONE then MakeSpace extent decodeFunc mvrtFunc k1 ix3 else Some (0, rlix0, k1, ix3));
         if st4 \<noteq> 0 then Some (st4, None, k4, ix4)
         else do {
           (st5, out, ix5) \<leftarrow> enter_region extent sig rlix ix4;
           Some (st5, out, k4, ix5) } } } }"

subsection \<open>Finding a product\<close>

text \<open>
  The loop returns on every path, so the fall-back after it in the source is never reached and has no counterpart.
\<close>

partial_function (option) FindTimeEntry_loop :: "int \<Rightarrow> nat \<Rightarrow> QueueIndexManager \<Rightarrow> (int \<times> nat option) option" where
  "FindTimeEntry_loop offset timeEntry ix = do {
     te \<leftarrow> rd (tqep (tqp ix)) timeEntry;
     if te_offset te = -1 then Some (PQ_NotFound, None)
     else if te_offset te = offset then Some (0, Some timeEntry)
     else do {
       nxt \<leftarrow> tq_Next timeEntry (tqp ix) (fbp ix);
       FindTimeEntry_loop offset nxt ix } }"

declare FindTimeEntry_loop.simps [code]

text \<open>\<open>interval\<close> is the answer of the registry to \<open>getSystemInterval\<close>.\<close>

definition FindTimeEntryBySignature ::
  "nat \<Rightarrow> Signature \<Rightarrow> (int \<Rightarrow> nat \<Rightarrow> int \<times> ProdInfo) \<Rightarrow> QueueIndexManager \<Rightarrow> (int \<times> nat option) option" where
  "FindTimeEntryBySignature interval sig dec ix = do {
     found \<leftarrow> sx_Find sig (sxp ix);
     case found of
       None \<Rightarrow> Some (PQ_NotFound, None)
     | Some e \<Rightarrow> do {
         entry \<leftarrow> rd (sxep (sxp ix)) e;
         rlix \<leftarrow> rl_Find (se_offset entry) (rlp ix);
         if rlix = RL_NONE then Some (PQ_Corrupt, None)
         else do {
           rep \<leftarrow> rd (rp (rlp ix)) rlix;
           let (status, info) = dec (rg_offset rep) (GetExtent rep);
           if status \<noteq> 0 then Some (PQ_Corrupt, None)
           else do {
             let searchTime = Timestamp (tv_sec (arrival info) - int interval) (tv_usec (arrival info));
             lt \<leftarrow> tq_Find searchTime LessThan (tqp ix) (fbp ix);
             eq \<leftarrow> (if lt = None then tq_Find searchTime Equal (tqp ix) (fbp ix) else Some lt);
             gt \<leftarrow> (if eq = None then tq_Find searchTime GreaterThan (tqp ix) (fbp ix) else Some eq);
             case gt of
               None \<Rightarrow> Some (PQ_Corrupt, None)
             | Some timeEntry \<Rightarrow> FindTimeEntry_loop (se_offset entry) timeEntry ix } } } }"

end
