(* ===== verification/Queue_Compose.thy ===== *)
theory Queue_Compose
  imports Queue_Index
begin

text \<open>
  The index of the product queue as a whole: the four tables of \<open>Queue_Index\<close> stand for one abstract queue, and the
  operations of the index manager implement the operations of that queue.

  The towers of the time queue lie in the arena of the region list; for the region list they are guests. A state of
  the time queue is described by its guests alone, so the operations of the region list, which keep every guest, keep
  the time queue; the operations of the time queue in turn change only its own towers.
\<close>

subsection \<open>The time queue as a guest of the arena\<close>

definition tq_guest :: "TimeQueue \<Rightarrow> FreeBlock \<Rightarrow> (nat \<rightharpoonup> nat) \<Rightarrow> nat list \<Rightarrow> guests" where
  "tq_guest tq fb A L =
     (maxsize fb, \<lambda>b. if b \<in> tq_towers tq L then map_option (\<lambda>n. map (\<lambda>i. fblks fb ! (b + i)) [0..<n]) (A b) else None)"

definition tq_in :: "guests \<Rightarrow> TimeQueue \<Rightarrow> nat list \<Rightarrow> (nat \<Rightarrow> nat) \<Rightarrow> bool" where
  "tq_in G tq L h \<longleftrightarrow> dom (snd G) = tq_towers tq L \<and> te_offset (tqep tq ! TQ_NIL) = -1 \<and> tq_nfree tq + length L = tq_nalloc tq \<and>
     (\<forall>fb A. fb_inv fb A \<and> guests_ok G A fb {} \<longrightarrow> tq_inv tq fb A L h)"

lemma tq_towers_alloc:
  assumes "tq_inv tq fb A L h" "b \<in> tq_towers tq L"
  shows "\<exists>n. A b = Some n"
proof -
  obtain fl where c: "tq_core tq fb A L h fl" using assms(1) by (auto simp: tq_inv_def)
  obtain x where x: "b = tq_base (tqep tq) x" "x \<in> set (TQ_HEAD # TQ_NIL # L)" using assms(2) by (auto simp: tq_towers_def)
  have "\<exists>n. A (tq_base (tqep tq) y) = Some n" if "y \<in> set L" for y using sl_okD(5) [OF tq_coreD(3) [OF c] that] by blast
  then show ?thesis using x sl_okD(6,7) [OF tq_coreD(3) [OF c]] by auto
qed

lemma tq_guest_ok:
  assumes inv: "tq_inv tq fb A L h" and S: "tq_towers tq L \<inter> S = {}"
  shows "guests_ok (tq_guest tq fb A L) A fb S" "dom (snd (tq_guest tq fb A L)) = tq_towers tq L"
proof -
  show d: "dom (snd (tq_guest tq fb A L)) = tq_towers tq L"
    using tq_towers_alloc [OF inv] by (fastforce simp: tq_guest_def split: if_splits)
  have "A b = Some (length c) \<and> (\<forall>i < length c. fblks fb ! (b + i) = c ! i)" if "snd (tq_guest tq fb A L) b = Some c" for b c
    using that by (auto simp: tq_guest_def split: if_splits)
  then show "guests_ok (tq_guest tq fb A L) A fb S" using S unfolding guests_ok_def d by (simp add: tq_guest_def)
qed

lemma tq_inv_move:
  assumes inv: "tq_inv tq fb A L h" and fb': "fb_inv fb' A'" and g: "guests_ok (tq_guest tq fb A L) A' fb' {}"
  shows "tq_inv tq fb' A' L h"
proof -
  obtain fl where c: "tq_core tq fb A L h fl" using inv by (auto simp: tq_inv_def)
  have ms: "maxsize fb' = maxsize fb" using g by (simp add: guests_ok_def tq_guest_def)
  have cell: "A' b = Some n \<and> (\<forall>i < n. fblks fb' ! (b + i) = fblks fb ! (b + i))" if "b \<in> tq_towers tq L" "A b = Some n" for b n
  proof -
    have "snd (tq_guest tq fb A L) b = Some (map (\<lambda>i. fblks fb ! (b + i)) [0..<n])" using that by (simp add: tq_guest_def)
    then show ?thesis using g unfolding guests_ok_def by fastforce
  qed
  have tow: "tq_base (tqep tq) x \<in> tq_towers tq L" if "x \<in> set (TQ_HEAD # TQ_NIL # L)" for x
    using that by (auto simp: tq_towers_def)
  have "sl_ok A' (fblks fb') (tq_base (tqep tq)) (maxsize fb) TQ_HEAD TQ_NIL L h (tq_level tq)"
  proof (rule sl_ok_frame [OF tq_coreD(3) [OF c]])
    show "A' (tq_base (tqep tq) x) = Some n" if "x \<in> set (TQ_HEAD # TQ_NIL # L)" "A (tq_base (tqep tq) x) = Some n" for x n
      using cell [OF tow [OF that(1)] that(2)] by simp
    show "fblks fb' ! (tq_base (tqep tq) x + k) = fblks fb ! (tq_base (tqep tq) x + k)"
      if "x \<in> set (TQ_HEAD # L)" "A (tq_base (tqep tq) x) = Some n" "k < n" for x n k
      using cell [OF tow that(2)] that by auto
  qed simp
  then show ?thesis using c fb' ms unfolding tq_inv_def tq_core_def by auto
qed

lemma tq_in_guest:
  assumes "tq_inv tq fb A L h" "te_offset (tqep tq ! TQ_NIL) = -1" "tq_nfree tq + length L = tq_nalloc tq"
  shows "tq_in (tq_guest tq fb A L) tq L h"
  unfolding tq_in_def using tq_guest_ok(2) [OF assms(1), of "{}"] assms(2,3) tq_inv_move [OF assms(1)] by auto

abbreviation rl_towers :: "RegionList \<Rightarrow> nat list \<Rightarrow> nat list \<Rightarrow> nat set" where
  "rl_towers rl FO FE \<equiv> (\<lambda>i. rg_next (rp rl ! i)) ` set (RL_FOFF_HD # RL_FOFF_TL # FO) \<union>
     (\<lambda>i. rg_prev (rp rl ! i)) ` set (RL_FEXT_HD # RL_FEXT_TL # FE)"

lemma table_guests:
  assumes "rl_table G rl fb FO E U W D"
  obtains A hO FE hE where "rl_core G rl fb A FO hO FE hE E" "maxfextent rl = max_ext (rp rl) (set FO)" "fb_inv fb A"
    "guests_ok G A fb (rl_towers rl FO FE)"
proof -
  obtain A hO FE hE where c: "rl_core G rl fb A FO hO FE hE E" "maxfextent rl = max_ext (rp rl) (set FO)"
    using rl_invD [OF rl_tableD(1) [OF assms]] .
  note T = two_slD [OF rl_listsD(1) [OF rl_coreD(1) [OF c(1)]]]
  show ?thesis by (rule that [OF c T(1,5)])
qed

lemma table_queue:
  assumes t: "rl_table G rl fb FO E U W D" and q: "tq_in G tq L h"
  shows "\<exists>A. tq_inv tq fb A L h"
proof -
  obtain A hO FE hE where a: "rl_core G rl fb A FO hO FE hE E" "maxfextent rl = max_ext (rp rl) (set FO)" "fb_inv fb A"
    "guests_ok G A fb (rl_towers rl FO FE)" by (rule table_guests [OF t])
  have "guests_ok G A fb {}" using a(4) by (simp add: guests_ok_def)
  then show ?thesis using q a(3) unfolding tq_in_def by blast
qed

text \<open>A change outside the towers of the region list keeps it, with other guests.\<close>

lemma rl_core_move:
  assumes c: "rl_core G rl fb A FO hO FE hE E" and fb': "fb_inv fb' A'" and ms: "maxsize fb' = maxsize fb"
    and same: "\<And>b n. b \<in> rl_towers rl FO FE \<Longrightarrow> A b = Some n \<Longrightarrow> A' b = Some n \<and> (\<forall>k < n. fblks fb' ! (b + k) = fblks fb ! (b + k))"
    and g: "guests_ok G' A' fb' (rl_towers rl FO FE)"
  shows "rl_core G' rl fb' A' FO hO FE hE E"
proof -
  note L = rl_coreD(1) [OF c]
  note T = two_slD [OF rl_listsD(1) [OF L]]
  have "sl_ok A' (fblks fb') (\<lambda>i. rg_next (rp rl ! i)) (maxsize fb') RL_FOFF_HD RL_FOFF_TL FO hO (level_foff rl)"
    unfolding ms
  proof (rule sl_ok_frame [OF T(2)])
    have in_next: "rg_next (rp rl ! x) \<in> rl_towers rl FO FE" if "x \<in> set (RL_FOFF_HD # RL_FOFF_TL # FO)" for x
      using that by (intro UnI1 imageI)
    show "A' (rg_next (rp rl ! x)) = Some n" if "x \<in> set (RL_FOFF_HD # RL_FOFF_TL # FO)" "A (rg_next (rp rl ! x)) = Some n" for x n
      using same [OF in_next [OF that(1)] that(2)] by simp
    show "fblks fb' ! (rg_next (rp rl ! x) + k) = fblks fb ! (rg_next (rp rl ! x) + k)"
      if "x \<in> set (RL_FOFF_HD # FO)" "A (rg_next (rp rl ! x)) = Some n" "k < n" for x n k
      using same [OF in_next that(2)] that(1,3) by auto
  qed simp
  moreover have "sl_ok A' (fblks fb') (\<lambda>i. rg_prev (rp rl ! i)) (maxsize fb') RL_FEXT_HD RL_FEXT_TL FE hE (level_fext rl)"
    unfolding ms
  proof (rule sl_ok_frame [OF T(3)])
    have in_prev: "rg_prev (rp rl ! x) \<in> rl_towers rl FO FE" if "x \<in> set (RL_FEXT_HD # RL_FEXT_TL # FE)" for x
      using that by (intro UnI2 imageI)
    show "A' (rg_prev (rp rl ! x)) = Some n" if "x \<in> set (RL_FEXT_HD # RL_FEXT_TL # FE)" "A (rg_prev (rp rl ! x)) = Some n" for x n
      using same [OF in_prev [OF that(1)] that(2)] by simp
    show "fblks fb' ! (rg_prev (rp rl ! x) + k) = fblks fb ! (rg_prev (rp rl ! x) + k)"
      if "x \<in> set (RL_FEXT_HD # FE)" "A (rg_prev (rp rl ! x)) = Some n" "k < n" for x n k
      using same [OF in_prev that(2)] that(1,3) by auto
  qed simp
  ultimately have "rl_lists G' rl fb' A' FO hO FE hE" using L fb' g T(4) unfolding rl_lists_def two_sl_def by simp
  then show ?thesis using c unfolding rl_core_def by simp
qed

lemma rl_table_move:
  assumes t: "rl_table G rl fb FO E U W D" and c: "rl_core G' rl fb' A' FO hO FE hE E"
  shows "rl_table G' rl fb' FO E U W D"
  using t c unfolding rl_table_def rl_inv_def by blast

lemma tq_Delete_spares:
  assumes "fb_inv fb A" "tq_Delete q tq fb = Some (tq', fb')"
  shows "spares fb' = spares fb"
proof -
  have len: "maxsize fb < length (fb_nfree fb)" using assms(1) fb_coreD(2,3) by (auto simp: fb_inv_def)
  have rel: "spares fb2 = spares fb" if "FreeBlock_Release n b (fb\<lparr>fblks := ar\<rparr>) = Some fb2" for n b ar fb2
    using FreeBlock_Release_spares(1) [OF that] len by (simp add: spares_def)
  show ?thesis
    using assms(2) unfolding tq_Delete_def tq_FreeElement_def
    by (auto simp: bind_eq_Some_conv log_assert_def split: if_splits prod.splits dest!: rel)
qed

text \<open>The arena after a deletion from the time queue still holds the region list, with one guest less.\<close>

lemma table_Delete:
  assumes t: "rl_table G rl fb FO E U W D" and q: "tq_in G tq (xs @ q # ys) h"
  shows "\<exists>tq' fb' G'. tq_Delete q tq fb = Some (tq', fb') \<and> rl_table G' rl fb' FO E U W D \<and> tq_in G' tq' (xs @ ys) h \<and>
    tq_entries tq' (xs @ ys) = tq_entries tq (xs @ ys) \<and> spares fb' = spares fb \<and>
    tq_nalloc tq' = tq_nalloc tq \<and> tq_nfree tq' = Suc (tq_nfree tq)"
proof -
  obtain A hO FE hE where a: "rl_core G rl fb A FO hO FE hE E" "maxfextent rl = max_ext (rp rl) (set FO)" "fb_inv fb A"
    "guests_ok G A fb (rl_towers rl FO FE)" by (rule table_guests [OF t])
  have d: "dom (snd G) = tq_towers tq (xs @ q # ys)" "te_offset (tqep tq ! TQ_NIL) = -1"
    "tq_nfree tq + length (xs @ q # ys) = tq_nalloc tq" using q by (auto simp: tq_in_def)
  have "guests_ok G A fb {}" using a(4) by (simp add: guests_ok_def)
  then have inv: "tq_inv tq fb A (xs @ q # ys) h" using q a(3) unfolding tq_in_def by blast
  then obtain fl where core: "tq_core tq fb A (xs @ q # ys) h fl" by (auto simp: tq_inv_def)
  let ?A = "A(tq_base (tqep tq) q := None)"
  obtain tq' fb' where r: "tq_Delete q tq fb = Some (tq', fb')" "tq_inv tq' fb' ?A (xs @ ys) h" "maxsize fb' = maxsize fb"
    "tq_nalloc tq' = tq_nalloc tq" "tq_nfree tq' = Suc (tq_nfree tq)" "tq_entries tq' (xs @ ys) = tq_entries tq (xs @ ys)"
    "tq_towers tq' (xs @ ys) = tq_towers tq (xs @ ys)" "frame ?A (tq_towers tq (xs @ ys)) (fblks fb) (fblks fb')"
    using tq_Delete_spec [OF inv] by (elim exE conjE) (rule that)
  have "\<forall>x. x \<noteq> q \<longrightarrow> tqep tq' ! x = tqep tq ! x" using tq_Delete_core [OF core] r(1) by auto
  moreover have "TQ_NIL \<noteq> q" using sl_okD(1) [OF tq_coreD(3) [OF core]] by auto
  ultimately have nil: "te_offset (tqep tq' ! TQ_NIL) = -1" using d(2) by simp
  have apart: "tq_towers tq (xs @ q # ys) \<inter> rl_towers rl FO FE = {}" using a(4) unfolding guests_ok_def d(1) by blast
  have sub: "tq_towers tq (xs @ ys) \<subseteq> tq_towers tq (xs @ q # ys)" "tq_base (tqep tq) q \<in> tq_towers tq (xs @ q # ys)"
    by (auto simp: tq_towers_def)
  have fb': "fb_inv fb' ?A" using r(2) tq_coreD(1) by (auto simp: tq_inv_def)
  have g: "guests_ok (tq_guest tq' fb' ?A (xs @ ys)) ?A fb' (rl_towers rl FO FE)"
    by (rule tq_guest_ok(1) [OF r(2)]) (use apart sub(1) r(7) in auto)
  have "rl_core (tq_guest tq' fb' ?A (xs @ ys)) rl fb' ?A FO hO FE hE E"
  proof (rule rl_core_move [OF a(1) fb' r(3) _ g])
    fix b n assume b: "b \<in> rl_towers rl FO FE" "A b = Some n"
    have nb: "b \<notin> tq_towers tq (xs @ ys)" "b \<noteq> tq_base (tqep tq) q" using b(1) apart sub by auto
    have "?A b = Some n" using b(2) nb(2) by simp
    then show "?A b = Some n \<and> (\<forall>k < n. fblks fb' ! (b + k) = fblks fb ! (b + k))" using frameD [OF r(8) _ nb(1)] by blast
  qed
  moreover have "tq_nfree tq' + length (xs @ ys) = tq_nalloc tq'" using d(3) r(4,5) by simp
  ultimately show ?thesis using rl_table_move [OF t] tq_in_guest [OF r(2) nil] r(1,4-6) tq_Delete_spares [OF a(3) r(1)] by blast
qed

subsection \<open>The state of the queue\<close>

text \<open>
  What the tables describe: \<open>S\<close> gives the extent and the signature of each allocated region by its offset, \<open>Q\<close> the
  times and offsets of the products in time order. A region of \<open>S\<close> that is not in \<open>Q\<close> belongs to a product that is
  being written. \<open>D\<close> is the data section. In between two steps of an operation \<open>W\<close> holds the slot that was taken
  out of the free space, and \<open>L\<close> the elements of the time queue.
\<close>

type_synonym catalogue = "int \<rightharpoonup> nat \<times> Signature"

definition sig_index :: "catalogue \<Rightarrow> (Signature \<Rightarrow> int list) \<Rightarrow> bool" where
  "sig_index S M \<longleftrightarrow> (\<forall>off e sg. S off = Some (e, sg) \<longrightarrow> M sg = [off]) \<and> (\<forall>sg. M sg \<noteq> [] \<longrightarrow> (\<exists>off e. S off = Some (e, sg)))"

definition regions_of :: "RegionList \<Rightarrow> nat set \<Rightarrow> catalogue \<Rightarrow> bool" where
  "regions_of rl U S \<longleftrightarrow> dom S = slot_off (rp rl) ` U \<and> (\<forall>i \<in> U. \<forall>e sg. S (slot_off (rp rl) i) = Some (e, sg) \<longrightarrow> e = slot_ext (rp rl) i)"

definition index_core :: "QueueIndexManager \<Rightarrow> int set \<Rightarrow> catalogue \<Rightarrow> nat list \<Rightarrow> nat set \<Rightarrow> bool" where
  "index_core ix D S L W \<longleftrightarrow> (\<exists>G FO E U h M. rl_table G (rlp ix) (fbp ix) FO E U W D \<and> tq_in G (tqp ix) L h \<and>
     sx_inv (sxp ix) M \<and> sig_index S M \<and> regions_of (rlp ix) U S \<and> sx_nelems (sxp ix) = card U \<and>
     sx_nalloc (sxp ix) = rl_nalloc (rlp ix)) \<and>
     distinct (map snd (tq_entries (tqp ix) L)) \<and> snd ` set (tq_entries (tqp ix) L) \<subseteq> dom S \<and>
     tq_nalloc (tqp ix) = rl_nalloc (rlp ix)"

definition index_ok :: "QueueIndexManager \<Rightarrow> int set \<Rightarrow> catalogue \<Rightarrow> (Timestamp \<times> int) list \<Rightarrow> bool" where
  "index_ok ix D S Q \<longleftrightarrow> (\<exists>L. index_core ix D S L {} \<and> Q = tq_entries (tqp ix) L)"

lemma index_coreE:
  assumes "index_core ix D S L W"
  obtains G FO E U h M where "rl_table G (rlp ix) (fbp ix) FO E U W D" "tq_in G (tqp ix) L h" "sx_inv (sxp ix) M" "sig_index S M"
    "regions_of (rlp ix) U S" "sx_nelems (sxp ix) = card U" "sx_nalloc (sxp ix) = rl_nalloc (rlp ix)"
    "distinct (map snd (tq_entries (tqp ix) L))" "snd ` set (tq_entries (tqp ix) L) \<subseteq> dom S" "tq_nalloc (tqp ix) = rl_nalloc (rlp ix)"
  using assms unfolding index_core_def by blast

lemma index_coreI:
  assumes "rl_table G (rlp ix) (fbp ix) FO E U W D" "tq_in G (tqp ix) L h" "sx_inv (sxp ix) M" "sig_index S M"
    "regions_of (rlp ix) U S" "sx_nelems (sxp ix) = card U" "sx_nalloc (sxp ix) = rl_nalloc (rlp ix)"
    "distinct (map snd (tq_entries (tqp ix) L))" "snd ` set (tq_entries (tqp ix) L) \<subseteq> dom S" "tq_nalloc (tqp ix) = rl_nalloc (rlp ix)"
  shows "index_core ix D S L W"
  using assms unfolding index_core_def by blast

lemma sig_indexD:
  assumes "sig_index S M"
  shows "S off = Some (e, sg) \<Longrightarrow> M sg = [off]" "M sg \<noteq> [] \<Longrightarrow> \<exists>off e. S off = Some (e, sg)"
  using assms unfolding sig_index_def by blast+

lemma sig_index_drop:
  assumes s: "sig_index S M" and off: "S off = Some (e, sg)"
  shows "M sg = [off]" "sig_index (S(off := None)) (M(sg := tl (M sg)))"
proof -
  show m: "M sg = [off]" by (rule sig_indexD(1) [OF s off])
  have ne: "sg' \<noteq> sg" if "S off' = Some (e', sg')" "off' \<noteq> off" for off' e' sg'
    using sig_indexD(1) [OF s that(1)] that(2) m by auto
  have "(M(sg := [])) sg' = [off']" if a: "(S(off := None)) off' = Some (e', sg')" for off' e' sg'
  proof -
    have b: "S off' = Some (e', sg')" "off' \<noteq> off" using a by (auto split: if_splits)
    show ?thesis using sig_indexD(1) [OF s b(1)] ne [OF b] by simp
  qed
  moreover have "\<exists>off' e'. (S(off := None)) off' = Some (e', sg')" if a: "(M(sg := [])) sg' \<noteq> []" for sg'
  proof -
    have b: "sg' \<noteq> sg" "M sg' \<noteq> []" using a by (auto split: if_splits)
    obtain off' e' where c: "S off' = Some (e', sg')" using sig_indexD(2) [OF s b(2)] by blast
    then have "off' \<noteq> off" using off b(1) by auto
    then show ?thesis using c by auto
  qed
  ultimately show "sig_index (S(off := None)) (M(sg := tl (M sg)))" unfolding sig_index_def m list.sel by blast
qed

lemma sig_index_new:
  assumes s: "sig_index S M" and m: "M sg = []" and off: "off \<notin> dom S"
  shows "sig_index (S(off \<mapsto> (e, sg))) (M(sg := off # M sg))"
proof -
  have "(M(sg := [off])) sg' = [off']" if a: "(S(off \<mapsto> (e, sg))) off' = Some (e', sg')" for off' e' sg'
  proof (cases "off' = off")
    case False
    then have "S off' = Some (e', sg')" using a by simp
    from sig_indexD(1) [OF s this] m show ?thesis by auto
  qed (use a in simp)
  moreover have "\<exists>off' e'. (S(off \<mapsto> (e, sg))) off' = Some (e', sg')" if a: "(M(sg := [off])) sg' \<noteq> []" for sg'
  proof (cases "sg' = sg")
    case False
    then obtain off' e' where c: "S off' = Some (e', sg')" using sig_indexD(2) [OF s, of sg'] a by auto
    then have "off' \<noteq> off" using off by auto
    then show ?thesis using c by auto
  qed (auto intro: exI [of _ off])
  ultimately show ?thesis unfolding sig_index_def m by blast
qed

lemma restrict_map_UNIV [simp]: "m |` UNIV = m"
  by (auto simp: restrict_map_def)

definition signed :: "catalogue \<Rightarrow> Signature \<Rightarrow> bool" where
  "signed S sg \<longleftrightarrow> (\<exists>off e. S off = Some (e, sg))"

lemma sig_index_free:
  assumes "sig_index S M"
  shows "M sg = [] \<longleftrightarrow> \<not> signed S sg"
  unfolding signed_def using sig_indexD [OF assms] by (metis list.distinct(1))

lemma slot_off_inj:
  assumes t: "rl_table G rl fb FO E U W D"
  shows "inj_on (slot_off (rp rl)) (set FO \<union> (U \<union> W))"
  using space_ok_off [OF rl_tableD(9) [OF t]] by (auto simp: inj_on_def)

lemma regions_of_drop:
  assumes r: "regions_of rl U S" and t: "rl_table G rl fb FO E U W D" and i: "i \<in> U"
    and same: "\<And>j. j \<in> U - {i} \<Longrightarrow> span_of (rp rl') j = span_of (rp rl) j"
  shows "regions_of rl' (U - {i}) (S(slot_off (rp rl) i := None))"
proof -
  have so: "slot_off (rp rl') j = slot_off (rp rl) j" "slot_ext (rp rl') j = slot_ext (rp rl) j" if "j \<in> U - {i}" for j
    using same [OF that] by (simp_all add: span_of_def)
  have ne: "slot_off (rp rl) j \<noteq> slot_off (rp rl) i" if "j \<in> U - {i}" for j
    using slot_off_inj [OF t] that i by (auto simp: inj_on_def)
  have "slot_off (rp rl') ` (U - {i}) = slot_off (rp rl) ` (U - {i})" using so by simp
  also have "\<dots> = slot_off (rp rl) ` U - {slot_off (rp rl) i}" using ne by auto
  finally show ?thesis using r so ne unfolding regions_of_def by simp
qed

lemma index_find:
  assumes c: "index_core ix D S L W"
  shows "S off = Some (e, sg) \<Longrightarrow> \<exists>i. rl_Find off (rlp ix) = Some i \<and> i \<noteq> RL_NONE \<and> i < length (rp (rlp ix)) \<and>
      span_of (rp (rlp ix)) i = (off, e)"
    and "off \<notin> dom S \<Longrightarrow> rl_Find off (rlp ix) = Some RL_NONE"
proof -
  obtain G FO E U h M where t: "rl_table G (rlp ix) (fbp ix) FO E U W D" "regions_of (rlp ix) U S"
    by (rule index_coreE [OF c])
  note F = rl_Find_spec [OF rl_tableD(2,3) [OF t(1)]]
  show "\<exists>i. rl_Find off (rlp ix) = Some i \<and> i \<noteq> RL_NONE \<and> i < length (rp (rlp ix)) \<and> span_of (rp (rlp ix)) i = (off, e)"
    if "S off = Some (e, sg)"
  proof -
    have "off \<in> slot_off (rp (rlp ix)) ` U" using that t(2) unfolding regions_of_def by blast
    then obtain i where i: "i \<in> U" "slot_off (rp (rlp ix)) i = off" by auto
    then have "slot_ext (rp (rlp ix)) i = e" using t(2) that unfolding regions_of_def by blast
    then show ?thesis using F(1) [OF i] table_slot(2,3) [OF t(1), of i] i by (auto simp: span_of_def)
  qed
  show "rl_Find off (rlp ix) = Some RL_NONE" if "off \<notin> dom S" using that F(2) t(2) by (simp add: regions_of_def)
qed

text \<open>Elements of the time queue and their entries.\<close>

lemma tq_entry_at:
  "tq_entries tq (xs @ q # ys) = tq_entries tq xs @ (te_tv (tqep tq ! q), te_offset (tqep tq ! q)) # tq_entries tq ys"
  "tq_entries tq (xs @ ys) = tq_entries tq xs @ tq_entries tq ys"
  by (simp_all add: tq_entries_def)

lemma offsets_remove:
  assumes "distinct (map snd (as @ (t, off) # bs))" "snd ` set (as @ (t, off) # bs) \<subseteq> dom S"
  shows "distinct (map snd (as @ bs))" "snd ` set (as @ bs) \<subseteq> dom (S(off := None))"
proof -
  show "distinct (map snd (as @ bs))" using assms(1) by auto
  have "off \<notin> snd ` set (as @ bs)" using assms(1) by auto
  then show "snd ` set (as @ bs) \<subseteq> dom (S(off := None))" using assms(2) by auto
qed

lemma index_queue:
  assumes "index_core ix D S L W"
  shows "\<exists>A h. tq_inv (tqp ix) (fbp ix) A L h" "te_offset (tqep (tqp ix) ! TQ_NIL) = -1" "-1 \<notin> dom S"
proof -
  obtain G FO E U h M where t: "rl_table G (rlp ix) (fbp ix) FO E U W D" "tq_in G (tqp ix) L h" "regions_of (rlp ix) U S"
    by (rule index_coreE [OF assms])
  show "\<exists>A h. tq_inv (tqp ix) (fbp ix) A L h" using table_queue [OF t(1,2)] by blast
  show "te_offset (tqep (tqp ix) ! TQ_NIL) = -1" using t(2) by (simp add: tq_in_def)
  have "0 \<le> slot_off (rp (rlp ix)) i" if "i \<in> U" for i by (rule table_bounds(1) [OF t(1)]) (use that in simp)
  then have "-1 \<noteq> slot_off (rp (rlp ix)) i" if "i \<in> U" for i using that by fastforce
  then show "-1 \<notin> dom S" using t(3) unfolding regions_of_def by (simp add: image_iff)
qed

lemma tq_inv_node:
  assumes "tq_inv tq fb A L h" "q \<in> set (TQ_NIL # L)"
  shows "q < length (tqep tq)"
proof -
  obtain fl where c: "tq_core tq fb A L h fl" using assms(1) by (auto simp: tq_inv_def)
  show ?thesis by (rule tq_nodes_tower(1) [OF tq_coreD(4) [OF c]]) (use assms(2) in auto)
qed

lemma put_span_length: "length (put_span s ss) \<le> Suc (length ss)"
proof -
  have co: "length (coalesce ls s rs) \<le> Suc (length ls + length rs)" for ls rs
    by (rule eat_right_cases [of s rs]; rule eat_left_cases [of ls "fst (eat_right s rs)"]) (auto simp: coalesce_def)
  have "length ss = length (takeWhile (\<lambda>t. fst t < fst s) ss) + length (dropWhile (\<lambda>t. fst t < fst s) ss)"
    by (simp only: length_append [symmetric] takeWhile_dropWhile_id)
  then show ?thesis unfolding put_span_def using co by presburger
qed

text \<open>Freeing a region never uses up empty slots.\<close>

lemma table_counts:
  assumes "rl_table G rl fb FO E U W D"
  shows "rl_nelems rl = card U + card W" "rl_nfree rl = length FO" "nempty rl = length E"
    "rl_nelems rl + length FO + length E = rl_nalloc rl"
proof -
  obtain A hO FE hE where c: "rl_core G rl fb A FO hO FE hE E" using rl_invD [OF rl_tableD(1) [OF assms]] .
  show "rl_nelems rl = card U + card W" "rl_nfree rl = length FO" "nempty rl = length E"
    "rl_nelems rl + length FO + length E = rl_nalloc rl"
    using rl_tableD(11) [OF assms] rl_coreD(6-8) [OF c] by simp_all
qed

lemma free_table:
  assumes t: "rl_table G rl fb FO E U {} D" and i: "i \<in> U" and sp: "4 \<le> spares fb"
  shows "\<exists>rl' fb' r' FO' E'. rl_Free i rl fb r = Some (rl', fb', r') \<and> rl_table G rl' fb' FO' E' (U - {i}) {} D \<and>
    (\<forall>j \<in> U - {i}. span_of (rp rl') j = span_of (rp rl) j) \<and> rl_nalloc rl' = rl_nalloc rl \<and> spares fb \<le> spares fb' + 4 \<and>
    nempty rl \<le> nempty rl'"
proof -
  obtain rl' fb' r' FO' E' where f: "rl_Free i rl fb r = Some (rl', fb', r')" "rl_table G rl' fb' FO' E' (U - {i}) {} D"
    "spans (rp rl') FO' = put_span (span_of (rp rl) i) (spans (rp rl) FO)" "\<forall>j \<in> U - {i}. span_of (rp rl') j = span_of (rp rl) j"
    "rl_nalloc rl' = rl_nalloc rl" "nbytes rl' = sz_sub (nbytes rl) (slot_ext (rp rl) i)" "maxbytes rl' = maxbytes rl"
    "spares fb \<le> spares fb' + 4"
    using rl_Free_spec [OF t i sp, of r] by (elim exE conjE) (rule that)
  have "length FO' = length (put_span (span_of (rp rl) i) (spans (rp rl) FO))" using arg_cong [OF f(3), of length] by simp
  also have "\<dots> \<le> Suc (length FO)" using put_span_length [of _ "spans (rp rl) FO"] by simp
  finally have "length FO' \<le> Suc (length FO)" .
  moreover have "Suc (card (U - {i})) = card U" by (rule card_Suc_Diff1 [OF rl_tableD(12) [OF t] i])
  ultimately have "nempty rl \<le> nempty rl'" using table_counts [OF t] table_counts [OF f(2)] f(5) by simp
  then show ?thesis using f(1,2,4,5,8) by blast
qed

lemma index_counts:
  assumes "index_core ix D S L W"
  shows "finite (dom S)" "rl_nelems (rlp ix) = card (dom S) + card W" "sx_nelems (sxp ix) = card (dom S)"
    "length L \<le> card (dom S)" "card (dom S) + card W + nempty (rlp ix) \<le> rl_nalloc (rlp ix)"
proof -
  obtain G FO E U h M where t: "rl_table G (rlp ix) (fbp ix) FO E U W D" "regions_of (rlp ix) U S" "sx_nelems (sxp ix) = card U"
    "distinct (map snd (tq_entries (tqp ix) L))" "snd ` set (tq_entries (tqp ix) L) \<subseteq> dom S" "tq_nalloc (tqp ix) = rl_nalloc (rlp ix)"
    by (rule index_coreE [OF assms])
  have d: "dom S = slot_off (rp (rlp ix)) ` U" using t(2) by (simp add: regions_of_def)
  show fin: "finite (dom S)" unfolding d by (rule finite_imageI [OF rl_tableD(12) [OF t(1)]])
  have "card (dom S) = card U"
    unfolding d by (rule card_image [OF inj_on_subset [OF slot_off_inj [OF t(1)]]]) blast
  then show "rl_nelems (rlp ix) = card (dom S) + card W" "sx_nelems (sxp ix) = card (dom S)"
    "card (dom S) + card W + nempty (rlp ix) \<le> rl_nalloc (rlp ix)"
    using table_counts [OF t(1)] t(3) by simp_all
  have "length L = card (snd ` set (tq_entries (tqp ix) L))"
    using distinct_card [OF t(4)] by (simp add: tq_entries_def image_image)
  also have "\<dots> \<le> card (dom S)" by (rule card_mono [OF fin t(5)])
  finally show "length L \<le> card (dom S)" .
qed

text \<open>
  The three steps that take a product out of the index: its signature, its element in the time queue, its region.
\<close>

lemma index_delete:
  assumes c: "index_core ix D S (xs @ q # ys) {}" and off: "S (te_offset (tqep (tqp ix) ! q)) = Some (e, sg)"
    and i: "rl_Find (te_offset (tqep (tqp ix) ! q)) (rlp ix) = Some i" and sp: "4 \<le> spares (fbp ix)"
  shows "\<exists>sx tq fb rl fb1 r. sx_Remove sg (sxp ix) = Some (True, sx) \<and> tq_Delete q (tqp ix) (fbp ix) = Some (tq, fb) \<and>
    rl_Free i (rlp ix) fb (rnd ix) = Some (rl, fb1, r) \<and>
    index_core (ix\<lparr>sxp := sx, tqp := tq, rlp := rl, fbp := fb1, rnd := r\<rparr>) D (S(te_offset (tqep (tqp ix) ! q) := None)) (xs @ ys) {} \<and>
    tq_entries tq (xs @ ys) = tq_entries (tqp ix) (xs @ ys) \<and> spares (fbp ix) \<le> spares fb1 + 4 \<and> nempty (rlp ix) \<le> nempty rl"
proof -
  let ?off = "te_offset (tqep (tqp ix) ! q)"
  obtain G FO E U h M where t: "rl_table G (rlp ix) (fbp ix) FO E U {} D" "tq_in G (tqp ix) (xs @ q # ys) h" "sx_inv (sxp ix) M"
    "sig_index S M" "regions_of (rlp ix) U S" "sx_nelems (sxp ix) = card U" "sx_nalloc (sxp ix) = rl_nalloc (rlp ix)"
    "distinct (map snd (tq_entries (tqp ix) (xs @ q # ys)))" "snd ` set (tq_entries (tqp ix) (xs @ q # ys)) \<subseteq> dom S"
    "tq_nalloc (tqp ix) = rl_nalloc (rlp ix)"
    by (rule index_coreE [OF c])
  have iu: "i \<in> U" "slot_off (rp (rlp ix)) i = ?off"
  proof -
    have "?off \<in> slot_off (rp (rlp ix)) ` U" using off t(5) unfolding regions_of_def by blast
    then obtain j where j: "j \<in> U" "slot_off (rp (rlp ix)) j = ?off" by auto
    have "j = i" using rl_Find_spec(1) [OF rl_tableD(2,3) [OF t(1)] j] i by simp
    then show "i \<in> U" "slot_off (rp (rlp ix)) i = ?off" using j by simp_all
  qed
  have m: "M sg \<noteq> []" using sig_index_drop(1) [OF t(4) off] by simp
  obtain sx where sx: "sx_Remove sg (sxp ix) = Some (True, sx)" "sx_inv sx (M(sg := tl (M sg)))" "sx_nalloc sx = sx_nalloc (sxp ix)"
    "Suc (sx_nelems sx) = sx_nelems (sxp ix)"
    using sx_Remove_spec [OF t(3), of sg] m by auto
  obtain tq fb G' where tq: "tq_Delete q (tqp ix) (fbp ix) = Some (tq, fb)" "rl_table G' (rlp ix) fb FO E U {} D" "tq_in G' tq (xs @ ys) h"
    "tq_entries tq (xs @ ys) = tq_entries (tqp ix) (xs @ ys)" "spares fb = spares (fbp ix)"
    "tq_nalloc tq = tq_nalloc (tqp ix)"
    using table_Delete [OF t(1,2)] by blast
  have sp': "4 \<le> spares fb" using sp tq(5) by simp
  obtain rl fb1 r FO' E' where rl: "rl_Free i (rlp ix) fb (rnd ix) = Some (rl, fb1, r)" "rl_table G' rl fb1 FO' E' (U - {i}) {} D"
    "\<forall>j \<in> U - {i}. span_of (rp rl) j = span_of (rp (rlp ix)) j" "rl_nalloc rl = rl_nalloc (rlp ix)" "spares fb \<le> spares fb1 + 4"
    "nempty (rlp ix) \<le> nempty rl"
    using free_table [OF tq(2) iu(1) sp', of "rnd ix"] by (elim exE conjE) (rule that)
  have reg: "regions_of rl (U - {i}) (S(?off := None))"
    using regions_of_drop [OF t(5,1) iu(1), of rl] rl(3) unfolding iu(2) by blast
  have cu: "Suc (card (U - {i})) = card U" by (rule card_Suc_Diff1 [OF rl_tableD(12) [OF t(1)] iu(1)])
  have ent: "distinct (map snd (tq_entries tq (xs @ ys)))" "snd ` set (tq_entries tq (xs @ ys)) \<subseteq> dom (S(?off := None))"
    using offsets_remove [OF t(8,9) [unfolded tq_entry_at(1)], folded tq_entry_at(2)] unfolding tq(4) by blast+
  have "index_core (ix\<lparr>sxp := sx, tqp := tq, rlp := rl, fbp := fb1, rnd := r\<rparr>) D (S(?off := None)) (xs @ ys) {}"
    by (rule index_coreI [where G = G' and h = h and U = "U - {i}" and M = "M(sg := tl (M sg))"])
       (use rl(2,4) tq(3,6) sx(2-4) sig_index_drop(2) [OF t(4) off] reg ent cu t(6,7,10) in simp_all)
  then show ?thesis using sx(1) tq(1,4,5) rl(1,5,6) by auto
qed

subsection \<open>Deleting the oldest product\<close>

text \<open>
  The abstract operation: the products are tried in time order; a locked one is skipped, the first other answer of the
  decoder decides. It answers with the status, the number of calls of the decoder and the product to delete.
\<close>

fun del_oldest :: "decoder \<Rightarrow> nat \<Rightarrow> catalogue \<Rightarrow> (Timestamp \<times> int) list \<Rightarrow> int \<times> nat \<times> int option" where
  "del_oldest dec k S [] = (EACCES, k, None)"
| "del_oldest dec k S ((t, off) # Q) =
     (let st = fst (dec k off (fst (the (S off))))
      in if st = 0 then (0, Suc k, Some off)
         else if st = EACCES then del_oldest dec (Suc k) S Q
         else (st, Suc k, None))"

abbreviation strike :: "int set \<Rightarrow> (Timestamp \<times> int) list \<Rightarrow> (Timestamp \<times> int) list" where
  "strike X Q \<equiv> filter (\<lambda>p. snd p \<notin> X) Q"

text \<open>
  What the operations rely on: the metadata in a region carries the signature that the region is entered under, and the
  statistics hook leaves the alignment of the queue alone.
\<close>

definition decode_ok :: "decoder \<Rightarrow> catalogue \<Rightarrow> bool" where
  "decode_ok dec S \<longleftrightarrow> (\<forall>k off e sg. S off = Some (e, sg) \<longrightarrow> fst (dec k off e) = 0 \<longrightarrow> signature (snd (dec k off e)) = sg)"

definition hook_ok :: "mvrt_hook \<Rightarrow> bool" where
  "hook_ok mv \<longleftrightarrow> (\<forall>k t info ix. ctl_align (mv k t info ix) = ctl_align (ctlp ix))"

definition same_mgr :: "QueueIndexManager \<Rightarrow> QueueIndexManager \<Rightarrow> bool" where
  "same_mgr ix ix' \<longleftrightarrow> ixp ix' = ixp ix \<and> smallest_extent_seen ix' = smallest_extent_seen ix \<and>
     ctl_align (ctlp ix') = ctl_align (ctlp ix)"

lemma same_mgr_refl [simp]: "same_mgr ix ix"
  by (simp add: same_mgr_def)

lemma same_mgr_trans: "same_mgr a b \<Longrightarrow> same_mgr b c \<Longrightarrow> same_mgr a c"
  by (simp add: same_mgr_def)

lemma index_core_ctlp [simp]: "index_core (ix\<lparr>ctlp := c\<rparr>) D S L W \<longleftrightarrow> index_core ix D S L W"
  by (simp add: index_core_def)

lemma decode_ok_sub: "decode_ok dec S \<Longrightarrow> S' \<subseteq>\<^sub>m S \<Longrightarrow> decode_ok dec S'"
  unfolding decode_ok_def map_le_def by (metis domI)

lemma TryDelete_refused:
  assumes "q < length (tqep (tqp ix))" "te_offset (tqep (tqp ix) ! q) = off" "i < length (rp (rlp ix))"
    "span_of (rp (rlp ix)) i = (off, e)" "dec off e = (st, info)" "st \<noteq> 0"
  shows "TryDeleteProduct q i dec ix = Some (st, Some info, ix)"
  using assms by (simp add: TryDeleteProduct_def span_of_def)

lemma TryDelete_done:
  assumes c: "index_core ix D S (xs @ q # ys) {}" and off: "S (te_offset (tqep (tqp ix) ! q)) = Some (e, sg)"
    and i: "rl_Find (te_offset (tqep (tqp ix) ! q)) (rlp ix) = Some i" and sp: "4 \<le> spares (fbp ix)"
    and dec: "dec (te_offset (tqep (tqp ix) ! q)) e = (0, info)" "signature info = sg"
  shows "\<exists>ix'. TryDeleteProduct q i dec ix = Some (0, Some info, ix') \<and>
    index_core ix' D (S(te_offset (tqep (tqp ix) ! q) := None)) (xs @ ys) {} \<and>
    tq_entries (tqp ix') (xs @ ys) = tq_entries (tqp ix) (xs @ ys) \<and> same_mgr ix ix' \<and> ctlp ix' = ctlp ix \<and>
    spares (fbp ix) \<le> spares (fbp ix') + 4 \<and> nempty (rlp ix) \<le> nempty (rlp ix')"
proof -
  obtain sx tq fb rl fb1 r where d: "sx_Remove sg (sxp ix) = Some (True, sx)" "tq_Delete q (tqp ix) (fbp ix) = Some (tq, fb)"
    "rl_Free i (rlp ix) fb (rnd ix) = Some (rl, fb1, r)"
    "index_core (ix\<lparr>sxp := sx, tqp := tq, rlp := rl, fbp := fb1, rnd := r\<rparr>) D (S(te_offset (tqep (tqp ix) ! q) := None)) (xs @ ys) {}"
    "tq_entries tq (xs @ ys) = tq_entries (tqp ix) (xs @ ys)" "spares (fbp ix) \<le> spares fb1 + 4" "nempty (rlp ix) \<le> nempty rl"
    using index_delete [OF c off i sp] by (elim exE conjE) (rule that)
  obtain A h where "tq_inv (tqp ix) (fbp ix) A (xs @ q # ys) h" using index_queue(1) [OF c] by blast
  from tq_inv_node [OF this] have q: "q < length (tqep (tqp ix))" by simp
  have s: "i < length (rp (rlp ix))" "slot_off (rp (rlp ix)) i = te_offset (tqep (tqp ix) ! q)" "slot_ext (rp (rlp ix)) i = e"
    using index_find(1) [OF c off] i by (auto simp: span_of_def)
  have "TryDeleteProduct q i dec ix = Some (0, Some info, ix\<lparr>sxp := sx, tqp := tq, rlp := rl, fbp := fb1, rnd := r\<rparr>)"
    using q s dec d(1-3) by (simp add: TryDeleteProduct_def)
  then show ?thesis using d(4-7)
    by (intro exI [of _ "ix\<lparr>sxp := sx, tqp := tq, rlp := rl, fbp := fb1, rnd := r\<rparr>"]) (simp add: same_mgr_def)
qed

text \<open>\<open>deletes ix D S L X W ix'\<close>: the products \<open>X\<close> are gone and the slots \<open>W\<close> are taken, nothing else has changed.\<close>

definition deletes :: "QueueIndexManager \<Rightarrow> int set \<Rightarrow> catalogue \<Rightarrow> nat list \<Rightarrow> int set \<Rightarrow> nat set \<Rightarrow> QueueIndexManager \<Rightarrow> bool" where
  "deletes ix D S L X W ix' \<longleftrightarrow> X \<subseteq> snd ` set (tq_entries (tqp ix) L) \<and> same_mgr ix ix' \<and> nempty (rlp ix) \<le> nempty (rlp ix') \<and>
     spares (fbp ix) \<le> spares (fbp ix') + 4 * card X \<and>
     (\<exists>L'. index_core ix' D (S |` (- X)) L' W \<and> tq_entries (tqp ix') L' = strike X (tq_entries (tqp ix) L))"

lemma deletes_none: "index_core ix D S L {} \<Longrightarrow> deletes ix D S L {} {} ix"
  unfolding deletes_def by (auto simp: restrict_map_def)

lemma strike_one:
  assumes "distinct (map snd (as @ (t, off) # bs))"
  shows "strike {off} (as @ (t, off) # bs) = as @ bs"
proof -
  have "off \<notin> snd ` set as" "off \<notin> snd ` set bs" using assms by auto
  then have "strike {off} as = as" "strike {off} bs = bs" by (auto intro!: filter_True)
  then show ?thesis by simp
qed

lemma deletes_one:
  assumes c: "index_core ix D S (xs @ q # ys) {}" and off: "off = te_offset (tqep (tqp ix) ! q)"
    and d: "index_core ix' D (S(off := None)) (xs @ ys) {}" "tq_entries (tqp ix') (xs @ ys) = tq_entries (tqp ix) (xs @ ys)"
      "same_mgr ix ix'" "spares (fbp ix) \<le> spares (fbp ix') + 4" "nempty (rlp ix) \<le> nempty (rlp ix')"
    and ctl: "ctl_align ctl = ctl_align (ctlp ix)"
  shows "deletes ix D S (xs @ q # ys) {off} {} (ix'\<lparr>ctlp := ctl\<rparr>)"
proof -
  have dist: "distinct (map snd (tq_entries (tqp ix) (xs @ q # ys)))" by (rule index_coreE [OF c])
  have "strike {off} (tq_entries (tqp ix) (xs @ q # ys)) = tq_entries (tqp ix) (xs @ ys)"
    using strike_one [OF dist [unfolded tq_entry_at(1)]] unfolding off tq_entry_at(1) by (simp only: tq_entry_at(2))
  moreover have "S(off := None) = S |` (- {off})" by (auto simp: restrict_map_def)
  moreover have "off \<in> snd ` set (tq_entries (tqp ix) (xs @ q # ys))" unfolding tq_entry_at(1) off by simp
  ultimately show ?thesis unfolding deletes_def using d ctl by (auto simp: same_mgr_def)
qed

lemma DeleteOldest_loop_spec:
  assumes "index_core ix D S (xs @ ys) {}" and sp: "4 \<le> spares (fbp ix)" and dec: "decode_ok dec S" and mv: "hook_ok mv"
  shows "\<exists>st k' p ix'. del_oldest dec k S (tq_entries (tqp ix) ys) = (st, k', p) \<and>
    DeleteOldest_loop dec mv k (Some (hd (ys @ [TQ_NIL]))) EACCES ix = Some (st, k', ix') \<and>
    (p = None \<longrightarrow> st \<noteq> 0 \<and> ix' = ix) \<and> (\<forall>off. p = Some off \<longrightarrow> st = 0 \<and> deletes ix D S (xs @ ys) {off} {} ix')"
  using assms(1)
proof (induction ys arbitrary: xs k)
  case Nil
  note Q = index_queue [OF Nil]
  obtain A h where "tq_inv (tqp ix) (fbp ix) A (xs @ []) h" using Q(1) by blast
  from tq_inv_node [OF this, of TQ_NIL] have n: "TQ_NIL < length (tqep (tqp ix))" by simp
  have "rl_Find (-1) (rlp ix) = Some RL_NONE" by (rule index_find(2) [OF Nil Q(3)])
  then have "DeleteOldest_loop dec mv k (Some TQ_NIL) EACCES ix = Some (EACCES, k, ix)"
    using n Q(2) by (subst DeleteOldest_loop.simps) simp
  then show ?case by (simp add: tq_entries_def EACCES_def)
next
  case (Cons q ys)
  define off where "off = te_offset (tqep (tqp ix) ! q)"
  obtain A h where inv: "tq_inv (tqp ix) (fbp ix) A (xs @ q # ys) h" using index_queue(1) [OF Cons.prems] by blast
  from tq_inv_node [OF inv] have q: "q < length (tqep (tqp ix))" by simp
  have "snd ` set (tq_entries (tqp ix) (xs @ q # ys)) \<subseteq> dom S" by (rule index_coreE [OF Cons.prems])
  then have "off \<in> dom S" unfolding tq_entry_at(1) off_def by simp
  then obtain e sg where S: "S off = Some (e, sg)" by auto
  obtain i where i: "rl_Find off (rlp ix) = Some i" "i \<noteq> RL_NONE" "i < length (rp (rlp ix))" "span_of (rp (rlp ix)) i = (off, e)"
    using index_find(1) [OF Cons.prems S] by blast
  have ent: "tq_entries (tqp ix) (q # ys) = (te_tv (tqep (tqp ix) ! q), off) # tq_entries (tqp ix) ys"
    by (simp add: tq_entries_def off_def)
  obtain st info where dk: "dec k off e = (st, info)" by fastforce
  consider "st = 0" | "st = EACCES" | "st \<noteq> 0" "st \<noteq> EACCES" by blast
  then show ?case
  proof cases
    case 1
    have dk0: "dec k (te_offset (tqep (tqp ix) ! q)) e = (0, info)" using dk 1 by (simp add: off_def)
    have sg: "signature info = sg" using dec S dk 1 unfolding decode_ok_def by (metis fst_conv snd_conv)
    obtain ix' where t: "TryDeleteProduct q i (dec k) ix = Some (0, Some info, ix')" "index_core ix' D (S(off := None)) (xs @ ys) {}"
      "tq_entries (tqp ix') (xs @ ys) = tq_entries (tqp ix) (xs @ ys)" "same_mgr ix ix'" "ctlp ix' = ctlp ix"
      "spares (fbp ix) \<le> spares (fbp ix') + 4" "nempty (rlp ix) \<le> nempty (rlp ix')"
      using TryDelete_done [where dec = "dec k", OF Cons.prems S [unfolded off_def] i(1) [unfolded off_def] sp dk0 sg, folded off_def]
      by (elim exE conjE) (rule that)
    define ix1 where "ix1 = ix'\<lparr>ctlp := (ctlp ix')\<lparr>isFull := 1\<rparr>\<rparr>"
    define ctl where "ctl = mv k (te_tv (tqep (tqp ix) ! q)) info ix1"
    have "ctl_align ctl = ctl_align (ctlp ix)" using mv t(5) by (simp add: ctl_def hook_ok_def ix1_def)
    from deletes_one [OF Cons.prems off_def t(2-4,6,7) this]
    have del: "deletes ix D S (xs @ q # ys) {off} {} (ix'\<lparr>ctlp := ctl\<rparr>)" .
    have "DeleteOldest_loop dec mv k (Some q) EACCES ix = Some (0, Suc k, ix'\<lparr>ctlp := ctl\<rparr>)"
      using q i(1,2) t(1) by (subst DeleteOldest_loop.simps) (simp add: off_def ctl_def ix1_def)
    then show ?thesis using del dk 1 S unfolding ent by auto
  next
    case 2
    obtain st' k' p ix' where r: "del_oldest dec (Suc k) S (tq_entries (tqp ix) ys) = (st', k', p)"
      "DeleteOldest_loop dec mv (Suc k) (Some (hd (ys @ [TQ_NIL]))) EACCES ix = Some (st', k', ix')"
      "p = None \<longrightarrow> st' \<noteq> 0 \<and> ix' = ix" "\<forall>off. p = Some off \<longrightarrow> st' = 0 \<and> deletes ix D S ((xs @ [q]) @ ys) {off} {} ix'"
      using Cons.IH [of "xs @ [q]" "Suc k"] Cons.prems by auto
    have ne: "EACCES \<noteq> 0" by (simp add: EACCES_def)
    have ref: "TryDeleteProduct q i (dec k) ix = Some (EACCES, Some info, ix)"
      by (rule TryDelete_refused [OF q off_def [symmetric] i(3,4)]) (use dk 2 ne in simp_all)
    have "DeleteOldest_loop dec mv k (Some q) EACCES ix = Some (st', k', ix')"
      using q i(1,2) ref tq_Next_spec [OF inv] r(2) ne by (subst DeleteOldest_loop.simps) (auto simp: off_def)
    then show ?thesis using r(1,3,4) dk 2 S ne unfolding ent by auto
  next
    case 3
    have ref: "TryDeleteProduct q i (dec k) ix = Some (st, Some info, ix)"
      by (rule TryDelete_refused [OF q off_def [symmetric] i(3,4)]) (use dk 3 in simp_all)
    have "DeleteOldest_loop dec mv k (Some q) EACCES ix = Some (st, Suc k, ix)"
      using q i(1,2) ref 3 by (subst DeleteOldest_loop.simps) (auto simp: off_def)
    then show ?thesis using dk 3 S unfolding ent by auto
  qed
qed

lemma DeleteOldest_spec:
  assumes c: "index_core ix D S L {}" and sp: "4 \<le> spares (fbp ix)" and dec: "decode_ok dec S" and mv: "hook_ok mv"
  shows "\<exists>st k' p ix'. del_oldest dec k S (tq_entries (tqp ix) L) = (st, k', p) \<and> DeleteOldest dec mv k ix = Some (st, k', ix') \<and>
    (p = None \<longrightarrow> st \<noteq> 0 \<and> ix' = ix) \<and> (\<forall>off. p = Some off \<longrightarrow> st = 0 \<and> deletes ix D S L {off} {} ix')"
proof (cases "L = []")
  case True
  obtain A h where "tq_inv (tqp ix) (fbp ix) A L h" using index_queue(1) [OF c] by blast
  then have "tq_First (tqp ix) (fbp ix) = Some None" using tq_First_spec True by simp
  then have "DeleteOldest dec mv k ix = Some (EACCES, k, ix)" by (simp add: DeleteOldest_def DeleteOldest_loop.simps)
  then show ?thesis using True by (simp add: tq_entries_def EACCES_def)
next
  case False
  obtain A h where "tq_inv (tqp ix) (fbp ix) A L h" using index_queue(1) [OF c] by blast
  then have "tq_First (tqp ix) (fbp ix) = Some (Some (hd (L @ [TQ_NIL])))" using tq_First_spec False by simp
  then have "DeleteOldest dec mv k ix = DeleteOldest_loop dec mv k (Some (hd (L @ [TQ_NIL]))) EACCES ix" by (simp add: DeleteOldest_def)
  then show ?thesis using DeleteOldest_loop_spec [of ix D S "[]" L, OF _ sp dec mv, of k] c by simp
qed

lemma deletesE:
  assumes "deletes ix D S L X W ix'"
  obtains L' where "index_core ix' D (S |` (- X)) L' W" "tq_entries (tqp ix') L' = strike X (tq_entries (tqp ix) L)"
    "X \<subseteq> snd ` set (tq_entries (tqp ix) L)" "same_mgr ix ix'" "nempty (rlp ix) \<le> nempty (rlp ix')"
    "spares (fbp ix) \<le> spares (fbp ix') + 4 * card X" "finite X"
proof -
  have "finite X" by (rule finite_subset [of _ "snd ` set (tq_entries (tqp ix) L)"]) (use assms in \<open>auto simp: deletes_def\<close>)
  then show ?thesis using assms that unfolding deletes_def by blast
qed

lemma deletes_trans:
  assumes a: "index_core ix1 D (S |` (- X)) L1 {}" "tq_entries (tqp ix1) L1 = strike X (tq_entries (tqp ix) L)"
      "X \<subseteq> snd ` set (tq_entries (tqp ix) L)" "same_mgr ix ix1" "nempty (rlp ix) \<le> nempty (rlp ix1)"
      "spares (fbp ix) \<le> spares (fbp ix1) + 4 * card X" "finite X"
    and b: "deletes ix1 D (S |` (- X)) L1 Y W ix2"
  shows "deletes ix D S L (X \<union> Y) W ix2"
proof -
  obtain L2 where y: "index_core ix2 D (S |` (- X) |` (- Y)) L2 W" "tq_entries (tqp ix2) L2 = strike Y (tq_entries (tqp ix1) L1)"
    "Y \<subseteq> snd ` set (tq_entries (tqp ix1) L1)" "same_mgr ix1 ix2" "nempty (rlp ix1) \<le> nempty (rlp ix2)"
    "spares (fbp ix1) \<le> spares (fbp ix2) + 4 * card Y" "finite Y"
    by (rule deletesE [OF b])
  have "Y \<subseteq> snd ` set (tq_entries (tqp ix) L)" "X \<inter> Y = {}" using y(3) unfolding a(2) by auto
  moreover from this have "card (X \<union> Y) = card X + card Y" using a(7) y(7) by (simp add: card_Un_disjoint)
  moreover have "S |` (- X) |` (- Y) = S |` (- (X \<union> Y))" by (simp add: restrict_restrict)
  moreover have "strike Y (strike X Q) = strike (X \<union> Y) Q" for Q by (auto intro!: filter_cong)
  ultimately show ?thesis using a y same_mgr_trans [OF a(4) y(4)] unfolding deletes_def by auto
qed

lemma strike_length:
  assumes "off \<in> snd ` set Q"
  shows "length (strike {off} Q) < length Q"
proof -
  obtain p where "p \<in> set Q" "snd p = off" using assms by auto
  then show ?thesis using length_filter_less [of p Q "\<lambda>p. snd p \<notin> {off}"] by simp
qed

lemma deletes_step:
  assumes z: "deletes ix D S L {off} {} ix1" and sp: "4 * length L + n \<le> spares (fbp ix)" and dk: "decode_ok dec S"
  obtains L1 where "index_core ix1 D (S |` (- {off})) L1 {}" "length L1 < length L" "4 * length L1 + n \<le> spares (fbp ix1)"
    "decode_ok dec (S |` (- {off}))" "nempty (rlp ix) \<le> nempty (rlp ix1)" "same_mgr ix ix1"
    "\<And>Y W ix2. deletes ix1 D (S |` (- {off})) L1 Y W ix2 \<Longrightarrow> deletes ix D S L (insert off Y) W ix2"
proof -
  obtain L1 where x: "index_core ix1 D (S |` (- {off})) L1 {}" "tq_entries (tqp ix1) L1 = strike {off} (tq_entries (tqp ix) L)"
    "{off} \<subseteq> snd ` set (tq_entries (tqp ix) L)" "same_mgr ix ix1" "nempty (rlp ix) \<le> nempty (rlp ix1)"
    "spares (fbp ix) \<le> spares (fbp ix1) + 4 * card {off}" "finite {off}"
    by (rule deletesE [OF z])
  have "length (strike {off} (tq_entries (tqp ix) L)) < length (tq_entries (tqp ix) L)" by (rule strike_length) (use x(3) in simp)
  then have len: "length L1 < length L" unfolding x(2) [symmetric] by (simp add: tq_entries_def)
  have "4 * length L1 + n \<le> spares (fbp ix1)" using len x(6) sp by simp
  moreover have "decode_ok dec (S |` (- {off}))" by (rule decode_ok_sub [OF dk]) (auto simp: map_le_def restrict_map_def)
  moreover have "deletes ix D S L (insert off Y) W ix2" if "deletes ix1 D (S |` (- {off})) L1 Y W ix2" for Y W ix2
    using deletes_trans [OF x that] by simp
  ultimately show ?thesis using x(1,4,5) len that by blast
qed

subsection \<open>Making room\<close>

lemma MakeSlot_spec:
  assumes "index_core ix D S L {}" "4 * length L + 4 \<le> spares (fbp ix)" "decode_ok dec S" "hook_ok mv"
  shows "\<exists>st k' ix' X. MakeSlot dec mv k ix = Some (st, k', ix') \<and> deletes ix D S L X {} ix' \<and> (st = 0 \<longrightarrow> rl_HasSpace (rlp ix'))"
  using assms
proof (induction "length L" arbitrary: ix S L k rule: less_induct)
  case less
  show ?case
  proof (cases "rl_nelems (rlp ix) = 0")
    case True
    then have "MakeSlot dec mv k ix = Some (ENOMEM, k, ix)" by (subst MakeSlot.simps) simp
    then show ?thesis using deletes_none [OF less.prems(1)] by (auto simp: ENOMEM_def)
  next
    case False
    have sp: "4 \<le> spares (fbp ix)" using less.prems(2) by simp
    obtain st k1 p ix1 where d: "DeleteOldest dec mv k ix = Some (st, k1, ix1)" "p = None \<longrightarrow> st \<noteq> 0 \<and> ix1 = ix"
      "\<forall>off. p = Some off \<longrightarrow> st = 0 \<and> deletes ix D S L {off} {} ix1"
      using DeleteOldest_spec [OF less.prems(1) sp less.prems(3,4), of k] by blast
    show ?thesis
    proof (cases p)
      case None
      then have "MakeSlot dec mv k ix = Some (st, k1, ix)" using d False by (subst MakeSlot.simps) simp
      then show ?thesis using deletes_none [OF less.prems(1)] None d(2) by blast
    next
      case (Some off)
      then have z: "st = 0" "deletes ix D S L {off} {} ix1" using d(3) by auto
      show ?thesis
      proof (cases "rl_HasSpace (rlp ix1)")
        case True
        then have "MakeSlot dec mv k ix = Some (0, k1, ix1)" using d(1) z(1) False by (subst MakeSlot.simps) simp
        then show ?thesis using z(2) True by blast
      next
        case full: False
        obtain L1 where x: "index_core ix1 D (S |` (- {off})) L1 {}" "length L1 < length L" "4 * length L1 + 4 \<le> spares (fbp ix1)"
          "decode_ok dec (S |` (- {off}))" "nempty (rlp ix) \<le> nempty (rlp ix1)" "same_mgr ix ix1"
          and join: "\<And>Y W ix2. deletes ix1 D (S |` (- {off})) L1 Y W ix2 \<Longrightarrow> deletes ix D S L (insert off Y) W ix2"
          using deletes_step [OF z(2) less.prems(2,3)] by metis
        obtain st' k' ix' X where m: "MakeSlot dec mv k1 ix1 = Some (st', k', ix')" "deletes ix1 D (S |` (- {off})) L1 X {} ix'"
          "st' = 0 \<longrightarrow> rl_HasSpace (rlp ix')"
          using less.hyps [OF x(2,1,3,4) less.prems(4), of k1] by blast
        have "MakeSlot dec mv k ix = Some (st', k', ix')"
          using d(1) z(1) False full m(1) by (subst MakeSlot.simps) simp
        then show ?thesis using join [OF m(2)] m(3) by blast
      qed
    qed
  qed
qed

lemma index_core_fields [simp]:
  "index_core (ix\<lparr>smallest_extent_seen := x\<rparr>) D S L W \<longleftrightarrow> index_core ix D S L W"
  "index_core (ix\<lparr>rnd := r\<rparr>) D S L W \<longleftrightarrow> index_core ix D S L W"
  by (simp_all add: index_core_def)

text \<open>Taking the best fit out of the free space.\<close>

lemma index_get:
  assumes c: "index_core ix D S L {}" and e: "0 < e"
  shows "maxfextent (rlp ix) < e \<and> rl_Get e (rlp ix) (fbp ix) = Some (RL_NONE, rlp ix, fbp ix) \<or>
    (\<exists>i rl fb. rl_Get e (rlp ix) (fbp ix) = Some (i, rl, fb) \<and> i \<noteq> RL_NONE \<and> e \<le> slot_ext (rp rl) i \<and>
      index_core (ix\<lparr>rlp := rl, fbp := fb\<rparr>) D S L {i} \<and> spares fb = spares (fbp ix) \<and> nempty rl = nempty (rlp ix))"
proof -
  obtain G FO E U h M where t: "rl_table G (rlp ix) (fbp ix) FO E U {} D" "tq_in G (tqp ix) L h" "sx_inv (sxp ix) M" "sig_index S M"
    "regions_of (rlp ix) U S" "sx_nelems (sxp ix) = card U" "sx_nalloc (sxp ix) = rl_nalloc (rlp ix)"
    "distinct (map snd (tq_entries (tqp ix) L))" "snd ` set (tq_entries (tqp ix) L) \<subseteq> dom S" "tq_nalloc (tqp ix) = rl_nalloc (rlp ix)"
    by (rule index_coreE [OF c])
  from rl_Get_table [OF t(1), of e] show ?thesis
  proof (elim disjE exE conjE)
    fix i rl fb
    assume g: "rl_Get e (rlp ix) (fbp ix) = Some (i, rl, fb)" "e \<le> slot_ext (rp (rlp ix)) i" "rl_table G rl fb (remove1 i FO) E U {i} D"
      "rp rl = rp (rlp ix)" "spares fb = spares (fbp ix)" "i \<noteq> RL_NONE" "rl_nalloc rl = rl_nalloc (rlp ix)"
    have "index_core (ix\<lparr>rlp := rl, fbp := fb\<rparr>) D S L {i}"
      by (rule index_coreI [where G = G and U = U and h = h and M = M and FO = "remove1 i FO" and E = E])
         (use g(3,4,7) t(2-10) in \<open>simp_all add: regions_of_def\<close>)
    moreover have "nempty rl = nempty (rlp ix)" using table_counts(3) [OF g(3)] table_counts(3) [OF t(1)] by simp
    ultimately show ?thesis using g by auto
  next
    assume g: "\<forall>j \<in> set FO. slot_ext (rp (rlp ix)) j < e" "rl_Get e (rlp ix) (fbp ix) = Some (RL_NONE, rlp ix, fbp ix)"
    have "maxfextent (rlp ix) = max_ext (rp (rlp ix)) (set FO)" using rl_tableD(1) [OF t(1)] by (simp add: rl_inv_def)
    then have "maxfextent (rlp ix) < e" using g(1) e by (simp add: max_ext_def)
    then show ?thesis using g(2) by blast
  qed
qed

lemma MakeSpace_spec:
  assumes "index_core ix D S L {}" "4 * length L + n \<le> spares (fbp ix)" "4 \<le> n" "decode_ok dec S" "hook_ok mv" and e: "0 < e"
  shows "\<exists>st i k' ix' X. MakeSpace e dec mv k ix = Some (st, i, k', ix') \<and> deletes ix D S L X (if st = 0 then {i} else {}) ix' \<and>
    (st = 0 \<longrightarrow> e \<le> slot_ext (rp (rlp ix')) i \<and> n \<le> spares (fbp ix'))"
  using assms(1-5)
proof (induction "length L" arbitrary: ix S L k rule: less_induct)
  case less
  show ?case
  proof (cases "rl_nelems (rlp ix) = 0")
    case True
    then have "MakeSpace e dec mv k ix = Some (ENOMEM, RL_NONE, k, ix)" by (subst MakeSpace.simps) simp
    then show ?thesis using deletes_none [OF less.prems(1)] by (auto simp: ENOMEM_def)
  next
    case False
    have sp: "4 \<le> spares (fbp ix)" using less.prems(2,3) by simp
    obtain st k1 p ix1 where d: "DeleteOldest dec mv k ix = Some (st, k1, ix1)" "p = None \<longrightarrow> st \<noteq> 0 \<and> ix1 = ix"
      "\<forall>off. p = Some off \<longrightarrow> st = 0 \<and> deletes ix D S L {off} {} ix1"
      using DeleteOldest_spec [OF less.prems(1) sp less.prems(4,5), of k] by blast
    show ?thesis
    proof (cases p)
      case None
      then have "MakeSpace e dec mv k ix = Some (st, RL_NONE, k1, ix)" using d False by (subst MakeSpace.simps) simp
      then show ?thesis using deletes_none [OF less.prems(1)] None d(2) by auto
    next
      case (Some off)
      then have z: "st = 0" "deletes ix D S L {off} {} ix1" using d(3) by auto
      obtain L1 where x: "index_core ix1 D (S |` (- {off})) L1 {}" "length L1 < length L" "4 * length L1 + n \<le> spares (fbp ix1)"
        "decode_ok dec (S |` (- {off}))" "nempty (rlp ix) \<le> nempty (rlp ix1)" "same_mgr ix ix1"
        and join: "\<And>Y W ix2. deletes ix1 D (S |` (- {off})) L1 Y W ix2 \<Longrightarrow> deletes ix D S L (insert off Y) W ix2"
        using deletes_step [OF z(2) less.prems(2,4)] by metis
      from index_get [OF x(1) e] show ?thesis
      proof (elim disjE exE conjE)
        assume g: "rl_Get e (rlp ix1) (fbp ix1) = Some (RL_NONE, rlp ix1, fbp ix1)"
        obtain st' i k' ix' X where m: "MakeSpace e dec mv k1 ix1 = Some (st', i, k', ix')"
          "deletes ix1 D (S |` (- {off})) L1 X (if st' = 0 then {i} else {}) ix'"
          "st' = 0 \<longrightarrow> e \<le> slot_ext (rp (rlp ix')) i \<and> n \<le> spares (fbp ix')"
          using less.hyps [OF x(2,1,3) less.prems(3) x(4) less.prems(5), of k1] by blast
        have "MakeSpace e dec mv k ix = Some (st', i, k', ix')"
          using d(1) z(1) False g m(1) by (subst MakeSpace.simps) simp
        then show ?thesis using join [OF m(2)] m(3) by blast
      next
        fix i rl fb
        assume g: "rl_Get e (rlp ix1) (fbp ix1) = Some (i, rl, fb)" "i \<noteq> RL_NONE" "e \<le> slot_ext (rp rl) i"
          "index_core (ix1\<lparr>rlp := rl, fbp := fb\<rparr>) D (S |` (- {off})) L1 {i}" "spares fb = spares (fbp ix1)" "nempty rl = nempty (rlp ix1)"
        have run: "MakeSpace e dec mv k ix = Some (0, i, k1, ix1\<lparr>rlp := rl, fbp := fb\<rparr>)"
          using d(1) z(1) False g(1,2) by (subst MakeSpace.simps) simp
        have "S |` (- {off}) |` (- {}) = S |` (- {off})" by simp
        then have "deletes ix1 D (S |` (- {off})) L1 {} {i} (ix1\<lparr>rlp := rl, fbp := fb\<rparr>)"
          unfolding deletes_def using g(4-6) by (auto simp: same_mgr_def)
        from join [OF this] show ?thesis using run g(3,5) x(3)
          by (intro exI [of _ 0] exI [of _ i] exI [of _ k1] exI [of _ "ix1\<lparr>rlp := rl, fbp := fb\<rparr>"]) auto
      qed
    qed
  qed
qed

lemma index_split:
  assumes c: "index_core ix D S L {i}" and e: "0 < e" "e < slot_ext (rp (rlp ix)) i" "even e" and sp: "2 \<le> spares (fbp ix)"
    and em: "0 < nempty (rlp ix)"
  shows "\<exists>rl fb r. Split i e (rlp ix) (fbp ix) (rnd ix) = Some (0, rl, fb, r) \<and>
    index_core (ix\<lparr>rlp := rl, fbp := fb, rnd := r\<rparr>) D S L {i} \<and> span_of (rp rl) i = (slot_off (rp (rlp ix)) i, e) \<and>
    spares (fbp ix) \<le> spares fb + 2"
proof -
  obtain G FO E U h M where t: "rl_table G (rlp ix) (fbp ix) FO E U {i} D" "tq_in G (tqp ix) L h" "sx_inv (sxp ix) M" "sig_index S M"
    "regions_of (rlp ix) U S" "sx_nelems (sxp ix) = card U" "sx_nalloc (sxp ix) = rl_nalloc (rlp ix)"
    "distinct (map snd (tq_entries (tqp ix) L))" "snd ` set (tq_entries (tqp ix) L) \<subseteq> dom S" "tq_nalloc (tqp ix) = rl_nalloc (rlp ix)"
    by (rule index_coreE [OF c])
  have "\<not> (E = [] \<or> spares (fbp ix) \<le> 1)" using sp em table_counts(3) [OF t(1)] by auto
  then obtain new E' rl fb r where s: "E = new # E'" "Split i e (rlp ix) (fbp ix) (rnd ix) = Some (0, rl, fb, r)"
    "rl_table G rl fb (insort_key (slot_off (rp rl)) new FO) E' U {i} D" "span_of (rp rl) i = (slot_off (rp (rlp ix)) i, e)"
    "\<forall>j \<in> set FO \<union> U. span_of (rp rl) j = span_of (rp (rlp ix)) j" "spares (fbp ix) \<le> spares fb + 2"
    using Split_table [OF t(1) e, of "rnd ix"] by blast
  have "rl_nalloc rl = rl_nalloc (rlp ix)" using table_counts(1,4) [OF t(1)] table_counts(1,4) [OF s(3)] s(1) by simp
  moreover have so: "slot_off (rp rl) j = slot_off (rp (rlp ix)) j" "slot_ext (rp rl) j = slot_ext (rp (rlp ix)) j" if "j \<in> U" for j
    using s(5) that by (simp_all add: span_of_def)
  have "regions_of rl U S" using t(5) so unfolding regions_of_def by simp
  ultimately have "index_core (ix\<lparr>rlp := rl, fbp := fb, rnd := r\<rparr>) D S L {i}"
    by (intro index_coreI [where G = G and U = U and h = h and M = M and FO = "insort_key (slot_off (rp rl)) new FO" and E = E'])
       (use s(3) t(2-10) in simp_all)
  then show ?thesis using s(2,4,6) by blast
qed

text \<open>The taken region enters the hash table and the signature index; the latter always has room for it.\<close>

lemma index_enter:
  assumes c: "index_core ix D S L {i}" and sg: "\<not> signed S sg"
  defines "off \<equiv> slot_off (rp (rlp ix)) i" and "e \<equiv> slot_ext (rp (rlp ix)) i"
  shows "\<exists>rl j sx. i < length (rp (rlp ix)) \<and>
    AddToHash i ((rlp ix)\<lparr>rp := (rp (rlp ix))[i := SetAlloc (rp (rlp ix) ! i)]\<rparr>) = Some rl \<and> i < length (rp rl) \<and>
    span_of (rp rl) i = (off, e) \<and> sx_Add sg off (sxp ix) = Some (Some j, sx) \<and> off \<notin> dom S \<and>
    index_core (ix\<lparr>rlp := rl, sxp := sx\<rparr>) D (S(off \<mapsto> (e, sg))) L {}"
proof -
  obtain G FO E U h M where t: "rl_table G (rlp ix) (fbp ix) FO E U {i} D" "tq_in G (tqp ix) L h" "sx_inv (sxp ix) M" "sig_index S M"
    "regions_of (rlp ix) U S" "sx_nelems (sxp ix) = card U" "sx_nalloc (sxp ix) = rl_nalloc (rlp ix)"
    "distinct (map snd (tq_entries (tqp ix) L))" "snd ` set (tq_entries (tqp ix) L) \<subseteq> dom S" "tq_nalloc (tqp ix) = rl_nalloc (rlp ix)"
    by (rule index_coreE [OF c])
  have iu: "i \<notin> U" using rl_tableD(7) [OF t(1)] by blast
  have il: "i < length (rp (rlp ix))" by (rule table_slot(2) [OF t(1)]) simp
  obtain rl where h: "AddToHash i ((rlp ix)\<lparr>rp := (rp (rlp ix))[i := SetAlloc (rp (rlp ix) ! i)]\<rparr>) = Some rl"
    "rl_table G rl (fbp ix) FO E (insert i U) {} D" "\<forall>j. span_of (rp rl) j = span_of (rp (rlp ix)) j" "rl_nalloc rl = rl_nalloc (rlp ix)"
    using hash_taken [OF t(1)] by blast
  have so: "slot_off (rp rl) j = slot_off (rp (rlp ix)) j" "slot_ext (rp rl) j = slot_ext (rp (rlp ix)) j" for j
    using h(3) by (simp_all add: span_of_def)
  have il': "i < length (rp rl)" by (rule table_slot(2) [OF h(2)]) simp
  have ne: "off \<noteq> slot_off (rp (rlp ix)) j" if "j \<in> U" for j
    using inj_onD [OF slot_off_inj [OF t(1)], of i j] that iu by (auto simp: off_def)
  then have new: "off \<notin> dom S" using t(5) by (auto simp: regions_of_def)
  have full: "sx_nelems (sxp ix) \<noteq> sx_nalloc (sxp ix)" using table_counts(1,4) [OF t(1)] t(6,7) by simp
  obtain j sx where x: "sx_Add sg off (sxp ix) = Some (Some j, sx)" "sx_inv sx (M(sg := off # M sg))"
    "sx_nalloc sx = sx_nalloc (sxp ix)" "sx_nelems sx = Suc (sx_nelems (sxp ix))"
    using sx_Add_spec [OF t(3), of sg off] full by auto
  have m: "M sg = []" using sig_index_free [OF t(4)] sg by simp
  have "e' = slot_ext (rp (rlp ix)) j"
    if "j \<in> insert i U" "(S(off \<mapsto> (e, sg))) (slot_off (rp (rlp ix)) j) = Some (e', sg')" for j e' sg'
  proof (cases "j = i")
    case False
    then have "j \<in> U" "S (slot_off (rp (rlp ix)) j) = Some (e', sg')" using that ne [of j] by auto
    then show ?thesis using t(5) unfolding regions_of_def by blast
  qed (use that in \<open>simp add: off_def e_def\<close>)
  then have "regions_of rl (insert i U) (S(off \<mapsto> (e, sg)))"
    using t(5) unfolding regions_of_def so by (simp add: off_def)
  moreover have "snd ` set (tq_entries (tqp ix) L) \<subseteq> dom (S(off \<mapsto> (e, sg)))" using t(9) by auto
  moreover have "card (insert i U) = Suc (card U)" using iu rl_tableD(12) [OF t(1)] by simp
  ultimately have "index_core (ix\<lparr>rlp := rl, sxp := sx\<rparr>) D (S(off \<mapsto> (e, sg))) L {}"
    by (intro index_coreI [where G = G and U = "insert i U" and h = h and M = "M(sg := off # M sg)" and FO = FO and E = E])
       (use h(2,4) x(2-4) t(2,6-8,10) sig_index_new [OF t(4) m new] in simp_all)
  then show ?thesis using il h(1,3) il' x(1) new so by (auto simp: span_of_def off_def e_def)
qed

lemma index_regions:
  assumes c: "index_core ix D S L {}" and a: "S a = Some (e, sg)"
  shows "0 < e" "{a ..< a + int e} \<subseteq> D" "S b = Some (e', sg') \<Longrightarrow> a \<noteq> b \<Longrightarrow> {a ..< a + int e} \<inter> {b ..< b + int e'} = {}"
proof -
  obtain G FO E U h M where t: "rl_table G (rlp ix) (fbp ix) FO E U {} D" "regions_of (rlp ix) U S"
    by (rule index_coreE [OF c])
  have slot: "\<exists>i \<in> U. Region_Alloc.reg (rp (rlp ix)) i = {x ..< x + int y} \<and> slot_off (rp (rlp ix)) i = x \<and> slot_ext (rp (rlp ix)) i = y"
    if "S x = Some (y, z)" for x y z
  proof -
    have "x \<in> slot_off (rp (rlp ix)) ` U" using that t(2) unfolding regions_of_def by blast
    then obtain i where i: "i \<in> U" "slot_off (rp (rlp ix)) i = x" by auto
    moreover have "slot_ext (rp (rlp ix)) i = y" using i t(2) that unfolding regions_of_def by blast
    ultimately show ?thesis by (auto simp: Region_Alloc.reg_def)
  qed
  note SP = rl_tableD(9) [OF t(1), unfolded space_ok_def]
  obtain i where i: "i \<in> U" "Region_Alloc.reg (rp (rlp ix)) i = {a ..< a + int e}" "slot_off (rp (rlp ix)) i = a" "slot_ext (rp (rlp ix)) i = e"
    using slot [OF a] by blast
  have iw: "i \<in> set FO \<union> (U \<union> {})" using i(1) by simp
  show "0 < e" using SP iw i(4) by blast
  show "{a ..< a + int e} \<subseteq> D" using SP iw unfolding i(2) [symmetric] by blast
  show "{a ..< a + int e} \<inter> {b ..< b + int e'} = {}" if b: "S b = Some (e', sg')" "a \<noteq> b"
  proof -
    obtain j where j: "j \<in> U" "Region_Alloc.reg (rp (rlp ix)) j = {b ..< b + int e'}" "slot_off (rp (rlp ix)) j = b" using slot [OF b(1)] by blast
    have "i \<noteq> j" using i(3) j(3) b(2) by blast
    then show ?thesis using SP iw j(1) unfolding i(2) [symmetric] j(2) [symmetric] by blast
  qed
qed

lemma enter_region_spec:
  assumes c: "index_core ix D S L {i}" and sg: "\<not> signed S sg" and e: "0 < e" "e \<le> slot_ext (rp (rlp ix)) i" "even e" "e < 2 ^ 62"
    and sm: "smallest_extent_seen ix \<le> e" and sp: "2 \<le> spares (fbp ix)" and em: "0 < nempty (rlp ix)"
  shows "\<exists>off x ix'. enter_region e sg i ix = Some (0, Some (off, x), ix') \<and> off \<notin> dom S \<and> e \<le> x \<and> x \<le> 2 * e + 64 \<and>
    index_core ix' D (S(off \<mapsto> (x, sg))) L {} \<and> tqp ix' = tqp ix \<and> spares (fbp ix) \<le> spares (fbp ix') + 2 \<and> ctlp ix' = ctlp ix"
proof -
  have sum: "sz_add (sz_add e (smallest_extent_seen ix)) 64 = e + smallest_extent_seen ix + 64" using e(4) sm by simp
  obtain rl fb r where s: "(if e + smallest_extent_seen ix + 64 < slot_ext (rp (rlp ix)) i
        then Split i e (rlp ix) (fbp ix) (rnd ix) else Some (0, rlp ix, fbp ix, rnd ix)) = Some (0, rl, fb, r)"
    "index_core (ix\<lparr>rlp := rl, fbp := fb, rnd := r\<rparr>) D S L {i}" "e \<le> slot_ext (rp rl) i" "slot_ext (rp rl) i \<le> 2 * e + 64"
    "spares (fbp ix) \<le> spares fb + 2"
  proof (cases "e + smallest_extent_seen ix + 64 < slot_ext (rp (rlp ix)) i")
    case True
    then have "e < slot_ext (rp (rlp ix)) i" by simp
    from index_split [OF c e(1) this e(3) sp em] True that show ?thesis by (auto simp: span_of_def)
  next
    case False
    then have "slot_ext (rp (rlp ix)) i \<le> 2 * e + 64" using sm by simp
    then show ?thesis using that [of "rlp ix" "fbp ix" "rnd ix"] False c e(2) by simp
  qed
  define ix1 where "ix1 = ix\<lparr>rlp := rl, fbp := fb, rnd := r\<rparr>"
  have f: "rlp ix1 = rl" "sxp ix1 = sxp ix" "tqp ix1 = tqp ix" by (simp_all add: ix1_def)
  obtain rl1 j sx where n: "i < length (rp rl)" "AddToHash i (rl\<lparr>rp := (rp rl)[i := SetAlloc (rp rl ! i)]\<rparr>) = Some rl1" "i < length (rp rl1)"
    "span_of (rp rl1) i = (slot_off (rp rl) i, slot_ext (rp rl) i)" "sx_Add sg (slot_off (rp rl) i) (sxp ix) = Some (Some j, sx)"
    "slot_off (rp rl) i \<notin> dom S" "index_core (ix1\<lparr>rlp := rl1, sxp := sx\<rparr>) D (S(slot_off (rp rl) i \<mapsto> (slot_ext (rp rl) i, sg))) L {}"
    using index_enter [OF s(2) [folded ix1_def] sg] unfolding f by blast
  have il: "i < length (rp (rlp ix))"
  proof -
    obtain G FO E U h M where t: "rl_table G (rlp ix) (fbp ix) FO E U {i} D" by (rule index_coreE [OF c])
    show ?thesis by (rule table_slot(2) [OF t]) simp
  qed
  have run: "enter_region e sg i ix = Some (0, Some (slot_off (rp rl) i, slot_ext (rp rl) i), ix1\<lparr>rlp := rl1, sxp := sx\<rparr>)"
    unfolding enter_region_def sum using il s(1) n(1-5) by (simp add: span_of_def ix1_def)
  show ?thesis using run n(6,7) s(3-5) f(3)
    by (intro exI [of _ "slot_off (rp rl) i"] exI [of _ "slot_ext (rp rl) i"] exI [of _ "ix1\<lparr>rlp := rl1, sxp := sx\<rparr>"]) (simp add: ix1_def)
qed

lemma strike_count:
  assumes "distinct (map snd Q)" "X \<subseteq> snd ` set Q"
  shows "length (strike X Q) + card X = length Q"
proof -
  have "distinct (map snd (strike X Q))" using assms(1) by (rule distinct_map_filter)
  then have "length (strike X Q) = card (snd ` set (strike X Q))" using distinct_card by fastforce
  also have "snd ` set (strike X Q) = snd ` set Q - X" by auto
  also have "card \<dots> = card (snd ` set Q) - card X" by (rule card_Diff_subset [OF finite_subset [OF assms(2)] assms(2)]) simp
  finally have a: "length (strike X Q) = card (snd ` set Q) - card X" .
  have "card X \<le> card (snd ` set Q)" by (rule card_mono [OF _ assms(2)]) simp
  moreover have "card (snd ` set Q) = length Q" using distinct_card [OF assms(1)] by simp
  ultimately show ?thesis using a by linarith
qed

lemma deletes_budget:
  assumes c: "index_core ix D S L {}" and d: "deletes ix D S L X W ix'" and sp: "4 * length L + n \<le> spares (fbp ix)"
  obtains L' where "index_core ix' D (S |` (- X)) L' W" "tq_entries (tqp ix') L' = strike X (tq_entries (tqp ix) L)"
    "4 * length L' + n \<le> spares (fbp ix')" "same_mgr ix ix'" "nempty (rlp ix) \<le> nempty (rlp ix')"
    "X \<subseteq> snd ` set (tq_entries (tqp ix) L)" "finite X" "spares (fbp ix) \<le> spares (fbp ix') + 4 * card X"
proof -
  obtain L' where x: "index_core ix' D (S |` (- X)) L' W" "tq_entries (tqp ix') L' = strike X (tq_entries (tqp ix) L)"
    "X \<subseteq> snd ` set (tq_entries (tqp ix) L)" "same_mgr ix ix'" "nempty (rlp ix) \<le> nempty (rlp ix')"
    "spares (fbp ix) \<le> spares (fbp ix') + 4 * card X" "finite X"
    by (rule deletesE [OF d])
  have "distinct (map snd (tq_entries (tqp ix) L))" by (rule index_coreE [OF c])
  from strike_count [OF this x(3)] have "length L' + card X = length L" unfolding x(2) [symmetric] by (simp add: tq_entries_def)
  then have "4 * length L' + n \<le> spares (fbp ix')" using x(6) sp by linarith
  then show ?thesis using x that by blast
qed

lemma find_room:
  assumes c: "index_core ix D S L {}" and e: "0 < e" and sp: "4 * length L + 4 \<le> spares (fbp ix)"
    and dec: "decode_ok dec S" and mv: "hook_ok mv"
  shows "\<exists>j rl fb st i k' ix' Y. rl_Get e (rlp ix) (fbp ix) = Some (j, rl, fb) \<and>
    (if j = RL_NONE then MakeSpace e dec mv k (ix\<lparr>rlp := rl, fbp := fb\<rparr>) else Some (0, j, k, ix\<lparr>rlp := rl, fbp := fb\<rparr>)) = Some (st, i, k', ix') \<and>
    deletes ix D S L Y (if st = 0 then {i} else {}) ix' \<and> (st = 0 \<longrightarrow> e \<le> slot_ext (rp (rlp ix')) i \<and> 4 \<le> spares (fbp ix')) \<and>
    (e \<le> maxfextent (rlp ix) \<longrightarrow> st = 0 \<and> Y = {})"
  using index_get [OF c e]
proof (elim disjE exE conjE)
  assume g: "maxfextent (rlp ix) < e" "rl_Get e (rlp ix) (fbp ix) = Some (RL_NONE, rlp ix, fbp ix)"
  obtain st i k' ix' Y where m: "MakeSpace e dec mv k ix = Some (st, i, k', ix')" "deletes ix D S L Y (if st = 0 then {i} else {}) ix'"
    "st = 0 \<longrightarrow> e \<le> slot_ext (rp (rlp ix')) i \<and> 4 \<le> spares (fbp ix')"
    using MakeSpace_spec [OF c sp _ dec mv e, of k] by auto
  show ?thesis using g m
    by (intro exI [of _ RL_NONE] exI [of _ "rlp ix"] exI [of _ "fbp ix"] exI [of _ st] exI [of _ i] exI [of _ k'] exI [of _ ix'] exI [of _ Y]) simp
next
  fix i rl fb
  assume g: "rl_Get e (rlp ix) (fbp ix) = Some (i, rl, fb)" "i \<noteq> RL_NONE" "e \<le> slot_ext (rp rl) i"
    "index_core (ix\<lparr>rlp := rl, fbp := fb\<rparr>) D S L {i}" "spares fb = spares (fbp ix)" "nempty rl = nempty (rlp ix)"
  have "deletes ix D S L {} {i} (ix\<lparr>rlp := rl, fbp := fb\<rparr>)" unfolding deletes_def using g(4-6) by (auto simp: same_mgr_def)
  then show ?thesis using g(1-3,5) sp
    by (intro exI [of _ i] exI [of _ rl] exI [of _ fb] exI [of _ 0] exI [of _ i] exI [of _ k] exI [of _ "ix\<lparr>rlp := rl, fbp := fb\<rparr>"] exI [of _ "{}"]) simp
qed

lemma find_slot:
  assumes c: "index_core ix D S L {}" and sp: "4 * length L + 4 \<le> spares (fbp ix)" and dec: "decode_ok dec S" and mv: "hook_ok mv"
  shows "\<exists>st k' ix' X. (if \<not> rl_HasSpace (rlp ix) then MakeSlot dec mv k ix else Some (0, k, ix)) = Some (st, k', ix') \<and>
    deletes ix D S L X {} ix' \<and> (st = 0 \<longrightarrow> 0 < nempty (rlp ix')) \<and> (0 < nempty (rlp ix) \<longrightarrow> st = 0 \<and> ix' = ix \<and> X = {})"
proof (cases "rl_HasSpace (rlp ix)")
  case True
  then show ?thesis using deletes_none [OF c] by (auto simp: rl_HasSpace_def)
next
  case False
  then show ?thesis using MakeSlot_spec [OF c sp dec mv, of k] by (auto simp: rl_HasSpace_def)
qed

definition alloc_result :: "QueueIndexManager \<Rightarrow> int set \<Rightarrow> catalogue \<Rightarrow> nat list \<Rightarrow> Signature \<Rightarrow> nat \<Rightarrow> int set \<Rightarrow> int \<Rightarrow> (int \<times> nat) option \<Rightarrow>
    QueueIndexManager \<Rightarrow> bool" where
  "alloc_result ix D S L sg e X st out ix' \<longleftrightarrow> X \<subseteq> snd ` set (tq_entries (tqp ix) L) \<and>
     spares (fbp ix) \<le> spares (fbp ix') + 4 * card X + 2 \<and> ctl_align (ctlp ix') = ctl_align (ctlp ix) \<and>
     (\<exists>S' L'. index_core ix' D S' L' {} \<and> tq_entries (tqp ix') L' = strike X (tq_entries (tqp ix) L) \<and>
       (case out of None \<Rightarrow> st \<noteq> 0 \<and> S' = S |` (- X)
        | Some (off, x) \<Rightarrow> st = 0 \<and> e \<le> x \<and> x \<le> 2 * e + 64 \<and> off \<notin> dom (S |` (- X)) \<and> S' = (S |` (- X))(off \<mapsto> (x, sg))))"

lemma signed_sub: "\<not> signed S sg \<Longrightarrow> \<not> signed (S |` X) sg"
  by (auto simp: signed_def restrict_map_def)

lemma AllocateProductSpace_spec:
  assumes c: "index_core ix D S L {}" and sg: "\<not> signed S sg" and sp: "4 * length L + 4 \<le> spares (fbp ix)"
    and dec: "decode_ok dec S" and mv: "hook_ok mv"
    and r: "roundUp x (ctl_align (ctlp ix)) = Some e" and e: "0 < e" "even e" "e < 2 ^ 62"
  shows "\<exists>st out k' ix' X. AllocateProductSpace x sg dec mv k ix = Some (st, out, k', ix') \<and> alloc_result ix D S L sg e X st out ix' \<and>
    (0 < nempty (rlp ix) \<and> e \<le> maxfextent (rlp ix) \<longrightarrow> st = 0 \<and> X = {})"
proof -
  obtain st1 k1 ix1 X where a: "(if \<not> rl_HasSpace (rlp ix) then MakeSlot dec mv k ix else Some (0, k, ix)) = Some (st1, k1, ix1)"
    "deletes ix D S L X {} ix1" "st1 = 0 \<longrightarrow> 0 < nempty (rlp ix1)" "0 < nempty (rlp ix) \<longrightarrow> st1 = 0 \<and> ix1 = ix \<and> X = {}"
    using find_slot [OF c sp dec mv, of k] by (elim exE conjE) (rule that)
  obtain L1 where l: "index_core ix1 D (S |` (- X)) L1 {}" "tq_entries (tqp ix1) L1 = strike X (tq_entries (tqp ix) L)"
    "4 * length L1 + 4 \<le> spares (fbp ix1)" "same_mgr ix ix1" "nempty (rlp ix) \<le> nempty (rlp ix1)"
    "X \<subseteq> snd ` set (tq_entries (tqp ix) L)" "finite X" "spares (fbp ix) \<le> spares (fbp ix1) + 4 * card X"
    by (rule deletes_budget [OF c a(2) sp])
  have nf: "sx_Find sg (sxp ix) = Some None"
  proof -
    obtain G FO E U h M where t: "sx_inv (sxp ix) M" "sig_index S M" by (rule index_coreE [OF c])
    show ?thesis using sx_Find_spec [OF t(1), of sg] sig_index_free [OF t(2), of sg] sg by simp
  qed
  show ?thesis
  proof (cases "st1 = 0")
    case False
    then have "AllocateProductSpace x sg dec mv k ix = Some (st1, None, k1, ix1)"
      unfolding AllocateProductSpace_def nf using a(1) by simp
    moreover have "alloc_result ix D S L sg e X st1 None ix1" unfolding alloc_result_def using False l(1,2,4,6,8) by (auto simp: same_mgr_def)
    ultimately show ?thesis using a(4) False
      by (intro exI [of _ st1] exI [of _ None] exI [of _ k1] exI [of _ ix1] exI [of _ X]) simp
  next
    case True
    define ix2 where "ix2 = (if e < smallest_extent_seen ix1 then ix1\<lparr>smallest_extent_seen := e\<rparr> else ix1)"
    have f: "rlp ix2 = rlp ix1" "fbp ix2 = fbp ix1" "tqp ix2 = tqp ix1" "smallest_extent_seen ix2 \<le> e"
      "index_core ix2 D (S |` (- X)) L1 {}" using l(1) by (simp_all add: ix2_def)
    have r1: "roundUp x (ctl_align (ctlp ix1)) = Some e" using r l(4) by (simp add: same_mgr_def)
    have dk: "decode_ok dec (S |` (- X))" by (rule decode_ok_sub [OF dec]) (auto simp: map_le_def restrict_map_def)
    have sp2: "4 * length L1 + 4 \<le> spares (fbp ix2)" using l(3) f(2) by simp
    obtain j rl fb st i k4 ix4 Y where g: "rl_Get e (rlp ix2) (fbp ix2) = Some (j, rl, fb)"
      "(if j = RL_NONE then MakeSpace e dec mv k1 (ix2\<lparr>rlp := rl, fbp := fb\<rparr>) else Some (0, j, k1, ix2\<lparr>rlp := rl, fbp := fb\<rparr>)) = Some (st, i, k4, ix4)"
      "deletes ix2 D (S |` (- X)) L1 Y (if st = 0 then {i} else {}) ix4"
      "st = 0 \<longrightarrow> e \<le> slot_ext (rp (rlp ix4)) i \<and> 4 \<le> spares (fbp ix4)" "e \<le> maxfextent (rlp ix2) \<longrightarrow> st = 0 \<and> Y = {}"
      using find_room [OF f(5) e(1) sp2 dk mv, of k1] by (elim exE conjE) (rule that)
    obtain L4 where y: "index_core ix4 D (S |` (- X) |` (- Y)) L4 (if st = 0 then {i} else {})"
      "tq_entries (tqp ix4) L4 = strike Y (tq_entries (tqp ix2) L1)" "4 * length L4 + 4 \<le> spares (fbp ix4)" "same_mgr ix2 ix4"
      "nempty (rlp ix2) \<le> nempty (rlp ix4)" "Y \<subseteq> snd ` set (tq_entries (tqp ix2) L1)" "finite Y"
      "spares (fbp ix2) \<le> spares (fbp ix4) + 4 * card Y"
      by (rule deletes_budget [OF f(5) g(3) sp2])
    have S: "S |` (- X) |` (- Y) = S |` (- (X \<union> Y))" by (simp add: restrict_restrict)
    have en: "tq_entries (tqp ix4) L4 = strike (X \<union> Y) (tq_entries (tqp ix) L)"
      unfolding y(2) f(3) l(2) filter_filter by (rule filter_cong) auto
    have XY: "X \<union> Y \<subseteq> snd ` set (tq_entries (tqp ix) L)" using l(6) y(6) unfolding f(3) l(2) by auto
    have "X \<inter> Y = {}" using y(6) unfolding f(3) l(2) by auto
    then have "card (X \<union> Y) = card X + card Y" using l(7) y(7) by (simp add: card_Un_disjoint)
    then have spare: "spares (fbp ix) \<le> spares (fbp ix4) + 4 * card (X \<union> Y)" using l(8) y(8) f(2) by simp
    have al: "ctl_align (ctlp ix4) = ctl_align (ctlp ix)" using l(4) y(4) by (simp add: same_mgr_def ix2_def)
    have need: "st = 0 \<and> X \<union> Y = {}" if "0 < nempty (rlp ix)" "e \<le> maxfextent (rlp ix)"
      using a(4) g(5) that f(1) by simp
    have run: "AllocateProductSpace x sg dec mv k ix = (if st \<noteq> 0 then Some (st, None, k4, ix4)
        else do { (st5, out, ix5) \<leftarrow> enter_region e sg i ix4; Some (st5, out, k4, ix5) })"
      unfolding AllocateProductSpace_def nf using a(1) True r1 g(1,2) by (simp add: ix2_def [symmetric])
    show ?thesis
    proof (cases "st = 0")
      case False
      have "alloc_result ix D S L sg e (X \<union> Y) st None ix4"
        unfolding alloc_result_def using False y(1) en XY S spare al by auto
      then show ?thesis using run False need by (intro exI [of _ st] exI [of _ None] exI [of _ k4] exI [of _ ix4] exI [of _ "X \<union> Y"]) auto
    next
      case z: True
      have c4: "index_core ix4 D (S |` (- (X \<union> Y))) L4 {i}" using y(1) z S by simp
      have em: "0 < nempty (rlp ix4)" using a(3) True f(1) y(5) by simp
      have sm: "smallest_extent_seen ix4 \<le> e" using f(4) y(4) by (simp add: same_mgr_def)
      have sp4: "2 \<le> spares (fbp ix4)" and e4: "e \<le> slot_ext (rp (rlp ix4)) i" using g(4) z by auto
      obtain off w ix5 where n: "enter_region e sg i ix4 = Some (0, Some (off, w), ix5)" "off \<notin> dom (S |` (- (X \<union> Y)))" "e \<le> w" "w \<le> 2 * e + 64"
        "index_core ix5 D ((S |` (- (X \<union> Y)))(off \<mapsto> (w, sg))) L4 {}" "tqp ix5 = tqp ix4" "spares (fbp ix4) \<le> spares (fbp ix5) + 2"
        "ctlp ix5 = ctlp ix4"
        using enter_region_spec [OF c4 signed_sub [OF sg] e(1) e4 e(2,3) sm sp4 em] by (elim exE conjE) (rule that)
      have "alloc_result ix D S L sg e (X \<union> Y) 0 (Some (off, w)) ix5"
        unfolding alloc_result_def using n(2-8) en XY spare al by auto
      then show ?thesis using run z n(1) need by (intro exI [of _ 0] exI [of _ "Some (off, w)"] exI [of _ k4] exI [of _ ix5] exI [of _ "X \<union> Y"]) auto
    qed
  qed
qed

end
