(* ===== verification/Queue_Lifecycle.thy ===== *)
theory Queue_Lifecycle
  imports Queue_Compose
begin

text \<open>
  The life of a product in the index: the queue is formatted, room for a product is found, the product is entered in
  the time queue or its room is given back, and old products are deleted. Every state that these steps reach is well
  formed.
\<close>

subsection \<open>A new queue\<close>

lemma tq_Initialize_nil:
  assumes "tq_Initialize n tq fb = Some (tq', fb')" "0 < n" "n + 2 \<le> length (tqep tq)"
    "FreeBlock_Get 0 fb = Some (b0, fb1)" "FreeBlock_Get (maxsize fb1 - 1) fb1 = Some (b1, fb2)"
  shows "te_offset (tqep tq' ! TQ_NIL) = -1" "spares fb' = spares fb2"
proof -
  let ?es = "(tqep tq)[0 := \<lparr>te_tv = TS_ENDT, te_offset = -1, te_fblk = b0\<rparr>, Suc 0 := \<lparr>te_tv = TS_NONE, te_offset = -1, te_fblk = b1\<rparr>]"
  have len: "0 < length (tqep tq)" "Suc 0 < length (tqep tq)" "Suc n < length (tqep tq)" using assms(2,3) by auto
  obtain es where es: "tq_free_loop n TQ_OVERHEAD_ELEMS ?es = Some es" "length es = length (tqep tq)" "\<forall>j. j < 2 \<longrightarrow> es ! j = ?es ! j"
    using tq_free_loop_spec [of 2 n ?es] assms(3) by (auto simp: TQ_OVERHEAD_ELEMS_def)
  have "es ! 0 = \<lparr>te_tv = TS_ENDT, te_offset = -1, te_fblk = b0\<rparr>" using es(3) len by simp
  then show "te_offset (tqep tq' ! TQ_NIL) = -1" "spares fb' = spares fb2"
    using assms(1,2,4,5) len es(1,2)
    by (auto simp: tq_Initialize_def bind_eq_Some_conv log_assert_def tq_consts spares_def split: if_splits)
qed

lemma new_queue:
  assumes inv: "fb_inv fb A" and sp: "2 \<le> spares fb" and n: "0 < n" "n + 2 \<le> length (tqep tq)" "n + 2 < SIZE_NONE"
  shows "\<exists>tq' fb' A'. tq_Initialize n tq fb = Some (tq', fb') \<and> tq_inv tq' fb' A' [] (\<lambda>_. 0) \<and> tq_nalloc tq' = n \<and> tq_nfree tq' = n \<and>
    te_offset (tqep tq' ! TQ_NIL) = -1 \<and> spares fb \<le> spares fb' + 2"
proof -
  have ms: "0 < maxsize fb" using fb_inv_maxsize(1) [OF inv] .
  have sp1: "0 < spares fb" using sp by simp
  obtain b0 fb1 n0 where g0: "FreeBlock_Get 0 fb = Some (b0, fb1)" "b0 \<noteq> FBLK_NONE" "spares fb \<le> Suc (spares fb1)"
    "fb_inv fb1 (A(b0 \<mapsto> n0))" "maxsize fb1 = maxsize fb"
    by (rule fresh_get [OF inv ms sp1])
  have l: "maxsize fb - 1 < maxsize fb1" "0 < spares fb1" using ms g0(3,5) sp by simp_all
  obtain b1 fb2 n1 where g1: "FreeBlock_Get (maxsize fb - 1) fb1 = Some (b1, fb2)" "b1 \<noteq> FBLK_NONE" "spares fb1 \<le> Suc (spares fb2)"
    by (rule fresh_get [OF g0(4) l])
  obtain tq' fb' m0 m1 where r: "tq_Initialize n tq fb = Some (tq', fb')" "tq_inv tq' fb' (A(b0 \<mapsto> m0, b1 \<mapsto> m1)) [] (\<lambda>_. 0)"
    "tq_nalloc tq' = n" "tq_nfree tq' = n"
    using tq_Initialize_spec [OF inv n g0(1,2) g1(1,2)] by (elim exE conjE) (rule that)
  have "te_offset (tqep tq' ! TQ_NIL) = -1" "spares fb' = spares fb2"
    using tq_Initialize_nil [OF r(1) n(1,2) g0(1)] g1(1) g0(5) by simp_all
  then show ?thesis using r g0(3) g1(3) by auto
qed

text \<open>The memory that the index manager formats, for \<open>n\<close> products.\<close>

definition index_room :: "nat \<Rightarrow> QueueIndexManager \<Rightarrow> bool" where
  "index_room n ix \<longleftrightarrow> 4 \<le> n \<and> n < 2 ^ 62 \<and> log4 n + 1 < FB_MAX_LEVELS \<and>
     length (fb_nfree (fbp ix)) = FB_MAX_LEVELS \<and> length (fb_free (fbp ix)) = FB_MAX_LEVELS \<and>
     GetArenaSize n \<le> length (fblks (fbp ix)) \<and> length (fblks (fbp ix)) < SIZE_NONE \<and>
     8 \<le> isqrt (9 * n * log4 n * log4 n) \<and>
     n + 2 \<le> length (tqep (tqp ix)) \<and> n + 4 \<le> length (rp (rlp ix)) \<and>
     (\<exists>nch. CalculateNumChains n = Some nch \<and> 0 < nch \<and> nch \<le> length (rh_chains (rlp ix))) \<and>
     n \<le> length (sxep (sxp ix)) \<and> n \<le> length (sx_chains (sxp ix))"

lemma FormatNew_spec:
  assumes room: "index_room n ix" and ir: "ir \<noteq> 0" and lay: "ix_ptrs nd ir isz n align = Some (1, lay)"
    and x: "even x" "0 < x" "x < 2 ^ 62" "0 \<le> off" "off + int x \<le> huge_off_t"
  shows "\<exists>ix'. FormatNew nd ctl ir isz n align off (off + int x) ix = Some (0, ix') \<and>
    index_core ix' {off ..< off + int x} Map.empty [] {} \<and> ctlp ix' = ctl \<and> ixp ix' = ir \<and>
    nbytes (rlp ix') = 0 \<and> maxfextent (rlp ix') = x \<and> nempty (rlp ix') = n - 1 \<and> isqrt (9 * n * log4 n * log4 n) \<le> spares (fbp ix') + 8"
proof -
  note R = room [unfolded index_room_def]
  obtain fb where fb: "FreeBlock_Initialize n (fbp ix) = Some fb" "fb_inv fb Map.empty" "maxsize fb = log4 n + 1"
    using FreeBlock_Initialize_spec [of n "fbp ix"] R by blast
  have sp: "spares fb = isqrt (9 * n * log4 n * log4 n)" by (rule FreeBlock_Initialize_spares [OF fb(1)]) (use R fb(3) in auto)
  have sz: "n + 4 < SIZE_NONE" "n + 2 < SIZE_NONE" "0 < n" using R by (simp_all add: SIZE_NONE_def)
  have sp2: "2 \<le> spares fb" using R sp by simp
  obtain tq fb1 A1 where tq: "tq_Initialize n (tqp ix) fb = Some (tq, fb1)" "tq_inv tq fb1 A1 [] (\<lambda>_. 0)" "tq_nalloc tq = n" "tq_nfree tq = n"
    "te_offset (tqep tq ! TQ_NIL) = -1" "spares fb \<le> spares fb1 + 2"
    using new_queue [OF fb(2) sp2, of n "tqp ix"] sz R by (elim impE exE conjE) (auto intro: that)
  define G where "G = tq_guest tq fb1 A1 []"
  have fb1: "fb_inv fb1 A1" using tq(2) tq_coreD(1) by (auto simp: tq_inv_def)
  have g: "guests_ok G A1 fb1 {}" unfolding G_def by (rule tq_guest_ok(1) [OF tq(2)]) simp
  have q: "tq_in G tq [] (\<lambda>_. 0)" unfolding G_def by (rule tq_in_guest [OF tq(2,5)]) (use tq(3,4) in simp)
  have sp1: "4 \<le> spares fb1" "n + 4 \<le> length (rp (rlp ix))" using tq(6) R sp by auto
  obtain nch where nch: "CalculateNumChains n = Some nch" "0 < nch" "nch \<le> length (rh_chains (rlp ix))" using R by blast
  obtain rl fb2 where rl: "rl_Initialize n (rlp ix) fb1 = Some (rl, fb2)" "rl_inv G rl fb2 [] [4..<n + 4]" "hash_ok rl {}"
    "spares fb1 \<le> spares fb2 + 4" "rl_nalloc rl = n" "rl_nelems rl = 0" "nbytes rl = 0"
    using rl_Initialize_spec [OF fb1 g sp1(1) sz(3) sp1(2) sz(1) nch] by blast
  have up: "[4..<n + 4] = 4 # [5..<n + 4]" using sz(3) by (simp add: upt_conv_Cons)
  have sp3: "2 \<le> spares fb2" using rl(4) tq(6) R sp by auto
  obtain rl1 fb3 r1 where ra: "rl_Add off x rl fb2 (rnd ix) = Some (Some 4, rl1, fb3, r1)" "spares fb2 \<le> spares fb3 + 2"
    "rl_table G (rl1\<lparr>maxfextent := x\<rparr>) fb3 [4] [5..<n + 4] {} {} {off ..< off + int x}" "rl_nalloc rl1 = rl_nalloc rl" "nbytes rl1 = nbytes rl"
    using table_root [OF rl(2) [unfolded up] rl(3,6) sp3 x(1,2,4,5), of "rnd ix"] by (elim exE conjE) (rule that)
  obtain sx where sx: "sx_Initialize n (sxp ix) = Some sx" "sx_inv sx (\<lambda>_. [])" "sx_nalloc sx = n" "sx_nelems sx = 0"
    using sx_Initialize_spec [of n "sxp ix"] R by auto
  define ix' where "ix' = ix\<lparr>ctlp := ctl, ixp := ir, mgr_ixsz := isz, mgr_nalloc := n, fbp := fb3, tqp := tq, rlp := rl1\<lparr>maxfextent := x\<rparr>, rnd := r1, sxp := sx\<rparr>"
  have e: "to_size (off + int x - off) = x" using x(3) by simp
  have "FormatNew nd ctl ir isz n align off (off + int x) ix = Some (0, ix')"
    unfolding FormatNew_def LayoutExisting_def e using ir lay fb(1) tq(1) rl(1) ra(1) sx(1) by (simp add: ix'_def)
  moreover have "index_core ix' {off ..< off + int x} Map.empty [] {}"
    by (rule index_coreI [where G = G and h = "\<lambda>_. 0" and U = "{}" and M = "\<lambda>_. []" and FO = "[4]" and E = "[5..<n + 4]"])
       (use ra(3,4) q sx(2-4) rl(5) tq(3) in \<open>simp_all add: ix'_def sig_index_def regions_of_def tq_entries_def\<close>)
  moreover have "nempty (rlp ix') = n - 1" using table_counts(3) [OF ra(3)] by (simp add: ix'_def)
  ultimately show ?thesis using ra(2,5) rl(4,7) tq(6) sp by (intro exI [of _ ix']) (simp add: ix'_def)
qed

subsection \<open>Entering a product in the time queue\<close>

lemma spares_fblks [simp]: "spares (fb\<lparr>fblks := ar\<rparr>) = spares fb"
  by (simp add: spares_def)

lemma tq_AddE:
  assumes run: "tq_Add off now tq fb r = Some (st, tq', fb', r')"
  obtains tpix tq1 k0 r1 b fb1 e ar where "tq_AllocateElement tq = Some (tpix, tq1)" "GetRandomLevel fb r = (k0, r1)"
    "FreeBlock_Get (cap_level (tq_level tq1) k0) fb = Some (b, fb1)" "st = (if b = FBLK_NONE then ENOSPC else 0)"
    "tqep tq' = (tqep tq1)[nat tpix := e]" "fb' = (if b = FBLK_NONE then fb1 else fb1\<lparr>fblks := ar\<rparr>)"
proof -
  obtain tpix tq1 where a: "tq_AllocateElement tq = Some (tpix, tq1)"
    using run unfolding tq_Add_def by (auto simp: bind_eq_Some_conv log_assert_def split: if_splits)
  obtain k0 r1 where g: "GetRandomLevel fb r = (k0, r1)" by fastforce
  obtain t upd where l: "tq_Add_loop (tqep tq1) (fblks fb) (tq_level tq1) (tq_level tq1) TQ_HEAD now fresh_update = Some (t, upd)"
    using run a unfolding tq_Add_def by (auto simp: bind_eq_Some_conv Let_def log_assert_def split: if_splits)
  obtain tp es where e: "rd (tqep tq1) (nat tpix) = Some tp" "wr (tqep tq1) (nat tpix) (tp\<lparr>te_tv := t\<rparr>) = Some es"
    using run a l unfolding tq_Add_def by (auto simp: bind_eq_Some_conv Let_def log_assert_def split: if_splits)
  obtain b fb1 where f: "FreeBlock_Get (cap_level (tq_level tq1) k0) fb = Some (b, fb1)"
    using run a l e g unfolding tq_Add_def by (auto simp: bind_eq_Some_conv Let_def log_assert_def split: if_splits)
  have es: "es = (tqep tq1)[nat tpix := tp\<lparr>te_tv := t\<rparr>]" using e(2) by (simp add: wr_Some)
  show ?thesis
  proof (cases "b = FBLK_NONE")
    case True
    then show ?thesis using run a l e g f that [OF a g f, of "tp\<lparr>te_tv := t\<rparr>"] es unfolding tq_Add_def
      by (auto simp: bind_eq_Some_conv Let_def log_assert_def split: if_splits)
  next
    case False
    then have "\<exists>es' ar. wr es (nat tpix) \<lparr>te_tv = t, te_offset = off, te_fblk = b\<rparr> = Some es' \<and> fb' = fb1\<lparr>fblks := ar\<rparr> \<and> tqep tq' = es' \<and> st = 0"
      using run a l e g f unfolding tq_Add_def by (auto simp: bind_eq_Some_conv Let_def log_assert_def split: if_splits)
    then obtain es' ar where w: "wr es (nat tpix) \<lparr>te_tv = t, te_offset = off, te_fblk = b\<rparr> = Some es'" "fb' = fb1\<lparr>fblks := ar\<rparr>" "tqep tq' = es'" "st = 0"
      by blast
    have "tqep tq' = (tqep tq1)[nat tpix := \<lparr>te_tv = t, te_offset = off, te_fblk = b\<rparr>]" using w(1,3) es by (simp add: wr_Some)
    then show ?thesis using that [OF a g f] w(2,4) False by simp
  qed
qed

lemma tq_Add_keeps:
  assumes inv: "tq_inv tq fb A L h" and run: "tq_Add off now tq fb r = Some (st, tq', fb', r')" and pos: "0 < tq_nfree tq"
  shows "te_offset (tqep tq' ! TQ_NIL) = te_offset (tqep tq ! TQ_NIL)" "spares fb \<le> Suc (spares fb')" "st \<noteq> 0 \<Longrightarrow> spares fb = 0"
proof -
  obtain fl0 where "tq_core tq fb A L h fl0" using inv by (auto simp: tq_inv_def)
  moreover obtain i fl where "fl0 = i # fl" using tq_coreD(7) [OF calculation] pos by (cases fl0) auto
  ultimately have core: "tq_core tq fb A L h (i # fl)" by simp
  note al = tq_AllocateElement_core [OF core] and fbi = tq_coreD(1) [OF core]
  obtain k0 r1 where rnd: "GetRandomLevel fb r = (k0, r1)" by (cases "GetRandomLevel fb r")
  have "k0 < maxsize fb" using GetRandomLevel_lt [OF fb_inv_maxsize(1) [OF fbi], of r] rnd by simp
  then have k: "cap_level (tq_level tq) k0 < maxsize fb" by (auto simp: cap_level_def)
  have ne: "TQ_NIL \<noteq> i" using al(3) by (simp add: tq_consts)
  obtain tpix tq1 k0' r1' b fb1 e ar where t: "tq_AllocateElement tq = Some (tpix, tq1)" "GetRandomLevel fb r = (k0', r1')"
    "FreeBlock_Get (cap_level (tq_level tq1) k0') fb = Some (b, fb1)" "st = (if b = FBLK_NONE then ENOSPC else 0)"
    "tqep tq' = (tqep tq1)[nat tpix := e]" "fb' = (if b = FBLK_NONE then fb1 else fb1\<lparr>fblks := ar\<rparr>)"
    by (rule tq_AddE [OF run])
  have q: "tpix = int i" "k0' = k0" "tqep tq1 = tqep tq" "tq_level tq1 = tq_level tq" using t(1,2) al(1) rnd by auto
  have G: "b = FBLK_NONE \<Longrightarrow> spares fb = 0" "spares fb \<le> Suc (spares fb1)" using Get_spares [OF fbi k, of b fb1] t(3) q(2,4) by simp_all
  show "te_offset (tqep tq' ! TQ_NIL) = te_offset (tqep tq ! TQ_NIL)" using t(5) q(1,3) ne by simp
  show "spares fb \<le> Suc (spares fb')" "st \<noteq> 0 \<Longrightarrow> spares fb = 0" using t(4,6) G by (auto split: if_splits)
qed

lemma sl_tower_alloc:
  assumes "sl_ok A ar base ms hn tn L h lev" "x \<in> set (hn # tn # L)"
  shows "A (base x) \<noteq> None"
proof -
  have "A (base y) \<noteq> None" if "y \<in> set L" for y using sl_okD(5) [OF assms(1) that] by auto
  then show ?thesis using assms(2) sl_okD(6,7) [OF assms(1)] by auto
qed

lemma rl_tower_alloc:
  assumes "rl_core G rl fb A FO hO FE hE E" "b \<in> rl_towers rl FO FE"
  shows "A b \<noteq> None"
proof -
  note T = two_slD [OF rl_listsD(1) [OF rl_coreD(1) [OF assms(1)]]]
  from assms(2) show ?thesis using sl_tower_alloc [OF T(2)] sl_tower_alloc [OF T(3)] by (elim UnE imageE) simp_all
qed

lemma table_Add:
  assumes t: "rl_table G rl fb FO E U W D" and q: "tq_in G tq L h" and pos: "0 < tq_nfree tq" and sp: "0 < spares fb"
    and now: "normal_ts now" "usecs now + int (length L) < usecs TS_ENDT"
  shows "\<exists>tm tq' fb' r' G' i k xs ys. tq_Add off now tq fb r = Some (0, tq', fb', r') \<and> L = xs @ ys \<and>
    rl_table G' rl fb' FO E U W D \<and> tq_in G' tq' (xs @ i # ys) (h(i := k)) \<and>
    tq_entries tq' (xs @ i # ys) = tq_entries tq xs @ (tm, off) # tq_entries tq ys \<and> first_free (tq_tv (tqep tq) ` set L) now tm \<and>
    spares fb \<le> Suc (spares fb') \<and> tq_nalloc tq' = tq_nalloc tq"
proof -
  obtain A hO FE hE where a: "rl_core G rl fb A FO hO FE hE E" "maxfextent rl = max_ext (rp rl) (set FO)" "fb_inv fb A"
    "guests_ok G A fb (rl_towers rl FO FE)" by (rule table_guests [OF t])
  have d: "dom (snd G) = tq_towers tq L" "te_offset (tqep tq ! TQ_NIL) = -1" "tq_nfree tq + length L = tq_nalloc tq"
    using q by (auto simp: tq_in_def)
  have "guests_ok G A fb {}" using a(4) by (simp add: guests_ok_def)
  then have inv: "tq_inv tq fb A L h" using q a(3) unfolding tq_in_def by blast
  obtain tm tq' r' where s: "first_free (tq_tv (tqep tq) ` set L) now tm" "Suc (tq_nfree tq') = tq_nfree tq" "tq_nalloc tq' = tq_nalloc tq"
    and alt: "tq_Add off now tq fb r = Some (ENOSPC, tq', fb, r') \<and> tq_inv tq' fb A L h \<and> tq_entries tq' L = tq_entries tq L \<or>
     (\<exists>fb' b n i k xs ys. tq_Add off now tq fb r = Some (0, tq', fb', r') \<and> L = xs @ ys \<and> A b = None \<and>
        tq_inv tq' fb' (A(b \<mapsto> n)) (xs @ i # ys) (h(i := k)) \<and> maxsize fb' = maxsize fb \<and>
        tq_entries tq' (xs @ i # ys) = tq_entries tq xs @ (tm, off) # tq_entries tq ys \<and>
        tq_towers tq' (xs @ i # ys) = insert b (tq_towers tq L) \<and> frame A (tq_towers tq L) (fblks fb) (fblks fb'))"
    using tq_Add_spec [OF inv pos now, of off r] by (elim exE conjE) (rule that)
  from alt show ?thesis
  proof
    assume "tq_Add off now tq fb r = Some (ENOSPC, tq', fb, r') \<and> tq_inv tq' fb A L h \<and> tq_entries tq' L = tq_entries tq L"
    then have "tq_Add off now tq fb r = Some (ENOSPC, tq', fb, r')" by (rule conjunct1)
    from tq_Add_keeps(3) [OF inv this pos] have "spares fb = 0" by (simp add: ENOSPC_def)
    then show ?thesis using sp by simp
  next
    assume "\<exists>fb' b n i k xs ys. tq_Add off now tq fb r = Some (0, tq', fb', r') \<and> L = xs @ ys \<and> A b = None \<and>
        tq_inv tq' fb' (A(b \<mapsto> n)) (xs @ i # ys) (h(i := k)) \<and> maxsize fb' = maxsize fb \<and>
        tq_entries tq' (xs @ i # ys) = tq_entries tq xs @ (tm, off) # tq_entries tq ys \<and>
        tq_towers tq' (xs @ i # ys) = insert b (tq_towers tq L) \<and> frame A (tq_towers tq L) (fblks fb) (fblks fb')"
    then obtain fb' b n i k xs ys where r: "tq_Add off now tq fb r = Some (0, tq', fb', r')" "L = xs @ ys" "A b = None"
      "tq_inv tq' fb' (A(b \<mapsto> n)) (xs @ i # ys) (h(i := k))" "maxsize fb' = maxsize fb"
      "tq_entries tq' (xs @ i # ys) = tq_entries tq xs @ (tm, off) # tq_entries tq ys"
      "tq_towers tq' (xs @ i # ys) = insert b (tq_towers tq L)" "frame A (tq_towers tq L) (fblks fb) (fblks fb')"
      by (elim exE conjE) (rule that)
    let ?A = "A(b \<mapsto> n)" and ?L = "xs @ i # ys"
    note K = tq_Add_keeps [OF inv r(1) pos]
    have apart: "tq_towers tq L \<inter> rl_towers rl FO FE = {}" using a(4) unfolding guests_ok_def d(1) by blast
    have fb': "fb_inv fb' ?A" using r(4) tq_coreD(1) by (auto simp: tq_inv_def)
    have bo: "b \<notin> rl_towers rl FO FE" using rl_tower_alloc [OF a(1), of b] r(3) by blast
    have g: "guests_ok (tq_guest tq' fb' ?A ?L) ?A fb' (rl_towers rl FO FE)"
      by (rule tq_guest_ok(1) [OF r(4)]) (use apart bo r(7) in auto)
    have cr: "rl_core (tq_guest tq' fb' ?A ?L) rl fb' ?A FO hO FE hE E"
    proof (rule rl_core_move [OF a(1) fb' r(5) _ g])
      fix c m assume c: "c \<in> rl_towers rl FO FE" "A c = Some m"
      have nc: "c \<notin> tq_towers tq L" "c \<noteq> b" using c apart bo by auto
      show "?A c = Some m \<and> (\<forall>j < m. fblks fb' ! (c + j) = fblks fb ! (c + j))"
        using c(2) nc(2) frameD [OF r(8) c(2) nc(1)] by simp
    qed
    have "tq_nfree tq' + length ?L = tq_nalloc tq'" "te_offset (tqep tq' ! TQ_NIL) = -1" using K(1) d(2,3) s(2,3) r(2) by simp_all
    then have "rl_table (tq_guest tq' fb' ?A ?L) rl fb' FO E U W D" "tq_in (tq_guest tq' fb' ?A ?L) tq' ?L (h(i := k))"
      using rl_table_move [OF t cr] tq_in_guest [OF r(4)] by simp_all
    then show ?thesis using r(1,2,6) s(1,3) K(2)
      by (intro exI [of _ tm] exI [of _ tq'] exI [of _ fb'] exI [of _ r'] exI [of _ "tq_guest tq' fb' ?A ?L"] exI [of _ i] exI [of _ k]
          exI [of _ xs] exI [of _ ys] conjI)
  qed
qed

lemma index_room_for:
  assumes c: "index_core ix D S L {}" and off: "off \<in> dom S" "off \<notin> snd ` set (tq_entries (tqp ix) L)"
  shows "0 < tq_nfree (tqp ix)"
proof -
  obtain G FO E U h M where t: "tq_in G (tqp ix) L h" "distinct (map snd (tq_entries (tqp ix) L))"
    "snd ` set (tq_entries (tqp ix) L) \<subseteq> dom S" "tq_nalloc (tqp ix) = rl_nalloc (rlp ix)"
    by (rule index_coreE [OF c])
  have "length L = card (snd ` set (tq_entries (tqp ix) L))"
    using distinct_card [OF t(2)] by (simp add: tq_entries_def image_image)
  also have "\<dots> < card (dom S)" by (rule psubset_card_mono [OF index_counts(1) [OF c]]) (use t(3) off in blast)
  finally have "length L < rl_nalloc (rlp ix)" using index_counts(5) [OF c] by linarith
  then show ?thesis using t(1,4) by (simp add: tq_in_def)
qed

lemma index_add:
  assumes c: "index_core ix D S L {}" and off: "off \<in> dom S" "off \<notin> snd ` set (tq_entries (tqp ix) L)" and sp: "0 < spares (fbp ix)"
    and now: "normal_ts now" "usecs now + int (length L) < usecs TS_ENDT"
  shows "\<exists>tm tq fb r i xs ys. tq_Add off now (tqp ix) (fbp ix) (rnd ix) = Some (0, tq, fb, r) \<and> L = xs @ ys \<and>
    index_core (ix\<lparr>tqp := tq, fbp := fb, rnd := r\<rparr>) D S (xs @ i # ys) {} \<and>
    tq_entries tq (xs @ i # ys) = tq_entries (tqp ix) xs @ (tm, off) # tq_entries (tqp ix) ys \<and>
    first_free (tq_tv (tqep (tqp ix)) ` set L) now tm \<and> spares (fbp ix) \<le> Suc (spares fb)"
proof -
  obtain G FO E U h M where t: "rl_table G (rlp ix) (fbp ix) FO E U {} D" "tq_in G (tqp ix) L h" "sx_inv (sxp ix) M" "sig_index S M"
    "regions_of (rlp ix) U S" "sx_nelems (sxp ix) = card U" "sx_nalloc (sxp ix) = rl_nalloc (rlp ix)"
    "distinct (map snd (tq_entries (tqp ix) L))" "snd ` set (tq_entries (tqp ix) L) \<subseteq> dom S" "tq_nalloc (tqp ix) = rl_nalloc (rlp ix)"
    by (rule index_coreE [OF c])
  obtain tm tq fb r G' i k xs ys where a: "tq_Add off now (tqp ix) (fbp ix) (rnd ix) = Some (0, tq, fb, r)" "L = xs @ ys"
    "rl_table G' (rlp ix) fb FO E U {} D" "tq_in G' tq (xs @ i # ys) (h(i := k))"
    "tq_entries tq (xs @ i # ys) = tq_entries (tqp ix) xs @ (tm, off) # tq_entries (tqp ix) ys"
    "first_free (tq_tv (tqep (tqp ix)) ` set L) now tm" "spares (fbp ix) \<le> Suc (spares fb)" "tq_nalloc tq = tq_nalloc (tqp ix)"
    using table_Add [OF t(1,2) index_room_for [OF c off] sp now, of off "rnd ix"] by (elim exE conjE) (rule that)
  have LE: "tq_entries (tqp ix) L = tq_entries (tqp ix) xs @ tq_entries (tqp ix) ys" by (simp add: a(2) tq_entries_def)
  have ent: "distinct (map snd (tq_entries tq (xs @ i # ys)))" "snd ` set (tq_entries tq (xs @ i # ys)) \<subseteq> dom S"
    using t(8,9) off unfolding a(5) LE by auto
  have "index_core (ix\<lparr>tqp := tq, fbp := fb, rnd := r\<rparr>) D S (xs @ i # ys) {}"
    by (rule index_coreI [where G = G' and h = "h(i := k)" and U = U and M = M and FO = FO and E = E])
       (use a(3,4,8) t(3-7,10) ent in simp_all)
  then show ?thesis using a(1,2,5-7)
    by (intro exI [of _ tm] exI [of _ tq] exI [of _ fb] exI [of _ r] exI [of _ i] exI [of _ xs] exI [of _ ys] conjI)
qed

subsection \<open>Giving a region back\<close>

lemma FreeByOffset_spec:
  assumes c: "index_core ix D S L {}" and off: "S off = Some (e, sg)" "off \<notin> snd ` set (tq_entries (tqp ix) L)" and sp: "4 \<le> spares (fbp ix)"
  shows "\<exists>ix'. FreeByOffset off sg ix = Some (0, ix') \<and> index_core ix' D (S(off := None)) L {} \<and> tqp ix' = tqp ix \<and>
    spares (fbp ix) \<le> spares (fbp ix') + 4"
proof -
  obtain G FO E U h M where t: "rl_table G (rlp ix) (fbp ix) FO E U {} D" "tq_in G (tqp ix) L h" "sx_inv (sxp ix) M" "sig_index S M"
    "regions_of (rlp ix) U S" "sx_nelems (sxp ix) = card U" "sx_nalloc (sxp ix) = rl_nalloc (rlp ix)"
    "distinct (map snd (tq_entries (tqp ix) L))" "snd ` set (tq_entries (tqp ix) L) \<subseteq> dom S" "tq_nalloc (tqp ix) = rl_nalloc (rlp ix)"
    by (rule index_coreE [OF c])
  have "off \<in> slot_off (rp (rlp ix)) ` U" using off(1) t(5) unfolding regions_of_def by blast
  then obtain i where i: "i \<in> U" "slot_off (rp (rlp ix)) i = off" by auto
  have f: "rl_Find off (rlp ix) = Some i" by (rule rl_Find_spec(1) [OF rl_tableD(2,3) [OF t(1)] i])
  have s: "i < length (rp (rlp ix))" "i \<noteq> RL_NONE" using table_slot(2,3) [OF t(1), of i] i(1) by auto
  have al: "\<not> IsFree (rp (rlp ix) ! i)" using rl_tableD(3) [OF t(1)] i(1) by (simp add: all_alloc_def IsFree_def)
  have m: "M sg \<noteq> []" using sig_index_drop(1) [OF t(4) off(1)] by simp
  obtain sx where sx: "sx_Remove sg (sxp ix) = Some (True, sx)" "sx_inv sx (M(sg := tl (M sg)))" "sx_nalloc sx = sx_nalloc (sxp ix)"
    "Suc (sx_nelems sx) = sx_nelems (sxp ix)"
    using sx_Remove_spec [OF t(3), of sg] m by auto
  obtain rl fb r FO' E' where rl: "rl_Free i (rlp ix) (fbp ix) (rnd ix) = Some (rl, fb, r)" "rl_table G rl fb FO' E' (U - {i}) {} D"
    "\<forall>j \<in> U - {i}. span_of (rp rl) j = span_of (rp (rlp ix)) j" "rl_nalloc rl = rl_nalloc (rlp ix)" "spares (fbp ix) \<le> spares fb + 4"
    using free_table [OF t(1) i(1) sp, of "rnd ix"] by (elim exE conjE) (rule that)
  define ix' where "ix' = ix\<lparr>sxp := sx, rlp := rl, fbp := fb, rnd := r\<rparr>"
  have run: "FreeByOffset off sg ix = Some (0, ix')" unfolding FreeByOffset_def using f s al sx(1) rl(1) by (simp add: ix'_def)
  have reg: "regions_of rl (U - {i}) (S(off := None))" using regions_of_drop [OF t(5,1) i(1), of rl] rl(3) unfolding i(2) by blast
  have cu: "Suc (card (U - {i})) = card U" by (rule card_Suc_Diff1 [OF rl_tableD(12) [OF t(1)] i(1)])
  have ent: "snd ` set (tq_entries (tqp ix) L) \<subseteq> dom (S(off := None))" using t(9) off(2) by auto
  have "index_core ix' D (S(off := None)) L {}"
    by (rule index_coreI [where G = G and h = h and U = "U - {i}" and M = "M(sg := tl (M sg))" and FO = FO' and E = E'])
       (use rl(2,4) t(2,6-8,10) sx(2-4) sig_index_drop(2) [OF t(4) off(1)] reg ent cu in \<open>simp_all add: ix'_def\<close>)
  then show ?thesis using run rl(5) by (intro exI [of _ ix']) (simp add: ix'_def)
qed

lemma FreeByOffset_unknown:
  assumes "index_core ix D S L {}" "off \<notin> dom S"
  shows "FreeByOffset off sg ix = Some (EINVAL, ix)"
  using index_find(2) [OF assms] by (simp add: FreeByOffset_def)

subsection \<open>Statistics\<close>

lemma rl_table_bytes [simp]:
  "rl_table G (rl\<lparr>nbytes := a, maxbytes := b\<rparr>) fb FO E U W D \<longleftrightarrow> rl_table G rl fb FO E U W D"
  unfolding rl_table_def rl_inv_def rl_core_def rl_lists_def hash_ok_def hash_chain_def all_alloc_def hash_slot_def hash_of_def by simp

lemma index_core_stats:
  assumes "index_core ix D S L W"
  shows "index_core (TrackAllocation off x ix) D S L W" "index_core (MarkMostRecent now ix) D S L W" "index_core (ClearMvrt ix) D S L W"
  using assms unfolding TrackAllocation_def MarkMostRecent_def ClearMvrt_def
  by (simp_all add: index_core_def regions_of_def Let_def)

subsection \<open>Reachable states\<close>

text \<open>
  What the operations need of a state and of their callbacks. \<open>reserve\<close>: the arena has undivided blocks left for the
  towers that an operation may ask for. \<open>honest\<close>: the metadata in a region carries a signature that the signature
  index has with the offset of that region.
\<close>

definition reserve :: "QueueIndexManager \<Rightarrow> bool" where
  "reserve ix \<longleftrightarrow> 4 * tq_nelems (tqp ix) \<le> spares (fbp ix)"

definition honest :: "decoder \<Rightarrow> QueueIndexManager \<Rightarrow> bool" where
  "honest dec ix \<longleftrightarrow> (\<forall>k off e i. rl_Find off (rlp ix) = Some i \<longrightarrow> i \<noteq> RL_NONE \<longrightarrow> fst (dec k off e) = 0 \<longrightarrow>
     (\<exists>j. sx_Find (signature (snd (dec k off e))) (sxp ix) = Some (Some j) \<and> se_offset (sxep (sxp ix) ! j) = off))"

text \<open>
  The states that the steps of writers reach from a new queue, with the set \<open>P\<close> of the offsets and signatures of the
  products that are being written: room is found for a product, it is entered in the time queue, or its room is given
  back; the oldest product is deleted; statistics are kept.
\<close>

inductive index_run :: "int set \<Rightarrow> QueueIndexManager \<Rightarrow> (int \<times> Signature) set \<Rightarrow> bool" where
  format: "index_run {off ..< off + int x} ix {}"
    if "index_room n ix0" "ir \<noteq> 0" "ix_ptrs nd ir isz n align = Some (1, lay)" "even x" "0 < x" "x < 2 ^ 62" "0 \<le> off"
      "off + int x \<le> huge_off_t" "FormatNew nd ctl ir isz n align off (off + int x) ix0 = Some (st, ix)"
| alloc: "index_run D ix' (P \<union> (case out of None \<Rightarrow> {} | Some (off, _) \<Rightarrow> {(off, sg)}))"
    if "index_run D ix P" "reserve ix" "honest dec ix" "hook_ok mv" "roundUp x (ctl_align (ctlp ix)) = Some e" "0 < e" "even e" "e < 2 ^ 62"
      "AllocateProductSpace x sg dec mv k ix = Some (st, out, k', ix')"
| commit: "index_run D (MarkMostRecent now (ix\<lparr>tqp := tq, fbp := fb, rnd := r\<rparr>)) (P - {(off, sg)})"
    if "index_run D ix P" "reserve ix" "(off, sg) \<in> P" "normal_ts now" "usecs now + int (tq_nelems (tqp ix)) < usecs TS_ENDT"
      "tq_Add off now (tqp ix) (fbp ix) (rnd ix) = Some (st, tq, fb, r)"
| rollback: "index_run D ix' (P - {(off, sg)})"
    if "index_run D ix P" "reserve ix" "(off, sg) \<in> P" "FreeByOffset off sg ix = Some (st, ix')"
| delete: "index_run D ix' P"
    if "index_run D ix P" "reserve ix" "honest dec ix" "hook_ok mv" "DeleteOldest dec mv k ix = Some (st, k', ix')"
| track: "index_run D (TrackAllocation off x ix) P" if "index_run D ix P"
| clear: "index_run D (ClearMvrt ix) P" if "index_run D ix P"

definition pending :: "catalogue \<Rightarrow> (Timestamp \<times> int) list \<Rightarrow> (int \<times> Signature) set" where
  "pending S Q = {(off, sg). \<exists>e. S off = Some (e, sg) \<and> off \<notin> snd ` set Q}"

definition index_wf :: "int set \<Rightarrow> QueueIndexManager \<Rightarrow> (int \<times> Signature) set \<Rightarrow> bool" where
  "index_wf D ix P \<longleftrightarrow> (\<exists>S Q. index_ok ix D S Q \<and> P = pending S Q)"

lemma index_wfE:
  assumes "index_wf D ix P"
  obtains S L where "index_core ix D S L {}" "P = pending S (tq_entries (tqp ix) L)"
  using assms unfolding index_wf_def index_ok_def by blast

lemma index_wfI:
  assumes "index_core ix D S L {}" "P = pending S (tq_entries (tqp ix) L)"
  shows "index_wf D ix P"
  using assms unfolding index_wf_def index_ok_def by blast

lemma index_elems:
  assumes "index_core ix D S L W"
  shows "tq_nelems (tqp ix) = length L + 2"
proof -
  obtain G FO E U h M where t: "rl_table G (rlp ix) (fbp ix) FO E U W D" "tq_in G (tqp ix) L h" by (rule index_coreE [OF assms])
  obtain A where "tq_inv (tqp ix) (fbp ix) A L h" using table_queue [OF t] by blast
  then obtain fl where "tq_core (tqp ix) (fbp ix) A L h fl" by (auto simp: tq_inv_def)
  from tq_coreD(8) [OF this] t(2) show ?thesis by (simp add: tq_in_def TQ_OVERHEAD_ELEMS_def)
qed

lemma reserve_spares:
  assumes "index_core ix D S L W" "reserve ix"
  shows "4 * length L + 8 \<le> spares (fbp ix)" "4 * length L + 4 \<le> spares (fbp ix)" "4 \<le> spares (fbp ix)"
  using assms(2) index_elems [OF assms(1)] unfolding reserve_def by simp_all

lemma honest_decode:
  assumes c: "index_core ix D S L W" and h: "honest dec ix"
  shows "decode_ok dec S"
  unfolding decode_ok_def
proof (intro allI impI)
  fix k off e sg assume S: "S off = Some (e, sg)" and ok: "fst (dec k off e) = 0"
  obtain G FO E U g M where t: "sx_inv (sxp ix) M" "sig_index S M" by (rule index_coreE [OF c])
  obtain i where i: "rl_Find off (rlp ix) = Some i" "i \<noteq> RL_NONE" using index_find(1) [OF c S] by blast
  let ?sg = "signature (snd (dec k off e))"
  obtain j where j: "sx_Find ?sg (sxp ix) = Some (Some j)" "se_offset (sxep (sxp ix) ! j) = off"
    using h [unfolded honest_def, rule_format, OF i ok] by blast
  have m: "M ?sg \<noteq> []" "hd (M ?sg) = off" using sx_Find_spec [OF t(1), of ?sg] j by (auto split: list.splits)
  obtain off' e' where o: "S off' = Some (e', ?sg)" using sig_indexD(2) [OF t(2) m(1)] by blast
  from sig_indexD(1) [OF t(2) o] m(2) have "off' = off" by simp
  then show "?sg = sg" using o S by simp
qed

lemma pending_strike:
  assumes "X \<subseteq> snd ` set Q"
  shows "pending (S |` (- X)) (strike X Q) = pending S Q"
  using assms unfolding pending_def by (force simp: restrict_map_def split: if_splits)

lemma pending_new:
  assumes "off \<notin> dom S" "snd ` set Q \<subseteq> dom S"
  shows "pending (S(off \<mapsto> (e, sg))) Q = insert (off, sg) (pending S Q)"
  using assms unfolding pending_def by (auto split: if_splits)

text \<open>Each step keeps a state well formed, and the operations return.\<close>

lemma wf_delete:
  assumes w: "index_wf D ix P" and g: "reserve ix" "honest dec ix" "hook_ok mv"
  shows "\<exists>st k' ix'. DeleteOldest dec mv k ix = Some (st, k', ix') \<and> index_wf D ix' P"
proof -
  obtain S L where c: "index_core ix D S L {}" "P = pending S (tq_entries (tqp ix) L)" by (rule index_wfE [OF w])
  obtain st k' p ix' where d: "DeleteOldest dec mv k ix = Some (st, k', ix')" "p = None \<longrightarrow> st \<noteq> 0 \<and> ix' = ix"
    "\<forall>off. p = Some off \<longrightarrow> st = 0 \<and> deletes ix D S L {off} {} ix'"
    using DeleteOldest_spec [OF c(1) reserve_spares(3) [OF c(1) g(1)] honest_decode [OF c(1) g(2)] g(3), of k] by blast
  have "index_wf D ix' P"
  proof (cases p)
    case (Some off)
    then have "deletes ix D S L {off} {} ix'" using d(3) by blast
    then obtain L' where x: "index_core ix' D (S |` (- {off})) L' {}" "tq_entries (tqp ix') L' = strike {off} (tq_entries (tqp ix) L)"
      "{off} \<subseteq> snd ` set (tq_entries (tqp ix) L)" by (rule deletesE)
    show ?thesis by (rule index_wfI [OF x(1)]) (simp only: x(2) pending_strike [OF x(3)] c(2))
  qed (use d(2) w in simp)
  then show ?thesis using d(1) by blast
qed

lemma AllocateProductSpace_dup:
  assumes c: "index_core ix D S L W" and sg: "signed S sg"
  shows "AllocateProductSpace x sg dec mv k ix = Some (PQ_Dup, None, k, ix)"
proof -
  obtain G FO E U h M where t: "sx_inv (sxp ix) M" "sig_index S M" by (rule index_coreE [OF c])
  have "M sg \<noteq> []" using sig_index_free [OF t(2), of sg] sg by blast
  then obtain off offs where "M sg = off # offs" by (cases "M sg") auto
  then obtain j where "sx_Find sg (sxp ix) = Some (Some j)" using sx_Find_spec [OF t(1), of sg] by auto
  then show ?thesis by (simp add: AllocateProductSpace_def)
qed

lemma wf_alloc:
  assumes w: "index_wf D ix P" and g: "reserve ix" "honest dec ix" "hook_ok mv"
    and e: "roundUp x (ctl_align (ctlp ix)) = Some e" "0 < e" "even e" "e < 2 ^ 62"
  shows "\<exists>st out k' ix'. AllocateProductSpace x sg dec mv k ix = Some (st, out, k', ix') \<and>
    index_wf D ix' (P \<union> (case out of None \<Rightarrow> {} | Some (off, _) \<Rightarrow> {(off, sg)}))"
proof -
  obtain S L where c: "index_core ix D S L {}" "P = pending S (tq_entries (tqp ix) L)" by (rule index_wfE [OF w])
  show ?thesis
  proof (cases "signed S sg")
    case True
    from AllocateProductSpace_dup [OF c(1) this] w show ?thesis by simp
  next
    case False
    obtain st out k' ix' X where a: "AllocateProductSpace x sg dec mv k ix = Some (st, out, k', ix')" "alloc_result ix D S L sg e X st out ix'"
      using AllocateProductSpace_spec [OF c(1) False reserve_spares(2) [OF c(1) g(1)] honest_decode [OF c(1) g(2)] g(3) e, of k] by blast
    obtain S' L' where r: "X \<subseteq> snd ` set (tq_entries (tqp ix) L)" "index_core ix' D S' L' {}"
      "tq_entries (tqp ix') L' = strike X (tq_entries (tqp ix) L)"
      "case out of None \<Rightarrow> st \<noteq> 0 \<and> S' = S |` (- X)
        | Some (off, w) \<Rightarrow> st = 0 \<and> e \<le> w \<and> w \<le> 2 * e + 64 \<and> off \<notin> dom (S |` (- X)) \<and> S' = (S |` (- X))(off \<mapsto> (w, sg))"
      using a(2) unfolding alloc_result_def by blast
    have "snd ` set (tq_entries (tqp ix) L) \<subseteq> dom S" by (rule index_coreE [OF c(1)])
    then have sub: "snd ` set (strike X (tq_entries (tqp ix) L)) \<subseteq> dom (S |` (- X))" by (auto simp: restrict_map_def)
    have "P \<union> (case out of None \<Rightarrow> {} | Some (off, _) \<Rightarrow> {(off, sg)}) = pending S' (tq_entries (tqp ix') L')"
    proof (cases out)
      case None
      then show ?thesis using r(4) by (simp add: r(3) c(2) pending_strike [OF r(1)])
    next
      case (Some o2)
      then obtain off w where o: "out = Some (off, w)" "off \<notin> dom (S |` (- X))" "S' = (S |` (- X))(off \<mapsto> (w, sg))" using r(4) by (cases o2) auto
      show ?thesis unfolding o(1,3) r(3) c(2) pending_new [OF o(2) sub] pending_strike [OF r(1)] by simp
    qed
    then show ?thesis using a(1) index_wfI [OF r(2)] by blast
  qed
qed

lemma wf_commit:
  assumes w: "index_wf D ix P" and g: "reserve ix" "(off, sg) \<in> P" "normal_ts now" "usecs now + int (tq_nelems (tqp ix)) < usecs TS_ENDT"
  shows "\<exists>tq fb r. tq_Add off now (tqp ix) (fbp ix) (rnd ix) = Some (0, tq, fb, r) \<and>
    index_wf D (MarkMostRecent now (ix\<lparr>tqp := tq, fbp := fb, rnd := r\<rparr>)) (P - {(off, sg)})"
proof -
  obtain S L where c: "index_core ix D S L {}" "P = pending S (tq_entries (tqp ix) L)" by (rule index_wfE [OF w])
  obtain e where o: "S off = Some (e, sg)" "off \<notin> snd ` set (tq_entries (tqp ix) L)" using g(2) unfolding c(2) pending_def by blast
  have now: "usecs now + int (length L) < usecs TS_ENDT" using g(4) index_elems [OF c(1)] by simp
  have off: "off \<in> dom S" "0 < spares (fbp ix)" using o(1) reserve_spares(3) [OF c(1) g(1)] by auto
  obtain tm tq fb r i xs ys where a: "tq_Add off now (tqp ix) (fbp ix) (rnd ix) = Some (0, tq, fb, r)" "L = xs @ ys"
    "index_core (ix\<lparr>tqp := tq, fbp := fb, rnd := r\<rparr>) D S (xs @ i # ys) {}"
    "tq_entries tq (xs @ i # ys) = tq_entries (tqp ix) xs @ (tm, off) # tq_entries (tqp ix) ys"
    using index_add [OF c(1) off(1) o(2) off(2) g(3) now] by (elim exE conjE) (rule that)
  have tq: "tqp (MarkMostRecent now (ix\<lparr>tqp := tq, fbp := fb, rnd := r\<rparr>)) = tq" by (simp add: MarkMostRecent_def)
  have L: "tq_entries (tqp ix) L = tq_entries (tqp ix) xs @ tq_entries (tqp ix) ys" by (simp add: a(2) tq_entries_def)
  have "P - {(off, sg)} = pending S (tq_entries tq (xs @ i # ys))"
    unfolding a(4) c(2) L pending_def using o(1) by auto
  then show ?thesis using a(1) index_wfI [OF index_core_stats(2) [OF a(3)]] tq by metis
qed

lemma wf_rollback:
  assumes w: "index_wf D ix P" and g: "reserve ix" "(off, sg) \<in> P"
  shows "\<exists>ix'. FreeByOffset off sg ix = Some (0, ix') \<and> index_wf D ix' (P - {(off, sg)})"
proof -
  obtain S L where c: "index_core ix D S L {}" "P = pending S (tq_entries (tqp ix) L)" by (rule index_wfE [OF w])
  obtain e where o: "S off = Some (e, sg)" "off \<notin> snd ` set (tq_entries (tqp ix) L)" using g(2) unfolding c(2) pending_def by blast
  obtain ix' where f: "FreeByOffset off sg ix = Some (0, ix')" "index_core ix' D (S(off := None)) L {}" "tqp ix' = tqp ix"
    using FreeByOffset_spec [OF c(1) o reserve_spares(3) [OF c(1) g(1)]] by blast
  have "P - {(off, sg)} = pending (S(off := None)) (tq_entries (tqp ix') L)"
    unfolding f(3) c(2) pending_def using o(1) by (auto split: if_splits)
  then show ?thesis using f(1) index_wfI [OF f(2)] by blast
qed

lemma wf_run:
  assumes "index_run D ix P"
  shows "index_wf D ix P"
  using assms
proof (induction rule: index_run.induct)
  case (format n ix0 ir nd isz align lay x off ctl st ix)
  then have "index_core ix {off ..< off + int x} Map.empty [] {}"
    using FormatNew_spec [OF format(1-8), of ctl] by auto
  then show ?case by (rule index_wfI) (simp add: pending_def)
next
  case (alloc D ix P dec mv x e sg k st out k' ix')
  then show ?case using wf_alloc [of D ix P dec mv x e sg k] by auto
next
  case (commit D ix P off sg now st tq fb r)
  then show ?case using wf_commit [of D ix P off sg now] by auto
next
  case (rollback D ix P off sg st ix')
  then show ?case using wf_rollback [of D ix P off sg] by auto
next
  case (delete D ix P dec mv k st k' ix')
  then show ?case using wf_delete [of D ix P dec mv k] by auto
next
  case (track D ix P off x)
  then obtain S L where c: "index_core ix D S L {}" "P = pending S (tq_entries (tqp ix) L)" by (blast elim: index_wfE)
  have "tqp (TrackAllocation off x ix) = tqp ix" by (simp add: TrackAllocation_def Let_def)
  then show ?case using index_wfI [OF index_core_stats(1) [OF c(1), of off x]] c(2) by simp
next
  case (clear D ix P)
  then obtain S L where c: "index_core ix D S L {}" "P = pending S (tq_entries (tqp ix) L)" by (blast elim: index_wfE)
  have "tqp (ClearMvrt ix) = tqp ix" by (simp add: ClearMvrt_def)
  then show ?case using index_wfI [OF index_core_stats(3) [OF c(1)]] c(2) by simp
qed

subsection \<open>An index for 16 products\<close>

definition demo_ctl :: pqctl where
  "demo_ctl = InitializeControlHeader 8192 40960 16384 16 4096"

definition raw_mgr :: QueueIndexManager where
  "raw_mgr = \<lparr>ixp = 0, mgr_ixsz = 0, mgr_nalloc = 0, ctlp = demo_ctl, rlp = raw_table,
     tqp = raw_queue\<lparr>tqep := replicate 18 \<lparr>te_tv = TS_ZERO, te_offset = 0, te_fblk = 0\<rparr>\<rparr>,
     sxp = raw_index\<lparr>sxep := replicate 16 \<lparr>sxi = [], se_offset = 0, se_next = 0\<rparr>, sx_chains := replicate 16 0\<rparr>,
     fbp = raw_arena 100, smallest_extent_seen = SIZE_NONE, rnd = rng_init\<rparr>"

definition new_mgr :: QueueIndexManager where
  "new_mgr = snd (the (FormatNew False demo_ctl 40960 16384 16 4096 8192 40960 raw_mgr))"

lemma isqrt_576: "isqrt 576 = 24"
  by (rule isqrt_unique) simp_all

lemma raw_mgr_room: "index_room 16 raw_mgr"
proof -
  have "isqrt 5184 = 72" by (rule isqrt_unique) simp_all
  then have "GetArenaSize 16 \<le> length (fblks (raw_arena 100))"
    by (simp add: GetArenaSize_def log4_of_16 raw_arena_def next_numblks_def numeral_3_eq_3 numeral_2_eq_2)
  then show ?thesis using raw_table_chains
    by (simp add: index_room_def raw_mgr_def raw_table_def raw_index_def raw_queue_def log4_of_16 isqrt_576 raw_arena_def SIZE_NONE_def FB_MAX_LEVELS_def)
qed

lemma demo_layout: "\<exists>lay. ix_ptrs False 40960 16384 16 4096 = Some (1, lay)"
  using ix_ptrs_fits [of 16 4096 40960, OF _ _ _ sizes_of_16, of 16384 False] by (auto simp: up_def dvd_def)

lemma new_mgr_spec:
  "FormatNew False demo_ctl 40960 16384 16 4096 8192 40960 raw_mgr = Some (0, new_mgr)" "index_core new_mgr {8192 ..< 40960} Map.empty [] {}"
  "ctlp new_mgr = demo_ctl" "maxfextent (rlp new_mgr) = 32768" "nempty (rlp new_mgr) = 15" "16 \<le> spares (fbp new_mgr)"
proof -
  obtain lay where lay: "ix_ptrs False 40960 16384 16 4096 = Some (1, lay)" using demo_layout by blast
  have "\<exists>ix'. FormatNew False demo_ctl 40960 16384 16 4096 8192 (8192 + int 32768) raw_mgr = Some (0, ix') \<and>
      index_core ix' {8192 ..< 8192 + int 32768} Map.empty [] {} \<and> ctlp ix' = demo_ctl \<and> ixp ix' = 40960 \<and>
      nbytes (rlp ix') = 0 \<and> maxfextent (rlp ix') = 32768 \<and> nempty (rlp ix') = 16 - 1 \<and> isqrt (9 * 16 * log4 16 * log4 16) \<le> spares (fbp ix') + 8"
    by (rule FormatNew_spec [OF raw_mgr_room _ lay]) (simp_all add: huge_off_t_def)
  then show "FormatNew False demo_ctl 40960 16384 16 4096 8192 40960 raw_mgr = Some (0, new_mgr)" "index_core new_mgr {8192 ..< 40960} Map.empty [] {}"
    "ctlp new_mgr = demo_ctl" "maxfextent (rlp new_mgr) = 32768" "nempty (rlp new_mgr) = 15" "16 \<le> spares (fbp new_mgr)"
    by (auto simp: new_mgr_def log4_of_16 isqrt_576)
qed

definition demo_dec :: decoder where
  "demo_dec k off e = (0, demo_info)"

definition demo_hook :: mvrt_hook where
  "demo_hook k t info ix = ctlp ix"

lemma demo_hook_ok: "hook_ok demo_hook"
  by (simp add: hook_ok_def demo_hook_def)

lemma demo_round: "roundUp 100 (ctl_align demo_ctl) = Some 4096"
  by (simp add: roundUp_def demo_ctl_def InitializeControlHeader_def)

lemma demo_first:
  "\<exists>off w k ix. AllocateProductSpace 100 (signature demo_info) demo_dec demo_hook 0 new_mgr = Some (0, Some (off, w), k, ix) \<and>
     index_core ix {8192 ..< 40960} [off \<mapsto> (w, signature demo_info)] [] {} \<and> 14 \<le> spares (fbp ix) \<and> ctl_align (ctlp ix) = ctl_align demo_ctl"
proof -
  have ns: "\<not> signed Map.empty (signature demo_info)" by (simp add: signed_def)
  have rd: "roundUp 100 (ctl_align (ctlp new_mgr)) = Some 4096" unfolding new_mgr_spec(3) by (rule demo_round)
  have d: "decode_ok demo_dec Map.empty" by (simp add: decode_ok_def)
  have sp: "4 * length ([] :: nat list) + 4 \<le> spares (fbp new_mgr)" using new_mgr_spec(6) by simp
  obtain st out k ix X where a: "AllocateProductSpace 100 (signature demo_info) demo_dec demo_hook 0 new_mgr = Some (st, out, k, ix)"
    "alloc_result new_mgr {8192 ..< 40960} Map.empty [] (signature demo_info) 4096 X st out ix"
    "0 < nempty (rlp new_mgr) \<and> 4096 \<le> maxfextent (rlp new_mgr) \<longrightarrow> st = 0 \<and> X = {}"
    using AllocateProductSpace_spec [OF new_mgr_spec(2) ns sp d demo_hook_ok rd, of 0, simplified] by (elim exE conjE) (rule that)
  have z: "st = 0" "X = {}" using a(3) new_mgr_spec(4,5) by simp_all
  obtain S' L' where r: "index_core ix {8192 ..< 40960} S' L' {}" "tq_entries (tqp ix) L' = strike X (tq_entries (tqp new_mgr) [])"
    "spares (fbp new_mgr) \<le> spares (fbp ix) + 4 * card X + 2" "ctl_align (ctlp ix) = ctl_align (ctlp new_mgr)"
    "case out of None \<Rightarrow> st \<noteq> 0 \<and> S' = Map.empty |` (- X)
     | Some (off, x) \<Rightarrow> st = 0 \<and> 4096 \<le> x \<and> x \<le> 2 * 4096 + 64 \<and> off \<notin> dom ((Map.empty :: catalogue) |` (- X)) \<and> S' = (Map.empty |` (- X))(off \<mapsto> (x, signature demo_info))"
    using a(2) unfolding alloc_result_def by (elim exE conjE) (rule that)
  have "L' = []" using r(2) by (simp add: tq_entries_def)
  moreover obtain off w where "out = Some (off, w)" "S' = [off \<mapsto> (w, signature demo_info)]" using r(5) z by (cases out) auto
  ultimately show ?thesis using a(1) r(1,3,4) z new_mgr_spec(3,6) by auto
qed

text \<open>A queue with one product.\<close>

lemma demo_one:
  "\<exists>ix S tm off w. S = [off \<mapsto> (w, signature demo_info)] \<and> index_ok ix {8192 ..< 40960} S [(tm, off)] \<and> 13 \<le> spares (fbp ix) \<and>
     ctl_align (ctlp ix) = ctl_align demo_ctl"
proof -
  obtain off w k ix where f: "index_core ix {8192 ..< 40960} [off \<mapsto> (w, signature demo_info)] [] {}" "14 \<le> spares (fbp ix)"
    "ctl_align (ctlp ix) = ctl_align demo_ctl"
    using demo_first by blast
  have g: "off \<in> dom [off \<mapsto> (w, signature demo_info)]" "off \<notin> snd ` set (tq_entries (tqp ix) [])" "0 < spares (fbp ix)"
    "normal_ts (Timestamp 100 0)" "usecs (Timestamp 100 0) + int (length ([] :: nat list)) < usecs TS_ENDT"
    using f(2) by (simp_all add: tq_entries_def normal_ts_def usecs_def TS_ENDT_def)
  obtain tm tq fb r i xs ys where a: "[] = xs @ ys" "index_core (ix\<lparr>tqp := tq, fbp := fb, rnd := r\<rparr>) {8192 ..< 40960} [off \<mapsto> (w, signature demo_info)] (xs @ i # ys) {}"
    "tq_entries tq (xs @ i # ys) = tq_entries (tqp ix) xs @ (tm, off) # tq_entries (tqp ix) ys" "spares (fbp ix) \<le> Suc (spares fb)"
    using index_add [OF f(1) g] by (elim exE conjE) (rule that)
  have "tq_entries tq (xs @ i # ys) = [(tm, off)]" using a(1,3) by (simp add: tq_entries_def)
  then have "index_ok (ix\<lparr>tqp := tq, fbp := fb, rnd := r\<rparr>) {8192 ..< 40960} [off \<mapsto> (w, signature demo_info)] [(tm, off)]"
    using a(2) unfolding index_ok_def by (intro exI [of _ "xs @ i # ys"]) simp
  then show ?thesis using a(4) f(2,3) by (intro exI [of _ "ix\<lparr>tqp := tq, fbp := fb, rnd := r\<rparr>"]) auto
qed

subsection \<open>The properties of the index\<close>

text \<open>
  C2. \<open>QueueIndexManager::DeleteOldest\<close> refines the deletion from the abstract queue: on a well-formed index it always
  returns; it tries the products in time order, skips the ones the decoder reports as locked, and the first other answer
  decides. On success exactly that product is gone from the time queue, from the signature index and from the allocated
  regions, and everything else is as before; otherwise the index is unchanged.
\<close>

theorem DeleteOldest_refines:
  assumes "index_ok ix D S Q" "4 \<le> spares (fbp ix)" "decode_ok dec S" "hook_ok mv"
  shows "\<exists>st k' p ix'. del_oldest dec k S Q = (st, k', p) \<and> DeleteOldest dec mv k ix = Some (st, k', ix') \<and>
    (case p of None \<Rightarrow> st \<noteq> 0 \<and> ix' = ix
     | Some off \<Rightarrow> st = 0 \<and> off \<in> snd ` set Q \<and> index_ok ix' D (S(off := None)) (strike {off} Q))"
proof -
  obtain L where c: "index_core ix D S L {}" "Q = tq_entries (tqp ix) L" using assms(1) unfolding index_ok_def by blast
  obtain st k' p ix' where d: "del_oldest dec k S Q = (st, k', p)" "DeleteOldest dec mv k ix = Some (st, k', ix')"
    "p = None \<longrightarrow> st \<noteq> 0 \<and> ix' = ix" "\<forall>off. p = Some off \<longrightarrow> st = 0 \<and> deletes ix D S L {off} {} ix'"
    using DeleteOldest_spec [OF c(1) assms(2-4), of k, folded c(2)] by (elim exE conjE) (rule that)
  have "off \<in> snd ` set Q \<and> index_ok ix' D (S(off := None)) (strike {off} Q)" if "p = Some off" for off
  proof -
    have "deletes ix D S L {off} {} ix'" using d(4) that by blast
    then obtain L' where x: "index_core ix' D (S |` (- {off})) L' {}" "tq_entries (tqp ix') L' = strike {off} Q" "{off} \<subseteq> snd ` set Q"
      by (rule deletesE [where L = L and ix = ix, folded c(2)])
    moreover have "S |` (- {off}) = S(off := None)" by (auto simp: restrict_map_def)
    ultimately show ?thesis unfolding index_ok_def by (metis insert_subset)
  qed
  then show ?thesis using d by (cases p) auto
qed

theorem DeleteOldest_refines_witness:
  "\<exists>ix S off tm w. S = [off \<mapsto> (w, signature demo_info)] \<and> index_ok ix {8192 ..< 40960} S [(tm, off)] \<and>
     (\<exists>st k' p ix'. del_oldest demo_dec 0 S [(tm, off)] = (st, k', p) \<and> DeleteOldest demo_dec demo_hook 0 ix = Some (st, k', ix') \<and>
       (case p of None \<Rightarrow> st \<noteq> 0 \<and> ix' = ix
        | Some o1 \<Rightarrow> st = 0 \<and> o1 \<in> snd ` set [(tm, off)] \<and> index_ok ix' {8192 ..< 40960} (S(o1 := None)) (strike {o1} [(tm, off)])))"
proof -
  obtain ix S tm off w where d: "S = [off \<mapsto> (w, signature demo_info)]" "index_ok ix {8192 ..< 40960} S [(tm, off)]" "13 \<le> spares (fbp ix)"
    using demo_one by blast
  have "decode_ok demo_dec S" unfolding d(1) by (simp add: decode_ok_def demo_dec_def)
  from DeleteOldest_refines [OF d(2) _ this demo_hook_ok, of 0] d show ?thesis
    by (intro exI [of _ ix] exI [of _ S] exI [of _ off] exI [of _ tm] exI [of _ w]) simp
qed





end
