(* ===== verification/Access_Control.thy ===== *)
theory Access_Control
  imports Prod_Class
begin

text \<open>
  src/core/UpFilter.cpp, AclManager.cpp and the rules of ServerConfig.h: who may receive or send what.

  An uncaught C++ exception is \<open>None\<close>, here the \<open>std::invalid_argument\<close> of \<open>AddComponent\<close>, which
  nothing between it and the request handler catches.

  Proved: a filter built for a host lets through only products some rule for that host allows; a
  reduced subscription is a part of the requested one and of what is allowed; the elements of a filter
  never overlap, which makes the order of the rules irrelevant for products of one feed type; and a
  subscription with two specs for one feed type raises the exception.
\<close>

unbundle bit_operations_syntax

subsection \<open>Upstream filters\<close>

record FilterElement =
  fe_ft :: feedtype
  okPattern :: Pattern
  notPattern :: "Pattern option"

record UpFilter =
  elements :: "FilterElement list"
  cachedString :: string
  stringOutOfDate :: bool

definition new_UpFilter :: UpFilter where
  "new_UpFilter = \<lparr>elements = [], cachedString = [], stringOutOfDate = True\<rparr>"

definition AddComponent :: "feedtype \<Rightarrow> Pattern \<Rightarrow> Pattern option \<Rightarrow> UpFilter \<Rightarrow> UpFilter option" where
  "AddComponent ft ok no filt =
     (if \<exists>elt \<in> set (elements filt). ft AND fe_ft elt \<noteq> 0 then None
      else Some (filt\<lparr>elements := elements filt @ [\<lparr>fe_ft = ft, okPattern = ok, notPattern = no\<rparr>],
                      stringOutOfDate := True\<rparr>))"

primrec filter_match :: "FilterElement list \<Rightarrow> ProdInfo \<Rightarrow> bool" where
  "filter_match [] info = False"
| "filter_match (elt # es) info =
     (if fe_ft elt AND pi_feedtype info \<noteq> 0 then
        isMatch (okPattern elt) (ident info) \<and>
        \<not> (case notPattern elt of None \<Rightarrow> False | Some p \<Rightarrow> isMatch p (ident info))
      else filter_match es info)"

definition IsMatch :: "UpFilter \<Rightarrow> ProdInfo \<Rightarrow> bool" where
  "IsMatch filt info = filter_match (elements filt) info"

definition GetComponentCount :: "UpFilter \<Rightarrow> nat" where
  "GetComponentCount filt = length (elements filt)"

primrec filter_string :: "bool \<Rightarrow> FilterElement list \<Rightarrow> string \<Rightarrow> string option" where
  "filter_string first [] s = Some s"
| "filter_string first (elt # es) s = do {
     ft \<leftarrow> ft_ToString (fe_ft elt);
     filter_string False es
       (s @ (if first then [] else '', '') @ ''{'' @ ft @ '', ('' @ ere (okPattern elt) @ '')'' @
        (case notPattern elt of None \<Rightarrow> [] | Some p \<Rightarrow> '' - ('' @ ere p @ '')'') @ ''}'') }"

definition up_ToString :: "UpFilter \<Rightarrow> (string \<times> UpFilter) option" where
  "up_ToString filt =
     (if stringOutOfDate filt then do {
        s \<leftarrow> filter_string True (elements filt) ''{'';
        Some (s @ ''}'', filt\<lparr>cachedString := s @ ''}'', stringOutOfDate := False\<rparr>) }
      else Some (cachedString filt, filt))"

subsection \<open>Rules\<close>

record AllowRule =
  al_feedtype :: feedtype
  al_hostPattern :: string
  al_okPattern :: Pattern
  al_notPattern :: "Pattern option"

text \<open>The constructor of an allow rule compiles its patterns; an empty exclusion is none.\<close>

definition new_AllowRule :: "regex_engine \<Rightarrow> feedtype \<Rightarrow> string \<Rightarrow> string \<Rightarrow> string \<Rightarrow> AllowRule option" where
  "new_AllowRule re ft hp ok not_pat = do {
     p \<leftarrow> new_Pattern re ok False False;
     q \<leftarrow> (if not_pat \<noteq> [] then map_option Some (new_Pattern re not_pat False False) else Some None);
     Some \<lparr>al_feedtype = ft, al_hostPattern = hp, al_okPattern = p, al_notPattern = q\<rparr> }"

record AcceptRule =
  ac_feedtype :: feedtype
  ac_prodPattern :: Pattern
  ac_hostPattern :: string
  ac_isPrimary :: bool

record AclManager =
  allowRules :: "AllowRule list"
  acceptRules :: "AcceptRule list"

definition RequiresServer :: "AclManager \<Rightarrow> bool" where
  "RequiresServer acl \<longleftrightarrow> allowRules acl \<noteq> [] \<or> acceptRules acl \<noteq> []"

text \<open>
  A host pattern is a case-insensitive expression, searched for in the address and then in the name;
  an exception of the engine falls back to equality.
\<close>

definition IsHostMatch :: "regex_engine \<Rightarrow> string \<Rightarrow> string \<Rightarrow> string \<Rightarrow> bool" where
  "IsHostMatch re hostName ipAddr pattern =
     (let fallback = (ipAddr = pattern \<or> hostName = pattern) in
      case re True True pattern of
        None \<Rightarrow> fallback
      | Some rgx \<Rightarrow> (case rgx ipAddr of
          None \<Rightarrow> fallback
        | Some (Some _) \<Rightarrow> True
        | Some None \<Rightarrow> (case rgx hostName of None \<Rightarrow> fallback | Some r \<Rightarrow> r \<noteq> None)))"

definition IsHostOk :: "regex_engine \<Rightarrow> AclManager \<Rightarrow> string \<Rightarrow> string \<Rightarrow> bool" where
  "IsHostOk re acl h ip \<longleftrightarrow>
     (\<exists>rule \<in> set (allowRules acl). IsHostMatch re h ip (al_hostPattern rule)) \<or>
     (\<exists>rule \<in> set (acceptRules acl). IsHostMatch re h ip (ac_hostPattern rule))"

definition allowed_mask :: "regex_engine \<Rightarrow> AclManager \<Rightarrow> string \<Rightarrow> string \<Rightarrow> feedtype" where
  "allowed_mask re acl h ip =
     foldl (\<lambda>acc rule. if IsHostMatch re h ip (al_hostPattern rule) then acc OR al_feedtype rule else acc) 0 (allowRules acl)"

definition GetAllowed :: "regex_engine \<Rightarrow> AclManager \<Rightarrow> string \<Rightarrow> string \<Rightarrow> feedtype \<Rightarrow> feedtype" where
  "GetAllowed re acl h ip desiredFeed = desiredFeed AND allowed_mask re acl h ip"

definition accepted_mask :: "regex_engine \<Rightarrow> AclManager \<Rightarrow> string \<Rightarrow> string \<Rightarrow> feedtype" where
  "accepted_mask re acl h ip =
     foldl (\<lambda>acc rule. if IsHostMatch re h ip (ac_hostPattern rule) then acc OR ac_feedtype rule else acc) NONE (acceptRules acl)"

text \<open>The loop both reductions share: specs without a feed type pass, the others are masked.\<close>

primrec reduce_specs :: "feedtype \<Rightarrow> ProdSpec list \<Rightarrow> ProdSpec list" where
  "reduce_specs feeds [] = []"
| "reduce_specs feeds (sp # sps) =
     (if sp_feedtype sp = NONE then sp # reduce_specs feeds sps
      else let reduced = sp_feedtype sp AND feeds in
        if reduced \<noteq> NONE then \<lparr>sp_feedtype = reduced, sp_pattern = sp_pattern sp\<rparr> # reduce_specs feeds sps
        else reduce_specs feeds sps)"

definition ReduceToAllowed :: "regex_engine \<Rightarrow> AclManager \<Rightarrow> string \<Rightarrow> string \<Rightarrow> ProdClass \<Rightarrow> ProdClass \<Rightarrow> int \<times> ProdClass" where
  "ReduceToAllowed re acl h ip want isect =
     (let allowedFeed = GetAllowed re acl h ip 0xffffffff in
      if allowedFeed = NONE then (1, isect)
      else let isect' = isect\<lparr>from_sec := from_sec want, from_usec := from_usec want,
                              to_sec := to_sec want, to_usec := to_usec want,
                              specs := reduce_specs allowedFeed (specs want)\<rparr>
           in (if specs isect' = [] then 1 else 0, isect'))"

definition ReduceToAcceptable :: "regex_engine \<Rightarrow> AclManager \<Rightarrow> string \<Rightarrow> string \<Rightarrow> ProdClass \<Rightarrow> ProdClass \<Rightarrow> int \<times> ProdClass" where
  "ReduceToAcceptable re acl h ip offered isect =
     (let acceptedFeed = accepted_mask re acl h ip in
      if acceptedFeed = NONE then (1, isect)
      else let isect' = isect\<lparr>from_sec := from_sec offered, from_usec := from_usec offered,
                              to_sec := to_sec offered, to_usec := to_usec offered,
                              specs := reduce_specs acceptedFeed (specs offered)\<rparr>
           in (if specs isect' = [] then 1 else 0, isect'))"

text \<open>The inner loop of \<open>GetUpstreamFilter\<close>: the first rule that overlaps and matches the host.\<close>

primrec add_rule :: "regex_engine \<Rightarrow> string \<Rightarrow> string \<Rightarrow> ProdSpec \<Rightarrow> AllowRule list \<Rightarrow> UpFilter \<Rightarrow> UpFilter option" where
  "add_rule re h ip sp [] filt = Some filt"
| "add_rule re h ip sp (rule # rules) filt =
     (let i = al_feedtype rule AND sp_feedtype sp in
      if i \<noteq> NONE \<and> IsHostMatch re h ip (al_hostPattern rule)
      then AddComponent i (al_okPattern rule) (al_notPattern rule) filt
      else add_rule re h ip sp rules filt)"

primrec add_specs :: "regex_engine \<Rightarrow> string \<Rightarrow> string \<Rightarrow> AllowRule list \<Rightarrow> ProdSpec list \<Rightarrow> UpFilter \<Rightarrow> UpFilter option" where
  "add_specs re h ip rules [] filt = Some filt"
| "add_specs re h ip rules (sp # sps) filt = do {
     filt' \<leftarrow> add_rule re h ip sp rules filt;
     add_specs re h ip rules sps filt' }"

text \<open>The inner option is the null pointer for an empty filter.\<close>

definition GetUpstreamFilter :: "regex_engine \<Rightarrow> AclManager \<Rightarrow> string \<Rightarrow> string \<Rightarrow> ProdClass \<Rightarrow> UpFilter option option" where
  "GetUpstreamFilter re acl h ip want = do {
     filt \<leftarrow> add_specs re h ip (allowRules acl) (specs want) new_UpFilter;
     Some (if GetComponentCount filt > 0 then Some filt else None) }"

subsection \<open>Filters\<close>

definition disjoint_filter :: "UpFilter \<Rightarrow> bool" where
  "disjoint_filter filt \<longleftrightarrow> sorted_wrt (\<lambda>a b. fe_ft a AND fe_ft b = 0) (elements filt)"

definition element_accepts :: "FilterElement \<Rightarrow> ProdInfo \<Rightarrow> bool" where
  "element_accepts elt info \<longleftrightarrow> fe_ft elt AND pi_feedtype info \<noteq> 0 \<and> isMatch (okPattern elt) (ident info) \<and>
     \<not> (\<exists>p. notPattern elt = Some p \<and> isMatch p (ident info))"

lemma disjoint_new: "disjoint_filter new_UpFilter"
  by (simp add: disjoint_filter_def new_UpFilter_def)

lemma AddComponent_disjoint: "disjoint_filter filt \<Longrightarrow> AddComponent ft ok no filt = Some filt' \<Longrightarrow> disjoint_filter filt'"
  by (auto simp: AddComponent_def disjoint_filter_def sorted_wrt_append and.commute split: if_splits)

lemma filter_match_accepts: "filter_match es info \<Longrightarrow> \<exists>elt \<in> set es. element_accepts elt info"
  by (induction es) (auto simp: element_accepts_def split: if_splits option.splits)

lemma filter_match_single:
  assumes "sorted_wrt (\<lambda>a b. fe_ft a AND fe_ft b = 0) es" "pi_feedtype info = push_bit k 1" "k < 32"
  shows "filter_match es info \<longleftrightarrow> (\<exists>elt \<in> set es. element_accepts elt info)"
  using assms(1)
proof (induction es)
  case (Cons e es)
  have b: "fe_ft x AND pi_feedtype info \<noteq> 0 \<longleftrightarrow> bit (fe_ft x) k" for x
    using single_bit [OF assms(3), of "fe_ft x"] by (simp add: assms(2) and.commute)
  have "\<not> element_accepts x info" if "x \<in> set es" "bit (fe_ft e) k" for x
  proof -
    have "fe_ft e AND fe_ft x = 0" using Cons.prems that(1) by simp
    then have "\<not> bit (fe_ft x) k" using that(2) by (metis bit_0_eq bit_and_iff bot_apply bot_bool_def)
    then show ?thesis using b [of x] by (auto simp: element_accepts_def)
  qed
  moreover have "filter_match (e # es) info = (if bit (fe_ft e) k then element_accepts e info else filter_match es info)"
    using b [of e] by (auto simp: element_accepts_def split: option.splits)
  moreover have "\<not> bit (fe_ft e) k \<Longrightarrow> \<not> element_accepts e info" using b [of e] by (auto simp: element_accepts_def)
  ultimately show ?case using Cons.IH Cons.prems by auto
qed simp

text \<open>The cached text is the text of the elements unless it is marked as out of date.\<close>

definition cache_ok :: "UpFilter \<Rightarrow> bool" where
  "cache_ok filt \<longleftrightarrow> stringOutOfDate filt \<or> map_option (\<lambda>s. s @ ''}'') (filter_string True (elements filt) ''{'') = Some (cachedString filt)"

lemma filter_string_total: "filter_string b es s \<noteq> None"
proof (induction es arbitrary: b s)
  case (Cons e es)
  obtain t where "ft_ToString (fe_ft e) = Some t" using ft_ToString_Parse [of "fe_ft e"] by auto
  then show ?case using Cons by simp
qed simp

lemma up_ToString_spec:
  assumes "cache_ok filt"
  shows "\<exists>s filt'. up_ToString filt = Some (s, filt') \<and> filter_string True (elements filt) ''{'' \<noteq> None \<and>
    s = the (filter_string True (elements filt) ''{'') @ ''}'' \<and> cache_ok filt' \<and> elements filt' = elements filt"
  using assms filter_string_total [of True "elements filt" "''{''"] by (auto simp: up_ToString_def cache_ok_def)

subsection \<open>What a host gets\<close>

definition rule_allows :: "regex_engine \<Rightarrow> string \<Rightarrow> string \<Rightarrow> AllowRule \<Rightarrow> ProdInfo \<Rightarrow> bool" where
  "rule_allows re h ip rule info \<longleftrightarrow> IsHostMatch re h ip (al_hostPattern rule) \<and> al_feedtype rule AND pi_feedtype info \<noteq> 0 \<and>
     isMatch (al_okPattern rule) (ident info) \<and> \<not> (\<exists>p. al_notPattern rule = Some p \<and> isMatch p (ident info))"

text \<open>Where the elements of a filter come from.\<close>

definition from_rule :: "regex_engine \<Rightarrow> string \<Rightarrow> string \<Rightarrow> AllowRule list \<Rightarrow> ProdSpec list \<Rightarrow> FilterElement \<Rightarrow> bool" where
  "from_rule re h ip rules sps elt \<longleftrightarrow> (\<exists>rule \<in> set rules. \<exists>sp \<in> set sps. IsHostMatch re h ip (al_hostPattern rule) \<and>
     elt = \<lparr>fe_ft = al_feedtype rule AND sp_feedtype sp, okPattern = al_okPattern rule, notPattern = al_notPattern rule\<rparr>)"

lemma add_rule_elements:
  assumes "add_rule re h ip sp rules filt = Some filt'" "elt \<in> set (elements filt')"
  shows "elt \<in> set (elements filt) \<or> from_rule re h ip rules [sp] elt"
  using assms
  by (induction rules) (auto simp: Let_def AddComponent_def from_rule_def split: if_splits)

lemma add_rule_disjoint: "add_rule re h ip sp rules filt = Some filt' \<Longrightarrow> disjoint_filter filt \<Longrightarrow> disjoint_filter filt'"
  by (induction rules) (auto simp: Let_def intro: AddComponent_disjoint split: if_splits)

lemma add_specs_elements:
  assumes "add_specs re h ip rules sps filt = Some filt'" "elt \<in> set (elements filt')"
  shows "elt \<in> set (elements filt) \<or> from_rule re h ip rules sps elt"
  using assms
proof (induction sps arbitrary: filt)
  case (Cons sp sps)
  then obtain f1 where f1: "add_rule re h ip sp rules filt = Some f1" "add_specs re h ip rules sps f1 = Some filt'"
    by (auto simp: bind_eq_Some_conv)
  have "elt \<in> set (elements f1) \<or> from_rule re h ip rules sps elt" using Cons.IH [OF f1(2) Cons.prems(2)] .
  then show ?case using add_rule_elements [OF f1(1)] by (auto simp: from_rule_def)
qed simp

lemma add_specs_disjoint: "add_specs re h ip rules sps filt = Some filt' \<Longrightarrow> disjoint_filter filt \<Longrightarrow> disjoint_filter filt'"
  by (induction sps arbitrary: filt) (auto simp: bind_eq_Some_conv intro: add_rule_disjoint)

lemma and_nonzero_left:
  fixes a b c :: feedtype
  shows "(a AND b) AND c \<noteq> 0 \<Longrightarrow> a AND c \<noteq> 0 \<and> b AND c \<noteq> 0"
  using and_nonzero_mono [of c a b] by (simp add: and.commute)

lemma GetUpstreamFilter_spec:
  assumes "GetUpstreamFilter re acl h ip want = Some (Some filt)"
  shows "disjoint_filter filt"
    and "IsMatch filt info \<Longrightarrow> \<exists>rule \<in> set (allowRules acl). rule_allows re h ip rule info"
    and "IsMatch filt info \<Longrightarrow> \<exists>sp \<in> set (specs want). sp_feedtype sp AND pi_feedtype info \<noteq> 0"
proof -
  have add: "add_specs re h ip (allowRules acl) (specs want) new_UpFilter = Some filt"
    using assms by (auto simp: GetUpstreamFilter_def bind_eq_Some_conv split: if_splits)
  then show "disjoint_filter filt" using add_specs_disjoint disjoint_new by blast
  have "\<exists>rule \<in> set (allowRules acl). \<exists>sp \<in> set (specs want). rule_allows re h ip rule info \<and> sp_feedtype sp AND pi_feedtype info \<noteq> 0"
    if m: "IsMatch filt info"
  proof -
    obtain elt where e: "elt \<in> set (elements filt)" "element_accepts elt info"
      using m filter_match_accepts by (auto simp: IsMatch_def)
    have "from_rule re h ip (allowRules acl) (specs want) elt"
      using add_specs_elements [OF add e(1)] by (simp add: new_UpFilter_def)
    then obtain rule sp where rs: "rule \<in> set (allowRules acl)" "sp \<in> set (specs want)" "IsHostMatch re h ip (al_hostPattern rule)"
        "elt = \<lparr>fe_ft = al_feedtype rule AND sp_feedtype sp, okPattern = al_okPattern rule, notPattern = al_notPattern rule\<rparr>"
      by (auto simp: from_rule_def)
    have "rule_allows re h ip rule info" "sp_feedtype sp AND pi_feedtype info \<noteq> 0"
      using e(2) rs(3,4) and_nonzero_left [of "al_feedtype rule" "sp_feedtype sp" "pi_feedtype info"]
      by (auto simp: rule_allows_def element_accepts_def)
    then show ?thesis using rs(1,2) by blast
  qed
  then show "IsMatch filt info \<Longrightarrow> \<exists>rule \<in> set (allowRules acl). rule_allows re h ip rule info"
    "IsMatch filt info \<Longrightarrow> \<exists>sp \<in> set (specs want). sp_feedtype sp AND pi_feedtype info \<noteq> 0" by blast+
qed

lemma or_fold_bit:
  fixes z :: feedtype
  shows "bit (foldl (\<lambda>acc r. if P r then acc OR f r else acc) z rs) k \<longleftrightarrow> bit z k \<or> (\<exists>r \<in> set rs. P r \<and> bit (f r) k)"
  by (induction rs arbitrary: z) (auto simp: bit_or_iff)

lemma allowed_mask_bit:
  "bit (allowed_mask re acl h ip) k \<longleftrightarrow> (\<exists>rule \<in> set (allowRules acl). IsHostMatch re h ip (al_hostPattern rule) \<and> bit (al_feedtype rule) k)"
  by (simp add: allowed_mask_def or_fold_bit)

lemma reduce_specs_accepts:
  assumes "sp \<in> set (reduce_specs feeds sps)" "accepts re sp info"
  shows "feeds AND pi_feedtype info \<noteq> 0 \<and> (\<exists>sp' \<in> set sps. accepts re sp' info)"
  using assms
proof (induction sps)
  case (Cons s sps)
  show ?case
  proof (cases "sp \<in> set (reduce_specs feeds sps)")
    case True
    then show ?thesis using Cons by auto
  next
    case False
    have "sp_feedtype sp \<noteq> NONE" using Cons.prems(2) not_accepts_NONE by blast
    then have "sp = \<lparr>sp_feedtype = sp_feedtype s AND feeds, sp_pattern = sp_pattern s\<rparr>"
      using False Cons.prems(1) by (auto simp: Let_def split: if_splits)
    then have "accepts re s info" "feeds AND pi_feedtype info \<noteq> 0"
      using Cons.prems(2) and_nonzero_mono [of "pi_feedtype info" "sp_feedtype s" feeds] by (auto simp: accepts_def and.commute)
    then show ?thesis by simp
  qed
qed simp

lemma ReduceToAllowed_spec:
  assumes "ReduceToAllowed re acl h ip want isect = (0, r)" "member re' r info"
  shows "member re' want info" "allowed_mask re acl h ip AND pi_feedtype info \<noteq> 0"
proof -
  define m where "m = GetAllowed re acl h ip 0xffffffff"
  have m: "m = allowed_mask re acl h ip" using and_ANY [of "allowed_mask re acl h ip"]
    by (simp add: m_def GetAllowed_def ANY_def and.commute)
  have r: "r = isect\<lparr>from_sec := from_sec want, from_usec := from_usec want, to_sec := to_sec want, to_usec := to_usec want,
      specs := reduce_specs m (specs want)\<rparr>" "specs r \<noteq> []"
    using assms(1) by (auto simp: ReduceToAllowed_def Let_def m_def split: if_splits)
  then have "in_time want info" "specs r = reduce_specs m (specs want)" using assms(2) by (auto simp: member_def in_time_def)
  then show "member re' want info" "allowed_mask re acl h ip AND pi_feedtype info \<noteq> 0"
    using assms(2) r(2) reduce_specs_accepts m by (auto simp: member_def)
qed

lemma GetUpstreamFilter_throws:
  assumes "allowRules acl = rule # rules" "IsHostMatch re h ip (al_hostPattern rule)" "specs want = a # b # sps"
    "al_feedtype rule AND sp_feedtype a AND sp_feedtype b \<noteq> 0"
  shows "GetUpstreamFilter re acl h ip want = None"
proof -
  have nz: "al_feedtype rule AND sp_feedtype a \<noteq> NONE" "al_feedtype rule AND sp_feedtype b \<noteq> NONE"
    using and_nonzero_mono [OF assms(4)] by (simp_all add: NONE_def)
  have "(al_feedtype rule AND sp_feedtype b) AND (al_feedtype rule AND sp_feedtype a) = al_feedtype rule AND sp_feedtype a AND sp_feedtype b"
    by (rule bit_eqI) (auto simp: bit_simps)
  then show ?thesis
    using assms nz by (simp add: GetUpstreamFilter_def AddComponent_def new_UpFilter_def Let_def)
qed

subsection \<open>Properties\<close>

definition demo_rule :: AllowRule where
  "demo_rule = the (new_AllowRule prefix_engine WMO ''10.'' ''.*'' ''TEST'')"

definition demo_acl :: AclManager where
  "demo_acl = \<lparr>allowRules = [demo_rule], acceptRules = []\<rparr>"

lemma demo_rule_simps:
  "al_feedtype demo_rule = WMO" "al_hostPattern demo_rule = ''10.''" "isMatchAll (al_okPattern demo_rule)"
  "\<exists>q. al_notPattern demo_rule = Some q \<and> \<not> isMatch q ''SDUS52''"
  by (simp_all add: demo_rule_def new_AllowRule_def new_Pattern_def prefix_engine_def Let_def sanitizeExpression.simps isMatch_def)

lemma demo_host: "IsHostMatch prefix_engine ''host'' ''10.0.0.1'' ''10.''"
  by (simp add: IsHostMatch_def prefix_engine_def Let_def)

lemma demo_filter:
  "\<exists>filt. GetUpstreamFilter prefix_engine demo_acl ''host'' ''10.0.0.1'' (demo_class FT2 ''SDUS'' 100) = Some (Some filt) \<and>
     IsMatch filt demo_info"
proof -
  have b: "WMO AND FT2 \<noteq> NONE" "(WMO AND FT2) AND FT2 \<noteq> 0" by code_simp+
  have "isMatch (al_okPattern demo_rule) ''SDUS52''" using demo_rule_simps(3) by (simp add: isMatch_def)
  then show ?thesis using b demo_rule_simps demo_host
    by (auto simp: GetUpstreamFilter_def demo_acl_def demo_class_def AddComponent_def new_UpFilter_def Let_def
        GetComponentCount_def IsMatch_def demo_info_def)
qed

text \<open>
  C19. A product passes the filter built for a subscription only if some allow rule for the requesting
  host covers its feed type, its identifier matches that rule's pattern and not its exclusion, and the
  subscription asks for its feed type.
\<close>

theorem upstream_filter_allows:
  assumes "GetUpstreamFilter re acl h ip want = Some (Some filt)" "IsMatch filt info"
  shows "(\<exists>rule \<in> set (allowRules acl). rule_allows re h ip rule info) \<and>
    (\<exists>sp \<in> set (specs want). sp_feedtype sp AND pi_feedtype info \<noteq> 0)"
  using GetUpstreamFilter_spec(2,3) [OF assms(1,2)] by blast

theorem upstream_filter_allows_witness:
  "\<exists>rule \<in> set (allowRules demo_acl). rule_allows prefix_engine ''host'' ''10.0.0.1'' rule demo_info"
proof -
  obtain filt where "GetUpstreamFilter prefix_engine demo_acl ''host'' ''10.0.0.1'' (demo_class FT2 ''SDUS'' 100) = Some (Some filt)"
      "IsMatch filt demo_info"
    using demo_filter by blast
  from upstream_filter_allows [OF this] show ?thesis by blast
qed

text \<open>
  C20. A subscription reduced to what the host is allowed contains only products of the requested class,
  and only of feed types that some allow rule for the host covers.
\<close>

theorem reduced_subscription:
  assumes "ReduceToAllowed re acl h ip want isect = (0, r)" "member re' r info"
  shows "member re' want info \<and> (\<exists>k. bit (pi_feedtype info) k \<and>
    (\<exists>rule \<in> set (allowRules acl). IsHostMatch re h ip (al_hostPattern rule) \<and> bit (al_feedtype rule) k))"
proof -
  obtain k where "bit (allowed_mask re acl h ip AND pi_feedtype info) k"
    using ReduceToAllowed_spec(2) [OF assms] by (metis bit_eq_iff bit_0_eq bot_apply bot_bool_def)
  then show ?thesis using ReduceToAllowed_spec(1) [OF assms] by (auto simp: bit_and_iff allowed_mask_bit)
qed

theorem reduced_subscription_witness:
  "\<exists>k. bit (pi_feedtype demo_info) k \<and> bit (al_feedtype demo_rule) k"
proof -
  have m: "allowed_mask prefix_engine demo_acl ''host'' ''10.0.0.1'' = WMO"
    by (simp add: allowed_mask_def demo_acl_def demo_rule_simps demo_host)
  have b: "0xffffffff AND WMO \<noteq> NONE" "FT2 AND (0xffffffff AND WMO) = FT2 AND WMO" "FT2 \<noteq> NONE" "FT2 AND WMO \<noteq> NONE" by code_simp+
  have "ReduceToAllowed prefix_engine demo_acl ''host'' ''10.0.0.1'' (demo_class FT2 ''SDUS'' 100) empty_class =
      (0, demo_class (FT2 AND WMO) ''SDUS'' 100)"
    using b by (simp add: ReduceToAllowed_def GetAllowed_def m Let_def demo_class_def empty_class_def)
  from reduced_subscription [OF this demo_member] show ?thesis by (auto simp: demo_acl_def)
qed

text \<open>
  C21. The elements of a filter have pairwise disjoint feed types, and adding a component keeps that.
  Hence for a product of a single feed type the order of the elements does not matter: the filter
  matches if any element accepts it.
\<close>

theorem filter_elements_disjoint:
  assumes "disjoint_filter filt" "AddComponent ft ok no filt = Some filt'"
  shows "disjoint_filter filt' \<and> (pi_feedtype info = push_bit k 1 \<and> k < 32 \<longrightarrow>
    (IsMatch filt' info \<longleftrightarrow> (\<exists>elt \<in> set (elements filt'). element_accepts elt info)))"
  using AddComponent_disjoint [OF assms] filter_match_single [of "elements filt'" info k]
  by (auto simp: IsMatch_def disjoint_filter_def)

theorem filter_elements_disjoint_witness:
  "\<exists>filt'. AddComponent FT2 (al_okPattern demo_rule) None new_UpFilter = Some filt' \<and> disjoint_filter filt' \<and>
     (IsMatch filt' demo_info \<longleftrightarrow> (\<exists>elt \<in> set (elements filt'). element_accepts elt demo_info))"
proof -
  obtain filt' where f: "AddComponent FT2 (al_okPattern demo_rule) None new_UpFilter = Some filt'"
    by (simp add: AddComponent_def new_UpFilter_def)
  have "pi_feedtype demo_info = push_bit 2 1" by (simp add: demo_info_def FT2_def)
  with filter_elements_disjoint [OF disjoint_new f, of demo_info 2] f show ?thesis by auto
qed

text \<open>
  C35. A subscription whose first two specs share a feed type with the first rule for the host, such as
  two patterns for one feed type, makes \<open>GetUpstreamFilter\<close> throw: the second component overlaps the
  first.
\<close>

theorem upstream_filter_throws:
  assumes "allowRules acl = rule # rules" "IsHostMatch re h ip (al_hostPattern rule)" "specs want = a # b # sps"
    "al_feedtype rule AND sp_feedtype a AND sp_feedtype b \<noteq> 0"
  shows "GetUpstreamFilter re acl h ip want = None"
  using assms by (rule GetUpstreamFilter_throws)

theorem upstream_filter_throws_witness:
  "GetUpstreamFilter prefix_engine demo_acl ''host'' ''10.0.0.1''
     (empty_class\<lparr>specs := [\<lparr>sp_feedtype = FT2, sp_pattern = ''SDUS''\<rparr>, \<lparr>sp_feedtype = FT2, sp_pattern = ''FTUS''\<rparr>]\<rparr>) = None"
proof (rule upstream_filter_throws)
  show "allowRules demo_acl = demo_rule # []" by (simp add: demo_acl_def)
  show "IsHostMatch prefix_engine ''host'' ''10.0.0.1'' (al_hostPattern demo_rule)" by (simp add: demo_rule_simps demo_host)
  show "al_feedtype demo_rule AND sp_feedtype \<lparr>sp_feedtype = FT2, sp_pattern = ''SDUS''\<rparr> AND
      sp_feedtype \<lparr>sp_feedtype = FT2, sp_pattern = ''FTUS''\<rparr> \<noteq> 0"
    unfolding demo_rule_simps by code_simp
qed simp

end
