(* ===== verification/RW_Lock.thy ===== *)
theory RW_Lock
  imports RDM_Prelude
begin

text \<open>
  src/core/SemaphoreRWLock.cpp: the read-write lock between processes that guards the database of
  upstream connections. Every process counts its nested acquisitions in \<open>unsigned\<close> variables, written
  out here with their wrap-around at 32 bits, and asks the kernel for a lock on the whole file only for
  the outermost one.

  The kernel is the argument \<open>fcntl\<close>: \<open>fcntl p ty t\<close> is the outcome of \<open>PerformLock\<close>, its loop over
  interrupted calls included, for process \<open>p\<close> when \<open>t\<close> is the table of locks held: \<open>None\<close> if the call
  blocks for ever, otherwise the status and the new table. \<open>posix_locks\<close> states what POSIX documents of
  it. The system of all processes is a step relation whose steps are whole calls.
\<close>

subsection \<open>Operations\<close>

datatype lock_type = F_RDLCK | F_WRLCK | F_UNLCK

type_synonym lock_table = "nat \<rightharpoonup> lock_type"

type_synonym fcntl_lock = "nat \<Rightarrow> lock_type \<Rightarrow> lock_table \<Rightarrow> (int \<times> lock_table) option"

record SemaphoreRWLock =
  fd :: int
  numReadLocks :: nat
  numWriteLocks :: nat

definition u32_inc :: "nat \<Rightarrow> nat" where "u32_inc n = (n + 1) mod 2 ^ 32"

definition IsValid :: "SemaphoreRWLock \<Rightarrow> bool" where
  "IsValid lk \<longleftrightarrow> fd lk \<noteq> -1"

definition LockRead :: "fcntl_lock \<Rightarrow> nat \<Rightarrow> lock_table \<Rightarrow> SemaphoreRWLock \<Rightarrow> (int \<times> lock_table \<times> SemaphoreRWLock) option" where
  "LockRead fcntl p t lk =
     (if \<not> IsValid lk then Some (EINVAL, t, lk)
      else if numWriteLocks lk > 0 then Some (EDEADLK, t, lk)
      else if numReadLocks lk > 0 then Some (0, t, lk\<lparr>numReadLocks := u32_inc (numReadLocks lk)\<rparr>)
      else do {
        (status, t') \<leftarrow> fcntl p F_RDLCK t;
        Some (status, t', if status = 0 then lk\<lparr>numReadLocks := 1\<rparr> else lk) })"

definition LockWrite :: "fcntl_lock \<Rightarrow> nat \<Rightarrow> lock_table \<Rightarrow> SemaphoreRWLock \<Rightarrow> (int \<times> lock_table \<times> SemaphoreRWLock) option" where
  "LockWrite fcntl p t lk =
     (if \<not> IsValid lk then Some (EINVAL, t, lk)
      else if numReadLocks lk > 0 then Some (EDEADLK, t, lk)
      else if numWriteLocks lk > 0 then Some (0, t, lk\<lparr>numWriteLocks := u32_inc (numWriteLocks lk)\<rparr>)
      else do {
        (status, t') \<leftarrow> fcntl p F_WRLCK t;
        Some (status, t', if status = 0 then lk\<lparr>numWriteLocks := 1\<rparr> else lk) })"

definition Unlock :: "fcntl_lock \<Rightarrow> nat \<Rightarrow> lock_table \<Rightarrow> SemaphoreRWLock \<Rightarrow> (int \<times> lock_table \<times> SemaphoreRWLock) option" where
  "Unlock fcntl p t lk =
     (if \<not> IsValid lk then Some (EINVAL, t, lk)
      else if numWriteLocks lk > 1 then Some (0, t, lk\<lparr>numWriteLocks := numWriteLocks lk - 1\<rparr>)
      else if numWriteLocks lk = 1 then do {
        (status, t') \<leftarrow> fcntl p F_UNLCK t;
        Some (status, t', lk\<lparr>numWriteLocks := numWriteLocks lk - 1\<rparr>) }
      else if numReadLocks lk > 1 then Some (0, t, lk\<lparr>numReadLocks := numReadLocks lk - 1\<rparr>)
      else if numReadLocks lk = 1 then do {
        (status, t') \<leftarrow> fcntl p F_UNLCK t;
        Some (status, t', lk\<lparr>numReadLocks := numReadLocks lk - 1\<rparr>) }
      else Some (0, t, lk))"

text \<open>
  The scoped guards: acquire, run the body with the verdict, release if acquired. The body is a function
  of the guard's \<open>IsLocked\<close>.
\<close>

definition ScopedReadLock :: "fcntl_lock \<Rightarrow> nat \<Rightarrow> (bool \<Rightarrow> 'a) \<Rightarrow> lock_table \<Rightarrow> SemaphoreRWLock \<Rightarrow> ('a \<times> lock_table \<times> SemaphoreRWLock) option" where
  "ScopedReadLock fcntl p body t lk = do {
     (status, t1, lk1) \<leftarrow> LockRead fcntl p t lk;
     let r = body (status = 0);
     (t2, lk2) \<leftarrow> (if status = 0 then map_option snd (Unlock fcntl p t1 lk1) else Some (t1, lk1));
     Some (r, t2, lk2) }"

definition ScopedWriteLock :: "fcntl_lock \<Rightarrow> nat \<Rightarrow> (bool \<Rightarrow> 'a) \<Rightarrow> lock_table \<Rightarrow> SemaphoreRWLock \<Rightarrow> ('a \<times> lock_table \<times> SemaphoreRWLock) option" where
  "ScopedWriteLock fcntl p body t lk = do {
     (status, t1, lk1) \<leftarrow> LockWrite fcntl p t lk;
     let r = body (status = 0);
     (t2, lk2) \<leftarrow> (if status = 0 then map_option snd (Unlock fcntl p t1 lk1) else Some (t1, lk1));
     Some (r, t2, lk2) }"

subsection \<open>The kernel\<close>

text \<open>
  What POSIX documents of whole-file record locks: a write lock is granted only while no other process
  holds a lock, a read lock only while no other process holds a write lock; a granted request replaces
  the caller's lock, releasing it removes the caller's lock, and a failed request changes nothing.
\<close>

definition posix_locks :: "fcntl_lock \<Rightarrow> bool" where
  "posix_locks fcntl \<longleftrightarrow>
     (\<forall>p t t'. fcntl p F_WRLCK t = Some (0, t') \<longrightarrow> t' = t(p \<mapsto> F_WRLCK) \<and> (\<forall>q. q \<noteq> p \<longrightarrow> t q = None)) \<and>
     (\<forall>p t t'. fcntl p F_RDLCK t = Some (0, t') \<longrightarrow> t' = t(p \<mapsto> F_RDLCK) \<and> (\<forall>q. q \<noteq> p \<longrightarrow> t q \<noteq> Some F_WRLCK)) \<and>
     (\<forall>p t t'. fcntl p F_UNLCK t = Some (0, t') \<longrightarrow> t' = t(p := None)) \<and>
     (\<forall>p ty t t' s. fcntl p ty t = Some (s, t') \<longrightarrow> s \<noteq> 0 \<longrightarrow> t' = t)"

lemma posix_locksD:
  assumes "posix_locks fcntl"
  shows "fcntl p F_WRLCK t = Some (0, t') \<Longrightarrow> t' = t(p \<mapsto> F_WRLCK)"
    and "fcntl p F_WRLCK t = Some (0, t') \<Longrightarrow> q \<noteq> p \<Longrightarrow> t q = None"
    and "fcntl p F_RDLCK t = Some (0, t') \<Longrightarrow> t' = t(p \<mapsto> F_RDLCK)"
    and "fcntl p F_RDLCK t = Some (0, t') \<Longrightarrow> q \<noteq> p \<Longrightarrow> t q \<noteq> Some F_WRLCK"
    and "fcntl p F_UNLCK t = Some (0, t') \<Longrightarrow> t' = t(p := None)"
    and "fcntl p ty t = Some (s, t') \<Longrightarrow> s \<noteq> 0 \<Longrightarrow> t' = t"
  using assms unfolding posix_locks_def by blast+

subsection \<open>The system of processes\<close>

type_synonym lock_system = "(nat \<Rightarrow> SemaphoreRWLock) \<times> lock_table"

inductive rw_step :: "fcntl_lock \<Rightarrow> lock_system \<Rightarrow> lock_system \<Rightarrow> bool" for fcntl where
  read_call: "LockRead fcntl p t (L p) = Some (s, t', l') \<Longrightarrow> rw_step fcntl (L, t) (L(p := l'), t')"
| write_call: "LockWrite fcntl p t (L p) = Some (s, t', l') \<Longrightarrow> rw_step fcntl (L, t) (L(p := l'), t')"
| unlock_call: "Unlock fcntl p t (L p) = Some (s, t', l') \<Longrightarrow> rw_step fcntl (L, t) (L(p := l'), t')"

text \<open>Reachable in \<open>n\<close> calls from a state in which no process holds the lock.\<close>

inductive rw_reach :: "fcntl_lock \<Rightarrow> nat \<Rightarrow> lock_system \<Rightarrow> bool" for fcntl where
  start: "(\<And>p. numReadLocks (L p) = 0 \<and> numWriteLocks (L p) = 0) \<Longrightarrow> rw_reach fcntl 0 (L, Map.empty)"
| move: "rw_reach fcntl n s \<Longrightarrow> rw_step fcntl s s' \<Longrightarrow> rw_reach fcntl (Suc n) s'"

inductive_cases rw_stepE: "rw_step fcntl (L, t) s'"

text \<open>Counters never exceed the number of calls and are backed by the kernel's table.\<close>

definition backed :: "nat \<Rightarrow> lock_system \<Rightarrow> bool" where
  "backed n s \<longleftrightarrow> (case s of (L, t) \<Rightarrow>
     (\<forall>p. numReadLocks (L p) \<le> n \<and> numWriteLocks (L p) \<le> n \<and>
        (numReadLocks (L p) > 0 \<longrightarrow> t p = Some F_RDLCK) \<and> (numWriteLocks (L p) > 0 \<longrightarrow> t p = Some F_WRLCK)) \<and>
     (\<forall>p q. p \<noteq> q \<longrightarrow> t p = Some F_WRLCK \<longrightarrow> t q = None))"

lemma u32_inc_small: "n < 2 ^ 32 - 1 \<Longrightarrow> u32_inc n = n + 1"
  by (simp add: u32_inc_def)

text \<open>One call of one process, in terms of its own counters and of the table.\<close>

definition call_effect :: "nat \<Rightarrow> lock_table \<Rightarrow> SemaphoreRWLock \<Rightarrow> lock_table \<Rightarrow> SemaphoreRWLock \<Rightarrow> bool" where
  "call_effect p t l t' l' \<longleftrightarrow>
     (t' = t \<or> t' = t(p := None) \<or>
      (t' = t(p \<mapsto> F_WRLCK) \<and> (\<forall>q. q \<noteq> p \<longrightarrow> t q = None)) \<or>
      (t' = t(p \<mapsto> F_RDLCK) \<and> (\<forall>q. q \<noteq> p \<longrightarrow> t q \<noteq> Some F_WRLCK))) \<and>
     numReadLocks l' \<le> numReadLocks l + 1 \<and> numWriteLocks l' \<le> numWriteLocks l + 1 \<and>
     (numReadLocks l' > 0 \<longrightarrow> t' p = Some F_RDLCK) \<and> (numWriteLocks l' > 0 \<longrightarrow> t' p = Some F_WRLCK)"

lemma call_effects:
  assumes posix: "posix_locks fcntl"
    and l: "numReadLocks l < 2 ^ 32 - 1" "numWriteLocks l < 2 ^ 32 - 1"
      "numReadLocks l > 0 \<longrightarrow> t p = Some F_RDLCK" "numWriteLocks l > 0 \<longrightarrow> t p = Some F_WRLCK"
  shows "LockRead fcntl p t l = Some (s, t', l') \<Longrightarrow> call_effect p t l t' l'"
    and "LockWrite fcntl p t l = Some (s, t', l') \<Longrightarrow> call_effect p t l t' l'"
    and "Unlock fcntl p t l = Some (s, t', l') \<Longrightarrow> call_effect p t l t' l'"
proof -
  note inc = u32_inc_small [OF l(1)] u32_inc_small [OF l(2)]
  note P = posix_locksD [OF posix]
  show "call_effect p t l t' l'" if "LockRead fcntl p t l = Some (s, t', l')"
    using that l(3,4) inc P(3) [of p t t'] P(4) [of p t t'] P(6) [of p F_RDLCK t s t'] unfolding LockRead_def call_effect_def
    by (auto simp: bind_eq_Some_conv split: if_splits)
  show "call_effect p t l t' l'" if "LockWrite fcntl p t l = Some (s, t', l')"
    using that l(3,4) inc P(1) [of p t t'] P(2) [of p t t'] P(6) [of p F_WRLCK t s t'] unfolding LockWrite_def call_effect_def
    by (auto simp: bind_eq_Some_conv split: if_splits)
  show "call_effect p t l t' l'" if "Unlock fcntl p t l = Some (s, t', l')"
    using that l(3,4) P(5) [of p t t'] P(6) [of p F_UNLCK t s t'] unfolding Unlock_def call_effect_def
    by (auto simp: bind_eq_Some_conv split: if_splits)
qed

lemma backed_step:
  assumes "posix_locks fcntl" "backed n s" "n < 2 ^ 32 - 1" "rw_step fcntl s s'"
  shows "backed (Suc n) s'"
proof -
  obtain L t where s: "s = (L, t)" by (cases s)
  have cnt: "numReadLocks (L p) \<le> n" "numWriteLocks (L p) \<le> n"
    and held: "numReadLocks (L p) > 0 \<longrightarrow> t p = Some F_RDLCK" "numWriteLocks (L p) > 0 \<longrightarrow> t p = Some F_WRLCK"
    and excl: "p \<noteq> q \<Longrightarrow> t p = Some F_WRLCK \<Longrightarrow> t q = None" for p q
    using assms(2) unfolding backed_def s by auto
  have eff: "call_effect p t (L p) t' l'"
    if "LockRead fcntl p t (L p) = Some (st, t', l') \<or> LockWrite fcntl p t (L p) = Some (st, t', l') \<or>
        Unlock fcntl p t (L p) = Some (st, t', l')" for p st t' l'
  proof -
    have "numReadLocks (L p) < 2 ^ 32 - 1" "numWriteLocks (L p) < 2 ^ 32 - 1"
      using cnt [of p] assms(3) by (auto intro: le_less_trans)
    note E = call_effects [where t = t and p = p, OF assms(1) this held [of p]]
    from that show ?thesis using E(1) [of st t' l'] E(2) [of st t' l'] E(3) [of st t' l'] by blast
  qed
  obtain p t' l' where s': "s' = (L(p := l'), t')" and eff: "call_effect p t (L p) t' l'"
    using assms(4) unfolding s by (cases rule: rw_stepE) (use eff in blast)+
  have other: "t' q = t q" if "q \<noteq> p" for q using eff that by (auto simp: call_effect_def)
  have excl': "t' y = None" if "x \<noteq> y" "t' x = Some F_WRLCK" for x y
    using eff excl [of x y] excl [of x p] excl [of p y] that unfolding call_effect_def by (auto split: if_splits)
  have "numReadLocks l' \<le> Suc n" "numWriteLocks l' \<le> Suc n"
    using eff cnt [of p] by (auto simp: call_effect_def)
  moreover have "numReadLocks l' > 0 \<longrightarrow> t' p = Some F_RDLCK" "numWriteLocks l' > 0 \<longrightarrow> t' p = Some F_WRLCK"
    using eff by (auto simp: call_effect_def)
  ultimately show ?thesis
    unfolding s' backed_def using cnt held other excl' by (auto simp: le_SucI)
qed


lemma rw_reach_backed:
  assumes "posix_locks fcntl" "rw_reach fcntl n s" "n < 2 ^ 32"
  shows "backed n s"
  using assms(2,3)
proof induction
  case (start L)
  then show ?case by (auto simp: backed_def)
next
  case (move n s s')
  then show ?case using backed_step [OF assms(1), of n s s'] by simp
qed

lemma rw_exclusive:
  assumes "posix_locks fcntl" "rw_reach fcntl n (L, t)" "n < 2 ^ 32" "p \<noteq> q" "numWriteLocks (L p) > 0"
  shows "numWriteLocks (L q) = 0 \<and> numReadLocks (L q) = 0"
proof -
  have b: "backed n (L, t)" using rw_reach_backed [OF assms(1-3)] .
  then have "t p = Some F_WRLCK" using assms(5) by (simp add: backed_def)
  then have "t q = None" using b assms(4) by (simp add: backed_def)
  moreover have "numReadLocks (L q) > 0 \<longrightarrow> t q = Some F_RDLCK" "numWriteLocks (L q) > 0 \<longrightarrow> t q = Some F_WRLCK"
    using b by (simp_all add: backed_def)
  ultimately show ?thesis by auto
qed

subsection \<open>Nesting\<close>

text \<open>\<open>times n f\<close>: call \<open>f\<close> \<open>n\<close> times, as long as it returns status 0.\<close>

primrec times_ok :: "nat \<Rightarrow> ('s \<Rightarrow> (int \<times> 's) option) \<Rightarrow> 's \<Rightarrow> 's option" where
  "times_ok 0 f s = Some s"
| "times_ok (Suc n) f s = do { (st, s') \<leftarrow> f s; if st = 0 then times_ok n f s' else None }"

lemma nested_writes:
  assumes "IsValid lk" "numReadLocks lk = 0" "0 < numWriteLocks lk" "numWriteLocks lk + n < 2 ^ 32"
  shows "times_ok n (\<lambda>(t, lk). LockWrite fcntl p t lk) (t, lk) = Some (t, lk\<lparr>numWriteLocks := numWriteLocks lk + n\<rparr>)"
  using assms
proof (induction n arbitrary: lk)
  case (Suc n)
  have "u32_inc (numWriteLocks lk) = numWriteLocks lk + 1" using Suc.prems by (intro u32_inc_small) simp
  then show ?case
    using Suc.IH [of "lk\<lparr>numWriteLocks := numWriteLocks lk + 1\<rparr>"] Suc.prems by (simp add: LockWrite_def IsValid_def)
qed simp

lemma nested_unlocks:
  assumes "IsValid lk" "n < numWriteLocks lk"
  shows "times_ok n (\<lambda>(t, lk). Unlock fcntl p t lk) (t, lk) = Some (t, lk\<lparr>numWriteLocks := numWriteLocks lk - n\<rparr>)"
  using assms
proof (induction n arbitrary: lk)
  case (Suc n)
  then show ?case using Suc.IH [of "lk\<lparr>numWriteLocks := numWriteLocks lk - 1\<rparr>"] by (simp add: Unlock_def IsValid_def)
qed simp

lemma nested_balance:
  assumes "posix_locks fcntl" "IsValid lk" "numReadLocks lk = 0" "numWriteLocks lk = 0" "n < 2 ^ 32 - 1"
    and "fcntl p F_WRLCK t = Some (0, t1)" "fcntl p F_UNLCK t1 = Some (0, t2)" "t p = None"
  shows "times_ok (Suc n) (\<lambda>(t, lk). LockWrite fcntl p t lk) (t, lk) = Some (t(p \<mapsto> F_WRLCK), lk\<lparr>numWriteLocks := Suc n\<rparr>) \<and>
    times_ok n (\<lambda>(t, lk). Unlock fcntl p t lk) (t(p \<mapsto> F_WRLCK), lk\<lparr>numWriteLocks := Suc n\<rparr>) =
      Some (t(p \<mapsto> F_WRLCK), lk\<lparr>numWriteLocks := 1\<rparr>) \<and>
    Unlock fcntl p (t(p \<mapsto> F_WRLCK)) (lk\<lparr>numWriteLocks := 1\<rparr>) = Some (0, t, lk)"
proof (intro conjI)
  have t1: "t1 = t(p \<mapsto> F_WRLCK)" using posix_locksD(1) [OF assms(1,6)] .
  have t2: "t2 = t" using posix_locksD(5) [OF assms(1,7)] t1 assms(8) by auto
  show "times_ok (Suc n) (\<lambda>(t, lk). LockWrite fcntl p t lk) (t, lk) = Some (t(p \<mapsto> F_WRLCK), lk\<lparr>numWriteLocks := Suc n\<rparr>)"
    using assms(2-6) t1 nested_writes [of "lk\<lparr>numWriteLocks := 1\<rparr>" n fcntl p t1] by (simp add: LockWrite_def IsValid_def)
  show "times_ok n (\<lambda>(t, lk). Unlock fcntl p t lk) (t(p \<mapsto> F_WRLCK), lk\<lparr>numWriteLocks := Suc n\<rparr>) =
      Some (t(p \<mapsto> F_WRLCK), lk\<lparr>numWriteLocks := 1\<rparr>)"
    using assms(2) nested_unlocks [of "lk\<lparr>numWriteLocks := Suc n\<rparr>" n] by (simp add: IsValid_def)
  show "Unlock fcntl p (t(p \<mapsto> F_WRLCK)) (lk\<lparr>numWriteLocks := 1\<rparr>) = Some (0, t, lk)"
    using assms(2,4,7) t1 t2 by (simp add: Unlock_def IsValid_def)
qed

subsection \<open>Properties\<close>

text \<open>A kernel that meets the documented behaviour, blocking when a lock cannot be granted.\<close>

definition demo_fcntl :: fcntl_lock where
  "demo_fcntl p ty t = (case ty of
     F_UNLCK \<Rightarrow> Some (0, t(p := None))
   | F_RDLCK \<Rightarrow> (if \<forall>q. q \<noteq> p \<longrightarrow> t q \<noteq> Some F_WRLCK then Some (0, t(p \<mapsto> F_RDLCK)) else None)
   | F_WRLCK \<Rightarrow> (if \<forall>q. q \<noteq> p \<longrightarrow> t q = None then Some (0, t(p \<mapsto> F_WRLCK)) else None))"

lemma demo_fcntl_posix: "posix_locks demo_fcntl"
  unfolding posix_locks_def
  by (intro conjI allI impI) (simp_all add: demo_fcntl_def split: lock_type.splits if_splits)

text \<open>
  C29. Mutual exclusion. In every state reachable by fewer than \<open>2 ^ 32\<close> calls, while one process counts
  a write acquisition no other process counts a read or write acquisition, provided the kernel grants
  record locks as POSIX documents.
\<close>

theorem rw_mutual_exclusion:
  assumes "posix_locks fcntl" "rw_reach fcntl n (L, t)" "n < 2 ^ 32" "p \<noteq> q" "numWriteLocks (L p) > 0"
  shows "numWriteLocks (L q) = 0 \<and> numReadLocks (L q) = 0"
  using assms by (rule rw_exclusive)

theorem rw_mutual_exclusion_witness:
  "\<exists>L t. rw_reach demo_fcntl 1 (L, t) \<and> numWriteLocks (L 7) = 1 \<and> numWriteLocks (L 8) = 0 \<and> numReadLocks (L 8) = 0"
proof -
  let ?l = "\<lparr>fd = 3, numReadLocks = 0, numWriteLocks = 0\<rparr>"
  have "LockWrite demo_fcntl 7 Map.empty ?l = Some (0, [7 \<mapsto> F_WRLCK], ?l\<lparr>numWriteLocks := 1\<rparr>)"
    by (simp add: LockWrite_def IsValid_def demo_fcntl_def)
  then have "rw_step demo_fcntl (\<lambda>_. ?l, Map.empty) ((\<lambda>_. ?l)(7 := ?l\<lparr>numWriteLocks := 1\<rparr>), [7 \<mapsto> F_WRLCK])"
    by (rule write_call)
  from rw_reach.move [OF rw_reach.start this]
  have r: "rw_reach demo_fcntl 1 ((\<lambda>_. ?l)(7 := ?l\<lparr>numWriteLocks := 1\<rparr>), [7 \<mapsto> F_WRLCK])" by simp
  define L :: "nat \<Rightarrow> SemaphoreRWLock" where "L = ((\<lambda>_. ?l)(7 := ?l\<lparr>numWriteLocks := 1\<rparr>))"
  have w: "numWriteLocks (L 7) = 1" by (simp add: L_def)
  have "numWriteLocks (L 8) = 0 \<and> numReadLocks (L 8) = 0"
    by (rule rw_mutual_exclusion [OF demo_fcntl_posix r [folded L_def], of 7 8]) (simp_all add: w)
  then show ?thesis using r [folded L_def] w by blast
qed

text \<open>
  C30. Nested write acquisitions balance: after \<open>n + 1\<close> calls of \<open>LockWrite\<close> the counter is \<open>n + 1\<close> and
  the kernel was asked once, the next \<open>n\<close> calls of \<open>Unlock\<close> keep the file locked, and the last one
  returns the process and the kernel to where they started.
\<close>

theorem rw_nesting:
  assumes "posix_locks fcntl" "IsValid lk" "numReadLocks lk = 0" "numWriteLocks lk = 0" "n < 2 ^ 32 - 1"
    and "fcntl p F_WRLCK t = Some (0, t1)" "fcntl p F_UNLCK t1 = Some (0, t2)" "t p = None"
  shows "times_ok (Suc n) (\<lambda>(t, lk). LockWrite fcntl p t lk) (t, lk) = Some (t(p \<mapsto> F_WRLCK), lk\<lparr>numWriteLocks := Suc n\<rparr>) \<and>
    times_ok n (\<lambda>(t, lk). Unlock fcntl p t lk) (t(p \<mapsto> F_WRLCK), lk\<lparr>numWriteLocks := Suc n\<rparr>) =
      Some (t(p \<mapsto> F_WRLCK), lk\<lparr>numWriteLocks := 1\<rparr>) \<and>
    Unlock fcntl p (t(p \<mapsto> F_WRLCK)) (lk\<lparr>numWriteLocks := 1\<rparr>) = Some (0, t, lk)"
  using assms by (rule nested_balance)

theorem rw_nesting_witness:
  "Unlock demo_fcntl 7 [7 \<mapsto> F_WRLCK] \<lparr>fd = 3, numReadLocks = 0, numWriteLocks = 1\<rparr> =
     Some (0, Map.empty, \<lparr>fd = 3, numReadLocks = 0, numWriteLocks = 0\<rparr>)"
  using rw_nesting [OF demo_fcntl_posix, of "\<lparr>fd = 3, numReadLocks = 0, numWriteLocks = 0\<rparr>" 2 7 Map.empty "[7 \<mapsto> F_WRLCK]" Map.empty]
  by (simp add: IsValid_def demo_fcntl_def)

end
