(* ===== verification/Upstream_Db.thy ===== *)
theory Upstream_Db
  imports Prod_Class
begin

text \<open>
  src/core/ULDB.cpp and \<open>IpAddressesAreEqual\<close> of NetworkUtils.cpp: the table of upstream connections in
  shared memory. A mapped segment is a header and an array of entries. What the scoped lock guard and the
  operating system answer are arguments: \<open>locked\<close> is the guard's \<open>IsLocked\<close>, \<open>antiDos\<close> the registry
  switch, and the \<open>*_ok\<close> flags say whether a system call succeeds.

  \<open>uldb_inv\<close> ties the header to the array. The lemmas show that every operation keeps it, which entries
  a call adds or removes, and that a class which fits the fixed-size record is read back unchanged.
\<close>

subsection \<open>State\<close>

definition MAX_SPECS_PER_ENTRY :: nat where "MAX_SPECS_PER_ENTRY = 32"

definition MAX_PATTERN_LEN :: nat where "MAX_PATTERN_LEN = 256"

text \<open>\<open>sizeof(ShmEntry)\<close> on a 64-bit Linux system.\<close>

definition SHM_ENTRY_SIZE :: nat where "SHM_ENTRY_SIZE = 8512"

record sockaddr =
  ss_family :: nat
  sin_addr :: "8 word list"
  sin_rest :: "8 word list"

definition AF_INET :: nat where "AF_INET = 2"

definition AF_INET6 :: nat where "AF_INET6 = 10"

definition IpAddressesAreEqual :: "sockaddr \<Rightarrow> sockaddr \<Rightarrow> bool" where
  "IpAddressesAreEqual a b =
     (if ss_family a \<noteq> ss_family b then False
      else if ss_family a = AF_INET then sin_addr a = sin_addr b
      else if ss_family a = AF_INET6 then sin_addr a = sin_addr b
      else False)"

record ShmProdSpec =
  shm_feedtype :: feedtype
  shm_pattern :: string

record ShmProdClass =
  shm_from_sec :: int
  shm_from_usec :: int
  shm_to_sec :: int
  shm_to_usec :: int
  numSpecs :: nat
  shm_specs :: "ShmProdSpec list"

record ShmEntry =
  isActive :: bool
  pid :: int
  protoVers :: int
  isNotifier :: int
  isPrimary :: int
  sockAddr :: sockaddr
  shm_class :: ShmProdClass

record ShmRegion =
  maxEntries :: nat
  activeEntries :: nat
  shm_entries :: "ShmEntry list"

datatype UldbStatus = U_SUCCESS | U_ARG | U_INIT | U_EXIST | U_SYSTEM

record UldbEntry =
  ue_pid :: int
  ue_protoVers :: int
  ue_isNotifier :: int
  ue_isPrimary :: int
  ue_sockAddr :: sockaddr
  ue_prodClass :: ProdClass

subsection \<open>The segment\<close>

definition GetPosixShmName :: "string \<Rightarrow> string \<Rightarrow> string" where
  "GetPosixShmName queuePath path =
     (let searchPath = (if path = [] then queuePath else path)
      in ''/ldm_uldb'' @ map (\<lambda>c. if c = CHR ''/'' then CHR ''_'' else c) searchPath)"

text \<open>A fresh segment is filled with zeros by the operating system.\<close>

definition zero_entry :: ShmEntry where
  "zero_entry = \<lparr>isActive = False, pid = 0, protoVers = 0, isNotifier = 0, isPrimary = 0,
     sockAddr = \<lparr>ss_family = 0, sin_addr = [], sin_rest = []\<rparr>,
     shm_class = \<lparr>shm_from_sec = 0, shm_from_usec = 0, shm_to_sec = 0, shm_to_usec = 0, numSpecs = 0,
       shm_specs = replicate MAX_SPECS_PER_ENTRY \<lparr>shm_feedtype = 0, shm_pattern = []\<rparr>\<rparr>\<rparr>"

record create_env =
  shm_open_ok :: bool
  ftruncate_ok :: bool
  mmap_ok :: bool
  lock_create_ok :: bool

definition Uldb_Create :: "create_env \<Rightarrow> nat \<Rightarrow> ShmRegion option \<Rightarrow> UldbStatus \<times> ShmRegion option" where
  "Uldb_Create env capacity old =
     (let n0 = capacity div SHM_ENTRY_SIZE;
          n = (if n0 = 0 then 100 else n0)
      in if \<not> shm_open_ok env then (U_SYSTEM, old)
         else if \<not> ftruncate_ok env then (U_SYSTEM, old)
         else if \<not> mmap_ok env then (U_SYSTEM, None)
         else if \<not> lock_create_ok env then (U_SYSTEM, None)
         else (U_SUCCESS, Some \<lparr>maxEntries = n, activeEntries = 0,
                shm_entries = map (\<lambda>e. e\<lparr>isActive := False\<rparr>) (replicate n zero_entry)\<rparr>))"

text \<open>\<open>attached\<close> is the outcome of \<open>AttachSharedMemory\<close>.\<close>

definition Uldb_Open :: "UldbStatus \<times> ShmRegion option \<Rightarrow> bool \<Rightarrow> ShmRegion option \<Rightarrow> UldbStatus \<times> ShmRegion option" where
  "Uldb_Open attached lock_attach_ok mapped =
     (if mapped \<noteq> None then (U_SUCCESS, mapped)
      else case attached of (status, r) \<Rightarrow>
        if status = U_SUCCESS then (if lock_attach_ok then (status, r) else (U_SYSTEM, None))
        else (status, None))"

definition Uldb_Close :: "ShmRegion option \<Rightarrow> UldbStatus \<times> ShmRegion option" where
  "Uldb_Close mapped = (U_SUCCESS, None)"

definition GetSize :: "bool \<Rightarrow> ShmRegion option \<Rightarrow> UldbStatus \<times> nat option" where
  "GetSize locked mapped = (case mapped of
     None \<Rightarrow> (U_SYSTEM, None)
   | Some r \<Rightarrow> if locked then (U_SUCCESS, Some (activeEntries r mod 2 ^ 32)) else (U_SYSTEM, None))"

subsection \<open>Adding and removing\<close>

text \<open>
  The scan against redundant connections: whether it stops at an entry of the same process, the entries,
  the count of active ones and the processes sent a termination signal.
\<close>

primrec dos_scan :: "int \<Rightarrow> int \<Rightarrow> sockaddr \<Rightarrow> int \<Rightarrow> ShmEntry list \<Rightarrow> nat \<Rightarrow> bool \<times> ShmEntry list \<times> nat \<times> int list" where
  "dos_scan p proto sa notif [] act = (False, [], act, [])"
| "dos_scan p proto sa notif (e # es) act =
     (if \<not> isActive e then (case dos_scan p proto sa notif es act of (x, es', act', ks) \<Rightarrow> (x, e # es', act', ks))
      else if p = pid e then (True, e # es, act, [])
      else if proto = protoVers e \<and> IpAddressesAreEqual sa (sockAddr e) \<and> notif = 0 \<and> isNotifier e = 0
      then (case dos_scan p proto sa notif es (sz_dec act) of (x, es', act', ks) \<Rightarrow>
              (x, e\<lparr>isActive := False\<rparr> # es', act', pid e # ks))
      else (case dos_scan p proto sa notif es act of (x, es', act', ks) \<Rightarrow> (x, e # es', act', ks)))"

primrec free_slot :: "nat \<Rightarrow> ShmEntry list \<Rightarrow> nat option" where
  "free_slot i [] = None"
| "free_slot i (e # es) = (if \<not> isActive e then Some i else free_slot (Suc i) es)"

text \<open>\<open>strncpy\<close> of the C string, with the terminator forced into the last place.\<close>

definition store_spec :: "ProdSpec \<Rightarrow> ShmProdSpec" where
  "store_spec sp = \<lparr>shm_feedtype = sp_feedtype sp, shm_pattern = take (MAX_PATTERN_LEN - 1) (c_str (sp_pattern sp))\<rparr>"

definition store_class :: "ProdClass \<Rightarrow> ShmProdClass \<Rightarrow> ShmProdClass" where
  "store_class c old =
     (let specCount = min (length (specs c)) MAX_SPECS_PER_ENTRY
      in \<lparr>shm_from_sec = from_sec c, shm_from_usec = from_usec c, shm_to_sec = to_sec c, shm_to_usec = to_usec c,
          numSpecs = specCount,
          shm_specs = map store_spec (take specCount (specs c)) @ drop specCount (shm_specs old)\<rparr>)"

text \<open>\<open>AddProcess\<close> returns the status, the new value of \<open>allowed\<close>, the terminated processes and the segment.\<close>

definition AddProcess :: "bool \<Rightarrow> bool \<Rightarrow> int \<Rightarrow> int \<Rightarrow> sockaddr \<Rightarrow> ProdClass \<Rightarrow> ProdClass \<Rightarrow> int \<Rightarrow> int \<Rightarrow>
    ShmRegion option \<Rightarrow> UldbStatus \<times> ProdClass \<times> int list \<times> ShmRegion option" where
  "AddProcess locked antiDos p proto sa desired allowed notif prim mapped =
     (if p \<le> 0 then (U_ARG, allowed, [], mapped)
      else case mapped of
        None \<Rightarrow> (U_SYSTEM, allowed, [], mapped)
      | Some r \<Rightarrow>
        if \<not> locked then (U_SYSTEM, allowed, [], mapped)
        else case (if antiDos then dos_scan p proto sa notif (shm_entries r) (activeEntries r)
                   else (False, shm_entries r, activeEntries r, [])) of (found, es, act, ks) \<Rightarrow>
          let r1 = r\<lparr>shm_entries := es, activeEntries := act\<rparr> in
          if found then (U_EXIST, desired, ks, Some r1)
          else if specs desired = [] then (U_SUCCESS, desired, ks, Some r1)
          else case free_slot 0 es of
            None \<Rightarrow> (U_SYSTEM, desired, ks, Some r1)
          | Some i \<Rightarrow> (U_SUCCESS, desired, ks, Some (r1\<lparr>
              shm_entries := es[i := \<lparr>isActive = True, pid = p, protoVers = proto, isNotifier = notif, isPrimary = prim,
                sockAddr = sa, shm_class = store_class desired (shm_class (es ! i))\<rparr>],
              activeEntries := sz_inc act\<rparr>)))"

primrec remove_pid :: "int \<Rightarrow> ShmEntry list \<Rightarrow> ShmEntry list option" where
  "remove_pid p [] = None"
| "remove_pid p (e # es) =
     (if isActive e \<and> pid e = p then Some (e\<lparr>isActive := False\<rparr> # es) else map_option ((#) e) (remove_pid p es))"

definition Uldb_Remove :: "bool \<Rightarrow> int \<Rightarrow> ShmRegion option \<Rightarrow> UldbStatus \<times> ShmRegion option" where
  "Uldb_Remove locked p mapped =
     (if p \<le> 0 then (U_ARG, mapped)
      else case mapped of
        None \<Rightarrow> (U_SYSTEM, mapped)
      | Some r \<Rightarrow>
        if \<not> locked then (U_SYSTEM, mapped)
        else case remove_pid p (shm_entries r) of
          None \<Rightarrow> (U_EXIST, mapped)
        | Some es \<Rightarrow> (U_SUCCESS, Some (r\<lparr>shm_entries := es, activeEntries := sz_dec (activeEntries r)\<rparr>)))"

definition load_class :: "ShmProdClass \<Rightarrow> ProdClass" where
  "load_class c =
     \<lparr>from_sec = shm_from_sec c, from_usec = shm_from_usec c, to_sec = shm_to_sec c, to_usec = shm_to_usec c,
      specs = map (\<lambda>s. \<lparr>sp_feedtype = shm_feedtype s, sp_pattern = shm_pattern s\<rparr>) (take (numSpecs c) (shm_specs c))\<rparr>"

definition load_entry :: "ShmEntry \<Rightarrow> UldbEntry" where
  "load_entry e = \<lparr>ue_pid = pid e, ue_protoVers = protoVers e, ue_isNotifier = isNotifier e, ue_isPrimary = isPrimary e,
     ue_sockAddr = sockAddr e, ue_prodClass = load_class (shm_class e)\<rparr>"

definition GetEntries :: "bool \<Rightarrow> ShmRegion option \<Rightarrow> UldbStatus \<times> UldbEntry list" where
  "GetEntries locked mapped = (case mapped of
     None \<Rightarrow> (U_SYSTEM, [])
   | Some r \<Rightarrow> if locked then (U_SUCCESS, map load_entry (filter isActive (shm_entries r))) else (U_SYSTEM, []))"


subsection \<open>Invariant\<close>

abbreviation active :: "ShmEntry list \<Rightarrow> ShmEntry list" where "active es \<equiv> filter isActive es"

definition entry_ok :: "ShmEntry \<Rightarrow> bool" where
  "entry_ok e \<longleftrightarrow> numSpecs (shm_class e) \<le> MAX_SPECS_PER_ENTRY \<and> length (shm_specs (shm_class e)) = MAX_SPECS_PER_ENTRY"

definition uldb_inv :: "ShmRegion \<Rightarrow> bool" where
  "uldb_inv r \<longleftrightarrow> length (shm_entries r) = maxEntries r \<and> maxEntries r < SIZE_NONE \<and>
     activeEntries r = length (active (shm_entries r)) \<and> (\<forall>e \<in> set (shm_entries r). entry_ok e)"

text \<open>An entry that a new connection makes redundant.\<close>

definition redundant :: "int \<Rightarrow> sockaddr \<Rightarrow> int \<Rightarrow> ShmEntry \<Rightarrow> bool" where
  "redundant proto sa notif e \<longleftrightarrow> proto = protoVers e \<and> IpAddressesAreEqual sa (sockAddr e) \<and> notif = 0 \<and> isNotifier e = 0"

lemma entry_ok_inactive [simp]: "entry_ok (e\<lparr>isActive := b\<rparr>) \<longleftrightarrow> entry_ok e"
  by (simp add: entry_ok_def)

lemma dos_scan_spec:
  assumes "dos_scan p proto sa notif es act = (x, es', act', ks)" "act = length (active es) + c" "act < 2 ^ 64"
  shows "length es' = length es \<and> act' = length (active es') + c \<and> act' \<le> act \<and>
    ((\<forall>e \<in> set es. entry_ok e) \<longrightarrow> (\<forall>e \<in> set es'. entry_ok e)) \<and>
    (x \<longleftrightarrow> (\<exists>e \<in> set (active es). pid e = p)) \<and>
    (\<not> x \<longrightarrow> active es' = filter (\<lambda>e. \<not> redundant proto sa notif e) (active es) \<and>
       ks = map pid (filter (redundant proto sa notif) (active es)))"
  using assms
proof (induction es arbitrary: act c x es' act' ks)
  case (Cons e es)
  consider "\<not> isActive e" | "isActive e" "p = pid e" | "isActive e" "p \<noteq> pid e" "redundant proto sa notif e"
    | "isActive e" "p \<noteq> pid e" "\<not> redundant proto sa notif e" by blast
  then show ?case
  proof cases
    case 1
    then obtain es1 where "dos_scan p proto sa notif es act = (x, es1, act', ks)" "es' = e # es1"
      using Cons.prems(1) by (auto split: prod.splits)
    then show ?thesis using Cons.IH [of act x es1 act' ks c] Cons.prems 1 by auto
  next
    case 2
    then show ?thesis using Cons.prems by auto
  next
    case 3
    then have "dos_scan p proto sa notif (e # es) act = (case dos_scan p proto sa notif es (sz_dec act) of
        (x, es', act', ks) \<Rightarrow> (x, e\<lparr>isActive := False\<rparr> # es', act', pid e # ks))" by (simp add: redundant_def)
    then obtain es1 ks1 where d: "dos_scan p proto sa notif es (sz_dec act) = (x, es1, act', ks1)"
        "es' = e\<lparr>isActive := False\<rparr> # es1" "ks = pid e # ks1"
      using Cons.prems(1) by (auto split: prod.splits)
    have "sz_dec act = act - 1" using Cons.prems(2,3) 3(1) by (simp add: sz_sub_def)
    then show ?thesis using Cons.IH [OF d(1), of c] Cons.prems(2,3) 3 d(2,3) by auto
  next
    case 4
    then have "dos_scan p proto sa notif (e # es) act = (case dos_scan p proto sa notif es act of
        (x, es', act', ks) \<Rightarrow> (x, e # es', act', ks))" by (auto simp: redundant_def split: prod.splits)
    then obtain es1 where d: "dos_scan p proto sa notif es act = (x, es1, act', ks)" "es' = e # es1"
      using Cons.prems(1) by (auto split: prod.splits)
    have "act = length (active es) + Suc c" using Cons.prems(2) 4(1) by simp
    from Cons.IH [OF d(1) this Cons.prems(3)] show ?thesis using d(2) 4 by auto
  qed
qed simp

lemma free_slot_None: "free_slot i es = None \<longleftrightarrow> (\<forall>e \<in> set es. isActive e)"
  by (induction es arbitrary: i) auto

lemma free_slot_Some:
  "free_slot i es = Some k \<Longrightarrow> i \<le> k \<and> k - i < length es \<and> \<not> isActive (es ! (k - i)) \<and>
     (\<exists>xs ys. active es = xs @ ys \<and> (\<forall>e. isActive e \<longrightarrow> active (es[k - i := e]) = xs @ e # ys))"
proof (induction es arbitrary: i)
  case (Cons a es)
  show ?case
  proof (cases "isActive a")
    case False
    then show ?thesis using Cons.prems by auto
  next
    case True
    then have k: "free_slot (Suc i) es = Some k" using Cons.prems by simp
    from Cons.IH [OF k] obtain xs ys where h: "Suc i \<le> k" "k - Suc i < length es" "\<not> isActive (es ! (k - Suc i))"
        "active es = xs @ ys" "\<forall>e. isActive e \<longrightarrow> active (es[k - Suc i := e]) = xs @ e # ys" by blast
    have ki: "k - i = Suc (k - Suc i)" using h(1) by simp
    have "active (a # es) = (a # xs) @ ys \<and> (\<forall>e. isActive e \<longrightarrow> active ((a # es)[k - i := e]) = (a # xs) @ e # ys)"
      unfolding ki using h(4,5) True by simp
    then have "\<exists>xs ys. active (a # es) = xs @ ys \<and> (\<forall>e. isActive e \<longrightarrow> active ((a # es)[k - i := e]) = xs @ e # ys)" by blast
    moreover have "i \<le> k" "k - i < length (a # es)" "\<not> isActive ((a # es) ! (k - i))" using h(1-3) by (simp_all add: ki)
    ultimately show ?thesis by blast
  qed
qed simp

lemma store_class_ok: "length (shm_specs old) = MAX_SPECS_PER_ENTRY \<Longrightarrow>
    numSpecs (store_class c old) \<le> MAX_SPECS_PER_ENTRY \<and> length (shm_specs (store_class c old)) = MAX_SPECS_PER_ENTRY"
  by (simp add: store_class_def Let_def)

text \<open>A class is stored without loss when its specs and patterns fit.\<close>

definition fits :: "ProdClass \<Rightarrow> bool" where
  "fits c \<longleftrightarrow> length (specs c) \<le> MAX_SPECS_PER_ENTRY \<and>
     (\<forall>sp \<in> set (specs c). NUL \<notin> set (sp_pattern sp) \<and> length (sp_pattern sp) < MAX_PATTERN_LEN)"

lemma load_store_class: "fits c \<Longrightarrow> load_class (store_class c old) = c"
proof -
  assume f: "fits c"
  then have "map ((\<lambda>s. \<lparr>sp_feedtype = shm_feedtype s, sp_pattern = shm_pattern s\<rparr>) \<circ> store_spec) (specs c) = specs c"
    by (intro map_idI) (auto simp: fits_def store_spec_def c_str_id MAX_PATTERN_LEN_def)
  then show ?thesis using f by (simp add: load_class_def store_class_def fits_def Let_def)
qed

text \<open>What \<open>AddProcess\<close> leaves of the entries before it adds its own.\<close>

definition kept :: "bool \<Rightarrow> int \<Rightarrow> sockaddr \<Rightarrow> int \<Rightarrow> ShmEntry list \<Rightarrow> ShmEntry list" where
  "kept antiDos proto sa notif es = filter (\<lambda>e. \<not> (antiDos \<and> redundant proto sa notif e)) (active es)"

definition new_entry :: "int \<Rightarrow> int \<Rightarrow> sockaddr \<Rightarrow> int \<Rightarrow> int \<Rightarrow> ProdClass \<Rightarrow> UldbEntry \<Rightarrow> bool" where
  "new_entry p proto sa notif prim c e \<longleftrightarrow> ue_pid e = p \<and> ue_protoVers e = proto \<and> ue_isNotifier e = notif \<and>
     ue_isPrimary e = prim \<and> ue_sockAddr e = sa \<and> (fits c \<longrightarrow> ue_prodClass e = c)"

lemma scan_spec:
  assumes inv: "uldb_inv r"
    and scan: "(if antiDos then dos_scan p proto sa notif (shm_entries r) (activeEntries r)
      else (False, shm_entries r, activeEntries r, [])) = (x, es, act, ks)"
  shows "uldb_inv (r\<lparr>shm_entries := es, activeEntries := act\<rparr>)"
    and "x \<longleftrightarrow> antiDos \<and> (\<exists>e \<in> set (active (shm_entries r)). pid e = p)"
    and "\<not> x \<Longrightarrow> active es = kept antiDos proto sa notif (shm_entries r)"
proof -
  have I: "length (shm_entries r) = maxEntries r" "maxEntries r < SIZE_NONE"
      "activeEntries r = length (active (shm_entries r)) + 0" "\<forall>e \<in> set (shm_entries r). entry_ok e"
    using inv by (auto simp: uldb_inv_def)
  have lt: "activeEntries r < 2 ^ 64"
    using I le_less_trans [OF length_filter_le [of isActive "shm_entries r"]] by (simp add: SIZE_NONE_def)
  have "uldb_inv (r\<lparr>shm_entries := es, activeEntries := act\<rparr>) \<and>
      (x \<longleftrightarrow> antiDos \<and> (\<exists>e \<in> set (active (shm_entries r)). pid e = p)) \<and>
      (\<not> x \<longrightarrow> active es = kept antiDos proto sa notif (shm_entries r))"
  proof (cases antiDos)
    case True
    then have d: "dos_scan p proto sa notif (shm_entries r) (activeEntries r) = (x, es, act, ks)" using scan by simp
    have "kept True proto sa notif (shm_entries r) = filter (\<lambda>e. \<not> redundant proto sa notif e) (active (shm_entries r))"
      by (simp add: kept_def)
    then show ?thesis using dos_scan_spec [OF d I(3) lt] I True by (simp add: uldb_inv_def)
  next
    case False
    then show ?thesis using scan inv by (auto simp: kept_def uldb_inv_def)
  qed
  then show "uldb_inv (r\<lparr>shm_entries := es, activeEntries := act\<rparr>)"
    "x \<longleftrightarrow> antiDos \<and> (\<exists>e \<in> set (active (shm_entries r)). pid e = p)"
    "\<not> x \<Longrightarrow> active es = kept antiDos proto sa notif (shm_entries r)" by blast+
qed

text \<open>Filling a free slot of a well-formed segment.\<close>

lemma fill_slot:
  assumes inv: "uldb_inv r" and i: "free_slot 0 (shm_entries r) = Some i" and e: "isActive e" "entry_ok e"
  shows "uldb_inv (r\<lparr>shm_entries := (shm_entries r)[i := e], activeEntries := sz_inc (activeEntries r)\<rparr>)"
    and "\<exists>xs ys. active (shm_entries r) = xs @ ys \<and> active ((shm_entries r)[i := e]) = xs @ e # ys"
proof -
  let ?es = "shm_entries r"
  obtain xs ys where fs: "i < length ?es" "\<not> isActive (?es ! i)" "active ?es = xs @ ys" "active (?es[i := e]) = xs @ e # ys"
    using free_slot_Some [OF i] e(1) by auto
  have "length (xs @ ys) < length ?es"
    using fs(1-3) length_filter_less [of "?es ! i" ?es isActive] by simp
  then have inc: "sz_inc (activeEntries r) = Suc (activeEntries r)"
    using inv fs(3) by (simp add: sz_add_def SIZE_NONE_def uldb_inv_def)
  have "\<forall>a \<in> set (?es[i := e]). entry_ok a" using set_update_subset_insert [of ?es i e] inv e(2) by (auto simp: uldb_inv_def)
  then show "uldb_inv (r\<lparr>shm_entries := ?es[i := e], activeEntries := sz_inc (activeEntries r)\<rparr>)"
    using inv inc fs by (simp add: uldb_inv_def)
  show "\<exists>xs ys. active ?es = xs @ ys \<and> active (?es[i := e]) = xs @ e # ys" using fs by blast
qed

lemma free_slot_bound: "free_slot 0 es = Some i \<Longrightarrow> i < length es"
  using free_slot_Some [of 0 es i] by simp

lemma AddProcess_spec:
  assumes inv: "uldb_inv r" and p: "0 < p"
    and run: "AddProcess True antiDos p proto sa desired allowed notif prim (Some r) = (st, al, ks, m)"
  shows "\<exists>r'. m = Some r' \<and> uldb_inv r' \<and> maxEntries r' = maxEntries r \<and> al = desired \<and>
    (st = U_EXIST \<longleftrightarrow> antiDos \<and> (\<exists>e \<in> set (active (shm_entries r)). pid e = p)) \<and>
    (st \<noteq> U_EXIST \<longrightarrow>
      (st = U_SUCCESS \<and> specs desired = [] \<and> active (shm_entries r') = kept antiDos proto sa notif (shm_entries r)) \<or>
      (st = U_SYSTEM \<and> specs desired \<noteq> [] \<and> active (shm_entries r') = kept antiDos proto sa notif (shm_entries r) \<and>
         length (active (shm_entries r')) = maxEntries r') \<or>
      (st = U_SUCCESS \<and> specs desired \<noteq> [] \<and> (\<exists>xs e ys. kept antiDos proto sa notif (shm_entries r) = xs @ ys \<and>
         active (shm_entries r') = xs @ e # ys \<and> new_entry p proto sa notif prim desired (load_entry e))))"
proof -
  define d where "d = (if antiDos then dos_scan p proto sa notif (shm_entries r) (activeEntries r)
    else (False, shm_entries r, activeEntries r, []))"
  obtain x es act ks1 where de: "d = (x, es, act, ks1)" by (cases d)
  note D = scan_spec [OF inv de [unfolded d_def]]
  define r1 where "r1 = r\<lparr>shm_entries := es, activeEntries := act\<rparr>"
  have r1: "uldb_inv r1" "maxEntries r1 = maxEntries r" "shm_entries r1 = es" "activeEntries r1 = act"
    using D(1) by (simp_all add: r1_def)
  define e where "e i = \<lparr>isActive = True, pid = p, protoVers = proto, isNotifier = notif, isPrimary = prim,
    sockAddr = sa, shm_class = store_class desired (shm_class (es ! i))\<rparr>" for i
  have run': "(st, al, ks, m) =
     (if x then (U_EXIST, desired, ks1, Some r1)
      else if specs desired = [] then (U_SUCCESS, desired, ks1, Some r1)
      else case free_slot 0 es of
            None \<Rightarrow> (U_SYSTEM, desired, ks1, Some r1)
          | Some i \<Rightarrow> (U_SUCCESS, desired, ks1, Some (r1\<lparr>shm_entries := es[i := e i], activeEntries := sz_inc act\<rparr>)))"
    unfolding run [symmetric] AddProcess_def option.case d_def [symmetric] de prod.case
    using p by (simp add: r1_def Let_def e_def split: option.split)
  consider "x" | "\<not> x" "specs desired = []" | "\<not> x" "specs desired \<noteq> []" "free_slot 0 es = None"
    | i where "\<not> x" "specs desired \<noteq> []" "free_slot 0 es = Some i" by fastforce
  then show ?thesis
  proof cases
    case 1
    then show ?thesis using run' r1 D(2) by auto
  next
    case 2
    then show ?thesis using run' r1 D(2,3) by auto
  next
    case 3
    have "length (active es) = maxEntries r" using 3(3) r1(1-3) free_slot_None [of 0 es] by (simp add: uldb_inv_def)
    then show ?thesis using 3 run' r1 D(2,3) by auto
  next
    case (4 i)
    have "i < length es" using free_slot_bound [OF 4(3)] .
    then have "entry_ok (es ! i)" using r1(1,3) by (simp add: uldb_inv_def)
    then have "isActive (e i)" "entry_ok (e i)" using store_class_ok by (simp_all add: e_def entry_ok_def)
    note F = fill_slot [OF r1(1) _ this, of i, unfolded r1(3,4), OF 4(3)]
    moreover have "new_entry p proto sa notif prim desired (load_entry (e i))"
      using load_store_class by (auto simp: new_entry_def load_entry_def e_def)
    ultimately show ?thesis using 4 run' r1(2) D(2) D(3) [OF 4(1)] by auto
  qed
qed

lemma remove_pid_None: "remove_pid p es = None \<longleftrightarrow> (\<forall>e \<in> set (active es). pid e \<noteq> p)"
  by (induction es) auto

lemma remove_pid_Some:
  assumes "remove_pid p es = Some es'"
  shows "\<exists>xs e ys. active es = xs @ e # ys \<and> pid e = p \<and> (\<forall>x \<in> set xs. pid x \<noteq> p) \<and> active es' = xs @ ys \<and>
    length es' = length es \<and> ((\<forall>e \<in> set es. entry_ok e) \<longrightarrow> (\<forall>e \<in> set es'. entry_ok e))"
  using assms
proof (induction es arbitrary: es')
  case (Cons a es)
  show ?case
  proof (cases "isActive a \<and> pid a = p")
    case True
    then have "active (a # es) = [] @ a # active es" "active es' = [] @ active es" "es' = a\<lparr>isActive := False\<rparr> # es"
      using Cons.prems by auto
    then show ?thesis using True by (intro exI [of _ "[]"] exI [of _ a] exI [of _ "active es"]) auto
  next
    case False
    then obtain es1 where es1: "remove_pid p es = Some es1" "es' = a # es1" using Cons.prems by auto
    from Cons.IH [OF es1(1)] obtain xs e ys where h: "active es = xs @ e # ys" "pid e = p" "\<forall>x \<in> set xs. pid x \<noteq> p"
        "active es1 = xs @ ys" "length es1 = length es" "(\<forall>e \<in> set es. entry_ok e) \<longrightarrow> (\<forall>e \<in> set es1. entry_ok e)" by blast
    let ?xs = "if isActive a then a # xs else xs"
    have "active (a # es) = ?xs @ e # ys" "active es' = ?xs @ ys" "\<forall>x \<in> set ?xs. pid x \<noteq> p"
      using h False es1(2) by auto
    then show ?thesis using h(2,5,6) es1(2) by (intro exI [of _ ?xs] exI [of _ e] exI [of _ ys]) auto
  qed
qed simp

lemma Uldb_Remove_spec:
  assumes "uldb_inv r" "0 < p"
  shows "if \<exists>e \<in> set (active (shm_entries r)). pid e = p
    then \<exists>r' xs e ys. Uldb_Remove True p (Some r) = (U_SUCCESS, Some r') \<and> uldb_inv r' \<and> maxEntries r' = maxEntries r \<and>
      active (shm_entries r) = xs @ e # ys \<and> pid e = p \<and> (\<forall>x \<in> set xs. pid x \<noteq> p) \<and> active (shm_entries r') = xs @ ys
    else Uldb_Remove True p (Some r) = (U_EXIST, Some r)"
proof (cases "remove_pid p (shm_entries r)")
  case None
  then have "Uldb_Remove True p (Some r) = (U_EXIST, Some r)" using assms(2) by (simp add: Uldb_Remove_def)
  then show ?thesis using None unfolding remove_pid_None by auto
next
  case (Some es')
  from remove_pid_Some [OF this] obtain xs e ys where h: "active (shm_entries r) = xs @ e # ys" "pid e = p"
      "\<forall>x \<in> set xs. pid x \<noteq> p" "active es' = xs @ ys" "length es' = length (shm_entries r)"
      "(\<forall>e \<in> set (shm_entries r). entry_ok e) \<longrightarrow> (\<forall>e \<in> set es'. entry_ok e)" by blast
  define r' where "r' = r\<lparr>shm_entries := es', activeEntries := sz_dec (activeEntries r)\<rparr>"
  have a: "activeEntries r = Suc (length (xs @ ys))" using assms(1) h(1) by (simp add: uldb_inv_def)
  have "length (active (shm_entries r)) < 2 ^ 64"
    using assms(1) length_filter_le [of isActive "shm_entries r"] by (simp add: uldb_inv_def SIZE_NONE_def)
  then have "sz_dec (activeEntries r) = length (xs @ ys)" unfolding a using h(1) by (simp add: sz_sub_def)
  then have "uldb_inv r'" using assms(1) h by (simp add: r'_def uldb_inv_def)
  moreover have "Uldb_Remove True p (Some r) = (U_SUCCESS, Some r')" using assms(2) Some by (simp add: Uldb_Remove_def r'_def)
  moreover have "\<exists>e \<in> set (active (shm_entries r)). pid e = p" using h(1,2) by auto
  moreover have "maxEntries r' = maxEntries r" "active (shm_entries r') = xs @ ys" using h(4) by (simp_all add: r'_def)
  ultimately show ?thesis using h(1-3) by auto
qed

lemma Uldb_Create_spec:
  assumes "Uldb_Create env capacity old = (U_SUCCESS, m)" "capacity < 2 ^ 32"
  shows "\<exists>r. m = Some r \<and> uldb_inv r \<and> active (shm_entries r) = [] \<and> 0 < maxEntries r"
proof -
  define n where "n = (if capacity div SHM_ENTRY_SIZE = 0 then 100 else capacity div SHM_ENTRY_SIZE)"
  have "capacity div SHM_ENTRY_SIZE < 2 ^ 32" using assms(2) div_le_dividend [of capacity SHM_ENTRY_SIZE] by linarith
  then have n: "0 < n" "n < SIZE_NONE" by (auto simp: n_def SIZE_NONE_def)
  have m: "m = Some \<lparr>maxEntries = n, activeEntries = 0, shm_entries = map (\<lambda>e. e\<lparr>isActive := False\<rparr>) (replicate n zero_entry)\<rparr>"
    using assms(1) by (auto simp: Uldb_Create_def Let_def n_def split: if_splits)
  have "entry_ok (zero_entry\<lparr>isActive := False\<rparr>)" by (simp add: entry_ok_def zero_entry_def)
  then show ?thesis using m n by (auto simp: uldb_inv_def)
qed

subsection \<open>Properties\<close>

definition demo_region :: ShmRegion where
  "demo_region = \<lparr>maxEntries = 2, activeEntries = 0, shm_entries = replicate 2 zero_entry\<rparr>"

lemma demo_region_inv: "uldb_inv demo_region"
  by (simp add: uldb_inv_def demo_region_def entry_ok_def zero_entry_def SIZE_NONE_def)

definition demo_addr :: sockaddr where
  "demo_addr = \<lparr>ss_family = AF_INET, sin_addr = [10, 0, 0, 1], sin_rest = []\<rparr>"

text \<open>
  C27. \<open>AddProcess\<close> on a well-formed table keeps the header and the array consistent. With protection
  against redundant connections it refuses a process that already has an entry and otherwise drops exactly the redundant
  entries; then it adds exactly one entry, with the subscription unchanged when it fits, reports a full
  table, or adds nothing for an empty subscription.
\<close>

theorem uldb_AddProcess:
  assumes "uldb_inv r" "0 < p" "AddProcess True antiDos p proto sa desired allowed notif prim (Some r) = (st, al, ks, m)"
  shows "\<exists>r'. m = Some r' \<and> uldb_inv r' \<and> maxEntries r' = maxEntries r \<and> al = desired \<and>
    (st = U_EXIST \<longleftrightarrow> antiDos \<and> (\<exists>e \<in> set (active (shm_entries r)). pid e = p)) \<and>
    (st \<noteq> U_EXIST \<longrightarrow>
      (st = U_SUCCESS \<and> specs desired = [] \<and> active (shm_entries r') = kept antiDos proto sa notif (shm_entries r)) \<or>
      (st = U_SYSTEM \<and> specs desired \<noteq> [] \<and> active (shm_entries r') = kept antiDos proto sa notif (shm_entries r) \<and>
         length (active (shm_entries r')) = maxEntries r') \<or>
      (st = U_SUCCESS \<and> specs desired \<noteq> [] \<and> (\<exists>xs e ys. kept antiDos proto sa notif (shm_entries r) = xs @ ys \<and>
         active (shm_entries r') = xs @ e # ys \<and> new_entry p proto sa notif prim desired (load_entry e))))"
  using assms by (rule AddProcess_spec)

theorem uldb_AddProcess_witness:
  "\<exists>r' e. (case AddProcess True True 42 6 demo_addr (demo_class FT2 ''SDUS'' 100) empty_class 0 0 (Some demo_region) of
      (st, al, ks, m) \<Rightarrow> st = U_SUCCESS \<and> m = Some r') \<and> uldb_inv r' \<and> active (shm_entries r') = [e] \<and>
    ue_prodClass (load_entry e) = demo_class FT2 ''SDUS'' 100"
proof -
  obtain st al ks m where run: "AddProcess True True 42 6 demo_addr (demo_class FT2 ''SDUS'' 100) empty_class 0 0 (Some demo_region) = (st, al, ks, m)"
    by (metis prod_cases4)
  have st: "st = U_SUCCESS"
    using run by (simp add: AddProcess_def demo_region_def demo_class_def zero_entry_def Let_def numeral_2_eq_2)
  have "fits (demo_class FT2 ''SDUS'' 100)"
    by (simp add: fits_def demo_class_def MAX_SPECS_PER_ENTRY_def MAX_PATTERN_LEN_def NUL_def)
  moreover have "kept True 6 demo_addr 0 (shm_entries demo_region) = []"
    by (simp add: kept_def demo_region_def zero_entry_def)
  ultimately obtain r' e where "m = Some r'" "uldb_inv r'" "active (shm_entries r') = [e]"
      "ue_prodClass (load_entry e) = demo_class FT2 ''SDUS'' 100"
    using uldb_AddProcess [OF demo_region_inv _ run] st by (auto simp: new_entry_def demo_class_def)
  then show ?thesis using run st by auto
qed

text \<open>
  C28. \<open>Remove\<close> on a well-formed table removes the first entry of the process and keeps all others, or
  reports that there is none and changes nothing; the table stays well-formed.
\<close>

theorem uldb_Remove:
  assumes "uldb_inv r" "0 < p"
  shows "if \<exists>e \<in> set (active (shm_entries r)). pid e = p
    then \<exists>r' xs e ys. Uldb_Remove True p (Some r) = (U_SUCCESS, Some r') \<and> uldb_inv r' \<and> maxEntries r' = maxEntries r \<and>
      active (shm_entries r) = xs @ e # ys \<and> pid e = p \<and> (\<forall>x \<in> set xs. pid x \<noteq> p) \<and> active (shm_entries r') = xs @ ys
    else Uldb_Remove True p (Some r) = (U_EXIST, Some r)"
  using assms by (rule Uldb_Remove_spec)

theorem uldb_Remove_witness: "Uldb_Remove True 42 (Some demo_region) = (U_EXIST, Some demo_region)"
  using uldb_Remove [OF demo_region_inv, of 42] by (simp add: demo_region_def zero_entry_def)

end
