(* ===== verification/Xdr_Codec.thy ===== *)
theory Xdr_Codec
  imports Prod_Class
begin

text \<open>
  src/network/sunrpc/SunRpcXdr.cpp and SunRpcSerializer.cpp: how product metadata, subscriptions and
  replies travel over the network and are laid out in the queue file.

  The XDR primitives belong to the RPC library. They are the fields of the argument \<open>lib\<close>, an encoder
  and a decoder for each; encoders fail on values the library refuses. \<open>xdr_lib_ok\<close> states what the
  library documents: the sizes of RFC 4506 and that decoding undoes encoding. An XDR routine of the code
  is a pair of functions here, one for \<open>XDR_ENCODE\<close> that yields bytes and one for \<open>XDR_DECODE\<close> that
  yields the value and the remaining bytes; \<open>None\<close> is the result \<open>FALSE\<close>. \<open>XDR_FREE\<close> only releases
  memory. A decoder that fails may have filled some fields already; the callers drop them.
\<close>

subsection \<open>Primitives\<close>

type_synonym byte = "8 word"

record xdr_lib =
  e_long :: "int \<Rightarrow> byte list option"
  d_long :: "byte list \<Rightarrow> (int \<times> byte list) option"
  e_uint :: "32 word \<Rightarrow> byte list"
  d_uint :: "byte list \<Rightarrow> (32 word \<times> byte list) option"
  e_opaque :: "byte list \<Rightarrow> byte list"
  d_opaque :: "nat \<Rightarrow> byte list \<Rightarrow> (byte list \<times> byte list) option"
  e_string :: "nat \<Rightarrow> string \<Rightarrow> byte list option"
  d_string :: "nat \<Rightarrow> byte list \<Rightarrow> (string \<times> byte list) option"

definition XDR_UNIT :: nat where "XDR_UNIT = 4"

definition rndup :: "nat \<Rightarrow> nat" where
  "rndup len = ((len + XDR_UNIT - 1) div XDR_UNIT) * XDR_UNIT"

definition xlen_string :: "nat \<Rightarrow> nat" where
  "xlen_string len = XDR_UNIT + rndup len"

subsection \<open>Product metadata\<close>

definition enc_prod_info :: "xdr_lib \<Rightarrow> ProdInfo \<Rightarrow> byte list option" where
  "enc_prod_info lib info = do {
     s \<leftarrow> e_long lib (tv_sec (arrival info));
     u \<leftarrow> e_long lib (tv_usec (arrival info));
     let sig = e_opaque lib (signature info);
     org \<leftarrow> e_string lib 64 (take 64 (c_str (origin info)));
     let ft = e_uint lib (pi_feedtype info);
     let sq = e_uint lib (seqno info);
     idt \<leftarrow> e_string lib 255 (take 255 (c_str (ident info)));
     Some (s @ u @ sig @ org @ ft @ sq @ idt @ e_uint lib (pi_sz info)) }"

definition dec_prod_info :: "xdr_lib \<Rightarrow> byte list \<Rightarrow> (ProdInfo \<times> byte list) option" where
  "dec_prod_info lib bs = do {
     (s, bs) \<leftarrow> d_long lib bs;
     (u, bs) \<leftarrow> d_long lib bs;
     (sig, bs) \<leftarrow> d_opaque lib 16 bs;
     (org, bs) \<leftarrow> d_string lib 64 bs;
     (ft, bs) \<leftarrow> d_uint lib bs;
     (sq, bs) \<leftarrow> d_uint lib bs;
     (idt, bs) \<leftarrow> d_string lib 255 bs;
     (z, bs) \<leftarrow> d_uint lib bs;
     Some (\<lparr>arrival = Timestamp s u, signature = sig, origin = org, pi_feedtype = ft, seqno = sq, ident = idt, pi_sz = z\<rparr>, bs) }"

definition enc_product :: "xdr_lib \<Rightarrow> ProdInfo \<Rightarrow> byte list \<Rightarrow> byte list option" where
  "enc_product lib info dat = do {
     h \<leftarrow> enc_prod_info lib info;
     Some (h @ (if pi_sz info \<noteq> 0 then e_opaque lib dat else [])) }"

text \<open>
  Decoding a product into a buffer the caller offers, of \<open>capacity\<close> bytes (\<open>None\<close>: no buffer). The
  result tells where the payload went: \<open>Provided\<close> the caller's buffer, \<open>Allocated\<close> fresh memory, which
  \<open>malloc_ok\<close> says is available.
\<close>

datatype payload = NoData | Provided "byte list" | Allocated "byte list"

definition dec_mutable_product :: "xdr_lib \<Rightarrow> nat option \<Rightarrow> nat \<Rightarrow> bool \<Rightarrow> byte list \<Rightarrow> (ProdInfo \<times> payload \<times> byte list) option" where
  "dec_mutable_product lib capacity max_allowed malloc_ok bs = do {
     (info, bs) \<leftarrow> dec_prod_info lib bs;
     let data_sz = unat (pi_sz info);
     if data_sz = 0 then Some (info, NoData, bs)
     else if (case capacity of None \<Rightarrow> False | Some c \<Rightarrow> data_sz \<le> c) then do {
       (d, bs) \<leftarrow> d_opaque lib data_sz bs;
       Some (info, Provided d, bs) }
     else if data_sz > max_allowed then None
     else if \<not> malloc_ok then None
     else do {
       (d, bs) \<leftarrow> d_opaque lib data_sz bs;
       Some (info, Allocated d, bs) } }"

subsection \<open>Subscriptions and replies\<close>

definition enc_prod_spec :: "xdr_lib \<Rightarrow> ProdSpec \<Rightarrow> byte list option" where
  "enc_prod_spec lib sp = do {
     p \<leftarrow> e_string lib 255 (c_str (sp_pattern sp));
     Some (e_uint lib (sp_feedtype sp) @ p) }"

definition dec_prod_spec :: "xdr_lib \<Rightarrow> byte list \<Rightarrow> (ProdSpec \<times> byte list) option" where
  "dec_prod_spec lib bs = do {
     (ft, bs) \<leftarrow> d_uint lib bs;
     (p, bs) \<leftarrow> d_string lib 255 bs;
     Some (\<lparr>sp_feedtype = ft, sp_pattern = p\<rparr>, bs) }"

primrec enc_specs :: "xdr_lib \<Rightarrow> ProdSpec list \<Rightarrow> byte list option" where
  "enc_specs lib [] = Some []"
| "enc_specs lib (sp # sps) = do { a \<leftarrow> enc_prod_spec lib sp; b \<leftarrow> enc_specs lib sps; Some (a @ b) }"

primrec dec_specs :: "xdr_lib \<Rightarrow> nat \<Rightarrow> byte list \<Rightarrow> (ProdSpec list \<times> byte list) option" where
  "dec_specs lib 0 bs = Some ([], bs)"
| "dec_specs lib (Suc n) bs = do {
     (sp, bs) \<leftarrow> dec_prod_spec lib bs;
     (sps, bs) \<leftarrow> dec_specs lib n bs;
     Some (sp # sps, bs) }"

definition enc_prod_class :: "xdr_lib \<Rightarrow> ProdClass \<Rightarrow> byte list option" where
  "enc_prod_class lib c = do {
     a \<leftarrow> e_long lib (from_sec c);
     b \<leftarrow> e_long lib (from_usec c);
     d \<leftarrow> e_long lib (to_sec c);
     e \<leftarrow> e_long lib (to_usec c);
     sps \<leftarrow> enc_specs lib (specs c);
     Some (a @ b @ d @ e @ e_uint lib (word_of_nat (length (specs c))) @ sps) }"

definition dec_prod_class :: "xdr_lib \<Rightarrow> byte list \<Rightarrow> (ProdClass \<times> byte list) option" where
  "dec_prod_class lib bs = do {
     (a, bs) \<leftarrow> d_long lib bs;
     (b, bs) \<leftarrow> d_long lib bs;
     (d, bs) \<leftarrow> d_long lib bs;
     (e, bs) \<leftarrow> d_long lib bs;
     (n, bs) \<leftarrow> d_uint lib bs;
     (sps, bs) \<leftarrow> dec_specs lib (unat n) bs;
     Some (\<lparr>from_sec = a, from_usec = b, to_sec = d, to_usec = e, specs = sps\<rparr>, bs) }"

definition enc_feedpar :: "xdr_lib \<Rightarrow> ProdClass \<times> 32 word \<Rightarrow> byte list option" where
  "enc_feedpar lib fp = do { c \<leftarrow> enc_prod_class lib (fst fp); Some (c @ e_uint lib (snd fp)) }"

definition dec_feedpar :: "xdr_lib \<Rightarrow> byte list \<Rightarrow> ((ProdClass \<times> 32 word) \<times> byte list) option" where
  "dec_feedpar lib bs = do { (c, bs) \<leftarrow> dec_prod_class lib bs; (m, bs) \<leftarrow> d_uint lib bs; Some ((c, m), bs) }"

text \<open>A fixed underlying type lets a received number without an enumerator be a value too, \<open>Unnamed\<close>.\<close>

datatype ReplyStatus = OK | SHUTTING_DOWN | BAD_PATTERN | DONT_SEND | RESEND | RESTART | REDIRECT | RECLASS | SYSTEM_ERROR
  | Unnamed "32 word"

definition status_code :: "ReplyStatus \<Rightarrow> 32 word" where
  "status_code s = (case s of OK \<Rightarrow> 0 | SHUTTING_DOWN \<Rightarrow> 1 | BAD_PATTERN \<Rightarrow> 2 | DONT_SEND \<Rightarrow> 3 | RESEND \<Rightarrow> 4 | RESTART \<Rightarrow> 5
     | REDIRECT \<Rightarrow> 6 | RECLASS \<Rightarrow> 7 | SYSTEM_ERROR \<Rightarrow> 8 | Unnamed w \<Rightarrow> w)"

definition status_of :: "32 word \<Rightarrow> ReplyStatus" where
  "status_of w = (case find (\<lambda>s. status_code s = w)
     [OK, SHUTTING_DOWN, BAD_PATTERN, DONT_SEND, RESEND, RESTART, REDIRECT, RECLASS, SYSTEM_ERROR] of
     Some s \<Rightarrow> s | None \<Rightarrow> Unnamed w)"

record FeedResponse =
  fr_statusCode :: ReplyStatus
  feedProcessId :: "32 word"
  allowedClass :: ProdClass

record HiyaResponse =
  hr_statusCode :: ReplyStatus
  maxHereis :: "32 word"
  acceptedClass :: ProdClass

definition enc_fornme_reply :: "xdr_lib \<Rightarrow> FeedResponse \<Rightarrow> byte list option" where
  "enc_fornme_reply lib r = (let h = e_uint lib (status_code (fr_statusCode r)) in
     if fr_statusCode r = OK then Some (h @ e_uint lib (feedProcessId r))
     else if fr_statusCode r = RECLASS then do { c \<leftarrow> enc_prod_class lib (allowedClass r); Some (h @ e_uint lib 1 @ c) }
     else Some h)"

text \<open>The reply to decode into starts with the values \<open>r0\<close>; only the fields of the status are read.\<close>

definition dec_fornme_reply :: "xdr_lib \<Rightarrow> FeedResponse \<Rightarrow> byte list \<Rightarrow> (FeedResponse \<times> byte list) option" where
  "dec_fornme_reply lib r0 bs = do {
     (code, bs) \<leftarrow> d_uint lib bs;
     let r = r0\<lparr>fr_statusCode := status_of code\<rparr>;
     if code = 0 then do { (p, bs) \<leftarrow> d_uint lib bs; Some (r\<lparr>feedProcessId := p\<rparr>, bs) }
     else if code = 7 then do {
       (present, bs) \<leftarrow> d_uint lib bs;
       if present \<noteq> 0 then do { (c, bs) \<leftarrow> dec_prod_class lib bs; Some (r\<lparr>allowedClass := c\<rparr>, bs) } else Some (r, bs) }
     else Some (r, bs) }"

definition enc_hiya_reply :: "xdr_lib \<Rightarrow> HiyaResponse \<Rightarrow> byte list option" where
  "enc_hiya_reply lib r = (let h = e_uint lib (status_code (hr_statusCode r)) in
     if hr_statusCode r = OK then Some (h @ e_uint lib (maxHereis r))
     else if hr_statusCode r = RECLASS then do { c \<leftarrow> enc_feedpar lib (acceptedClass r, maxHereis r); Some (h @ c) }
     else Some h)"

definition dec_hiya_reply :: "xdr_lib \<Rightarrow> HiyaResponse \<Rightarrow> byte list \<Rightarrow> (HiyaResponse \<times> byte list) option" where
  "dec_hiya_reply lib r0 bs = do {
     (code, bs) \<leftarrow> d_uint lib bs;
     let r = r0\<lparr>hr_statusCode := status_of code\<rparr>;
     if code = 0 then do { (m, bs) \<leftarrow> d_uint lib bs; Some (r\<lparr>maxHereis := m\<rparr>, bs) }
     else if code = 7 then do { (fp, bs) \<leftarrow> dec_feedpar lib bs; Some (r\<lparr>acceptedClass := fst fp, maxHereis := snd fp\<rparr>, bs) }
     else Some (r, bs) }"

definition enc_comingsoon_args :: "xdr_lib \<Rightarrow> ProdInfo \<times> 32 word \<Rightarrow> byte list option" where
  "enc_comingsoon_args lib a = do { i \<leftarrow> enc_prod_info lib (fst a); Some (i @ e_uint lib (snd a)) }"

definition dec_comingsoon_args :: "xdr_lib \<Rightarrow> byte list \<Rightarrow> ((ProdInfo \<times> 32 word) \<times> byte list) option" where
  "dec_comingsoon_args lib bs = do { (i, bs) \<leftarrow> dec_prod_info lib bs; (p, bs) \<leftarrow> d_uint lib bs; Some ((i, p), bs) }"

record DataPktNet =
  signaturep :: "byte list"
  pktnum :: "32 word"
  dbuf :: "byte list"

text \<open>\<open>xdr_bytes\<close> is the length followed by the padded bytes.\<close>

definition enc_datapkt :: "xdr_lib \<Rightarrow> DataPktNet \<Rightarrow> byte list" where
  "enc_datapkt lib k = e_opaque lib (signaturep k) @ e_uint lib (pktnum k) @ e_uint lib (word_of_nat (length (dbuf k))) @ e_opaque lib (dbuf k)"

definition dec_datapkt :: "xdr_lib \<Rightarrow> byte list \<Rightarrow> (DataPktNet \<times> byte list) option" where
  "dec_datapkt lib bs = do {
     (s, bs) \<leftarrow> d_opaque lib 16 bs;
     (n, bs) \<leftarrow> d_uint lib bs;
     (l, bs) \<leftarrow> d_uint lib bs;
     (d, bs) \<leftarrow> d_opaque lib (unat l) bs;
     Some (\<lparr>signaturep = s, pktnum = n, dbuf = d\<rparr>, bs) }"

subsection \<open>The serializer of the queue file\<close>

definition GetEncodedInfoSize :: "ProdInfo \<Rightarrow> nat" where
  "GetEncodedInfoSize info =
     8 + 16 + xlen_string (length (origin info)) + XDR_UNIT + XDR_UNIT + xlen_string (length (ident info)) + XDR_UNIT"

definition GetEncodedSize :: "ProdInfo \<Rightarrow> nat" where
  "GetEncodedSize info = GetEncodedInfoSize info + unat (pi_sz info)"

text \<open>
  A memory stream refuses to go past its end. \<open>EncodeProdInfo\<close> returns the new buffer and the position
  after the metadata; \<open>None\<close> is the null pointer.
\<close>

definition EncodeProdInfo :: "xdr_lib \<Rightarrow> byte list \<Rightarrow> ProdInfo \<Rightarrow> (byte list \<times> nat) option" where
  "EncodeProdInfo lib buffer info = do {
     h \<leftarrow> enc_prod_info lib info;
     if length h \<le> length buffer then Some (h @ drop (length h) buffer, length h) else None }"

text \<open>\<open>EncodeProduct\<close> copies the payload behind the metadata without looking at the room left there.\<close>

definition EncodeProduct :: "xdr_lib \<Rightarrow> byte list \<Rightarrow> ProdInfo \<Rightarrow> byte list \<Rightarrow> (bool \<times> byte list) option" where
  "EncodeProduct lib buffer info dat = (case EncodeProdInfo lib buffer info of
     None \<Rightarrow> Some (False, buffer)
   | Some (b, pos) \<Rightarrow> do {
       log_assert (pos + unat (pi_sz info) \<le> length b);
       Some (True, take pos b @ take (unat (pi_sz info)) dat @ drop (pos + unat (pi_sz info)) b) })"

definition DecodeProdInfo :: "xdr_lib \<Rightarrow> byte list \<Rightarrow> (ProdInfo \<times> nat) option" where
  "DecodeProdInfo lib buffer = do {
     (info, rest) \<leftarrow> dec_prod_info lib buffer;
     Some (info, length buffer - length rest) }"

definition UpdateSignature :: "byte list \<Rightarrow> byte list \<Rightarrow> bool \<times> byte list" where
  "UpdateSignature buffer new_sig =
     (if length buffer < 8 + length new_sig then (False, buffer)
      else (True, take 8 buffer @ new_sig @ drop (8 + length new_sig) buffer))"


subsection \<open>What the RPC library documents\<close>

definition fits_long :: "int \<Rightarrow> bool" where
  "fits_long v \<longleftrightarrow> - (2 ^ 31) \<le> v \<and> v < 2 ^ 31"

definition xdr_lib_ok :: "xdr_lib \<Rightarrow> bool" where
  "xdr_lib_ok lib \<longleftrightarrow>
     (\<forall>v. fits_long v \<longrightarrow> (\<exists>bs. e_long lib v = Some bs \<and> length bs = 4 \<and> (\<forall>r. d_long lib (bs @ r) = Some (v, r)))) \<and>
     (\<forall>w r. length (e_uint lib w) = 4 \<and> d_uint lib (e_uint lib w @ r) = Some (w, r)) \<and>
     (\<forall>b r. length (e_opaque lib b) = rndup (length b) \<and> take (length b) (e_opaque lib b) = b \<and>
        d_opaque lib (length b) (e_opaque lib b @ r) = Some (b, r)) \<and>
     (\<forall>n bs d r. d_opaque lib n bs = Some (d, r) \<longrightarrow> length d = n) \<and>
     (\<forall>m s. NUL \<notin> set s \<longrightarrow> length s \<le> m \<longrightarrow> m < 2 ^ 32 \<longrightarrow>
        (\<exists>bs. e_string lib m s = Some bs \<and> length bs = xlen_string (length s) \<and> (\<forall>r. d_string lib m (bs @ r) = Some (s, r))))"

text \<open>Law by law.\<close>

lemma xdr_laws:
  assumes "xdr_lib_ok lib"
  shows "fits_long v \<Longrightarrow> \<exists>bs. e_long lib v = Some bs \<and> length bs = 4 \<and> (\<forall>r. d_long lib (bs @ r) = Some (v, r))"
    "length (e_uint lib w) = 4 \<and> d_uint lib (e_uint lib w @ r) = Some (w, r)"
    "length (e_opaque lib b) = rndup (length b) \<and> take (length b) (e_opaque lib b) = b \<and>
        d_opaque lib (length b) (e_opaque lib b @ r) = Some (b, r)"
    "d_opaque lib n bs = Some (d, r) \<Longrightarrow> length d = n"
    "NUL \<notin> set s \<Longrightarrow> length s \<le> m \<Longrightarrow> m < 2 ^ 32 \<Longrightarrow>
        \<exists>bs. e_string lib m s = Some bs \<and> length bs = xlen_string (length s) \<and> (\<forall>r. d_string lib m (bs @ r) = Some (s, r))"
  using assms unfolding xdr_lib_ok_def by simp_all (elim conjE, fast)

lemma xdr_long:
  assumes "xdr_lib_ok lib" "fits_long v"
  obtains bs where "e_long lib v = Some bs" "length bs = 4" "\<And>r. d_long lib (bs @ r) = Some (v, r)"
  using xdr_laws(1) [OF assms] that by blast

lemma xdr_uint:
  assumes "xdr_lib_ok lib"
  shows "length (e_uint lib w) = 4" "d_uint lib (e_uint lib w @ r) = Some (w, r)"
  using xdr_laws(2) [OF assms, of w r] by simp_all

lemma xdr_opaque:
  assumes "xdr_lib_ok lib"
  shows "length (e_opaque lib b) = rndup (length b)" "take (length b) (e_opaque lib b) = b"
    "d_opaque lib (length b) (e_opaque lib b @ r) = Some (b, r)"
  using xdr_laws(3) [OF assms, of b r] by simp_all

lemma xdr_opaque_length:
  assumes "xdr_lib_ok lib" "d_opaque lib n bs = Some (d, r)"
  shows "length d = n"
  by (rule xdr_laws(4) [OF assms])

lemma xdr_string:
  assumes "xdr_lib_ok lib" "NUL \<notin> set s" "length s \<le> m" "m < 2 ^ 32"
  obtains bs where "e_string lib m s = Some bs" "length bs = xlen_string (length s)"
    "\<And>r. d_string lib m (bs @ r) = Some (s, r)"
  using xdr_laws(5) [OF assms] that by blast

lemma xdr_opaque16:
  assumes "xdr_lib_ok lib" "length b = 16"
  shows "e_opaque lib b = b" "d_opaque lib 16 (b @ r) = Some (b, r)"
proof -
  have "length (e_opaque lib b) = 16"
    using xdr_opaque(1) [OF assms(1), of b] assms(2) by (simp add: rndup_def XDR_UNIT_def)
  then show "e_opaque lib b = b" using xdr_opaque(2) [OF assms(1), of b] assms(2) by simp
  then show "d_opaque lib 16 (b @ r) = Some (b, r)"
    using xdr_opaque(3) [OF assms(1), of b r] assms(2) by simp
qed

subsection \<open>Round trips\<close>

text \<open>A value that the wire format can carry.\<close>

definition wire_info :: "ProdInfo \<Rightarrow> bool" where
  "wire_info info \<longleftrightarrow> fits_long (tv_sec (arrival info)) \<and> fits_long (tv_usec (arrival info)) \<and> length (signature info) = 16 \<and>
     NUL \<notin> set (origin info) \<and> NUL \<notin> set (ident info)"

definition wire_spec :: "ProdSpec \<Rightarrow> bool" where
  "wire_spec sp \<longleftrightarrow> NUL \<notin> set (sp_pattern sp) \<and> length (sp_pattern sp) \<le> 255"

definition wire_class :: "ProdClass \<Rightarrow> bool" where
  "wire_class c \<longleftrightarrow> fits_long (from_sec c) \<and> fits_long (from_usec c) \<and> fits_long (to_sec c) \<and> fits_long (to_usec c) \<and>
     list_all wire_spec (specs c) \<and> length (specs c) < 2 ^ 32"

text \<open>What the fixed buffers of \<open>xdr_net_prod_info\<close> keep of the two strings.\<close>

definition clipped :: "ProdInfo \<Rightarrow> ProdInfo" where
  "clipped info = info\<lparr>origin := take 64 (origin info), ident := take 255 (ident info)\<rparr>"

lemma enc_prod_info_spec:
  assumes lib: "xdr_lib_ok lib" and w: "wire_info info"
  obtains t body where
    "enc_prod_info lib info = Some (t @ signature info @ body)" "length t = 8"
    "length t + 16 + length body = GetEncodedInfoSize (clipped info)"
    "\<And>r. dec_prod_info lib (t @ signature info @ body @ r) = Some (clipped info, r)"
    "\<And>sg r. length sg = 16 \<Longrightarrow> dec_prod_info lib (t @ sg @ body @ r) = Some ((clipped info)\<lparr>signature := sg\<rparr>, r)"
proof -
  have nul: "NUL \<notin> set (origin info)" "NUL \<notin> set (ident info)" and sg: "length (signature info) = 16"
    and fit: "fits_long (tv_sec (arrival info))" "fits_long (tv_usec (arrival info))"
    using w unfolding wire_info_def by simp_all
  obtain s where s: "e_long lib (tv_sec (arrival info)) = Some s" "length s = 4"
    "\<And>r. d_long lib (s @ r) = Some (tv_sec (arrival info), r)"
    by (rule xdr_long [OF lib fit(1)]) (rule that)
  obtain u where u: "e_long lib (tv_usec (arrival info)) = Some u" "length u = 4"
    "\<And>r. d_long lib (u @ r) = Some (tv_usec (arrival info), r)"
    by (rule xdr_long [OF lib fit(2)]) (rule that)
  have o0: "NUL \<notin> set (take 64 (origin info))" "length (take 64 (origin info)) \<le> 64"
    using nul(1) by (auto dest: in_set_takeD)
  obtain og where og: "e_string lib 64 (take 64 (origin info)) = Some og" "length og = xlen_string (length (take 64 (origin info)))"
    "\<And>r. d_string lib 64 (og @ r) = Some (take 64 (origin info), r)"
    by (rule xdr_string [OF lib o0]) (simp, rule that)
  have i0: "NUL \<notin> set (take 255 (ident info))" "length (take 255 (ident info)) \<le> 255"
    using nul(2) by (auto dest: in_set_takeD)
  obtain i where i: "e_string lib 255 (take 255 (ident info)) = Some i" "length i = xlen_string (length (take 255 (ident info)))"
    "\<And>r. d_string lib 255 (i @ r) = Some (take 255 (ident info), r)"
    by (rule xdr_string [OF lib i0]) (simp, rule that)
  define body where "body = og @ e_uint lib (pi_feedtype info) @ e_uint lib (seqno info) @ i @ e_uint lib (pi_sz info)"
  have enc: "enc_prod_info lib info = Some ((s @ u) @ signature info @ body)"
    unfolding enc_prod_info_def body_def
    by (simp add: s(1) u(1) og(1) i(1) c_str_id nul xdr_opaque16 [OF lib sg])
  have dec: "dec_prod_info lib ((s @ u) @ sg @ body @ r) = Some ((clipped info)\<lparr>signature := sg\<rparr>, r)"
    if "length sg = 16" for sg r
    unfolding dec_prod_info_def body_def clipped_def
    by (cases "arrival info") (simp add: s(3) u(3) og(3) i(3) xdr_opaque16 [OF lib that] xdr_uint [OF lib])
  have len: "length (s @ u) + 16 + length body = GetEncodedInfoSize (clipped info)"
    unfolding body_def GetEncodedInfoSize_def clipped_def
    by (simp add: s(2) u(2) og(2) i(2) xdr_uint [OF lib] XDR_UNIT_def)
  have "dec_prod_info lib ((s @ u) @ signature info @ body @ r) = Some (clipped info, r)" for r
    using dec [OF sg, of r] by (simp add: clipped_def)
  then show ?thesis using that [of "s @ u" body, OF enc _ len] dec s(2) u(2) by simp
qed


lemma enc_prod_info_bytes:
  assumes lib: "xdr_lib_ok lib" and w: "wire_info info"
  obtains b where "enc_prod_info lib info = Some b" "\<And>r. dec_prod_info lib (b @ r) = Some (clipped info, r)"
proof -
  obtain t body where e: "enc_prod_info lib info = Some (t @ signature info @ body)"
    "\<And>r. dec_prod_info lib (t @ signature info @ body @ r) = Some (clipped info, r)"
    by (rule enc_prod_info_spec [OF lib w]) (rule that)
  show ?thesis by (rule that [OF e(1)]) (simp add: e(2))
qed

lemma enc_product_spec:
  assumes lib: "xdr_lib_ok lib" and w: "wire_info info" and d: "length dat = unat (pi_sz info)" and z: "pi_sz info \<noteq> 0"
  obtains b where "enc_product lib info dat = Some b"
    "\<And>cap mx r. dec_mutable_product lib cap mx True (b @ r) =
       (if (case cap of None \<Rightarrow> False | Some c \<Rightarrow> length dat \<le> c) then Some (clipped info, Provided dat, r)
        else if length dat > mx then None else Some (clipped info, Allocated dat, r))"
proof -
  obtain h where h: "enc_prod_info lib info = Some h" "\<And>r. dec_prod_info lib (h @ r) = Some (clipped info, r)"
    by (rule enc_prod_info_bytes [OF lib w]) (rule that)
  have sz: "unat (pi_sz (clipped info)) = length dat" "length dat \<noteq> 0" using d z by (simp_all add: clipped_def unat_eq_0)
  show ?thesis
  proof (rule that)
    show "enc_product lib info dat = Some (h @ e_opaque lib dat)" unfolding enc_product_def by (simp add: h(1) z)
  qed (use sz in \<open>simp add: dec_mutable_product_def h(2) Let_def xdr_opaque(3) [OF lib] split: option.split\<close>)
qed

lemma enc_prod_spec_spec:
  assumes lib: "xdr_lib_ok lib" and w: "wire_spec sp"
  obtains bs where "enc_prod_spec lib sp = Some bs" "\<And>r. dec_prod_spec lib (bs @ r) = Some (sp, r)"
proof -
  have nul: "NUL \<notin> set (sp_pattern sp)" and len: "length (sp_pattern sp) \<le> 255"
    using w unfolding wire_spec_def by simp_all
  obtain p where p: "e_string lib 255 (sp_pattern sp) = Some p" "\<And>r. d_string lib 255 (p @ r) = Some (sp_pattern sp, r)"
    by (rule xdr_string [OF lib nul len]) (simp, rule that)
  show ?thesis
  proof (rule that)
    show "enc_prod_spec lib sp = Some (e_uint lib (sp_feedtype sp) @ p)"
      unfolding enc_prod_spec_def by (simp add: c_str_id [OF nul] p(1))
    show "dec_prod_spec lib ((e_uint lib (sp_feedtype sp) @ p) @ r) = Some (sp, r)" for r
      unfolding dec_prod_spec_def by (simp add: xdr_uint [OF lib] p(2))
  qed
qed

lemma enc_specs_spec:
  assumes lib: "xdr_lib_ok lib" and w: "list_all wire_spec sps"
  shows "\<exists>bs. enc_specs lib sps = Some bs \<and> (\<forall>r. dec_specs lib (length sps) (bs @ r) = Some (sps, r))"
  using w
proof (induction sps)
  case Nil
  then show ?case by simp
next
  case (Cons sp sps)
  obtain a where a: "enc_prod_spec lib sp = Some a" "\<And>r. dec_prod_spec lib (a @ r) = Some (sp, r)"
    using enc_prod_spec_spec [OF lib, of sp] Cons.prems by auto
  obtain b where b: "enc_specs lib sps = Some b" "\<And>r. dec_specs lib (length sps) (b @ r) = Some (sps, r)"
    using Cons by auto
  show ?case by (simp add: a b)
qed

lemma enc_prod_class_spec:
  assumes lib: "xdr_lib_ok lib" and w: "wire_class c"
  obtains bs where "enc_prod_class lib c = Some bs" "\<And>r. dec_prod_class lib (bs @ r) = Some (c, r)"
proof -
  have fit: "fits_long (from_sec c)" "fits_long (from_usec c)" "fits_long (to_sec c)" "fits_long (to_usec c)"
    and sps: "list_all wire_spec (specs c)" and n: "length (specs c) < 2 ^ 32"
    using w unfolding wire_class_def by simp_all
  obtain f where f: "e_long lib (from_sec c) = Some f" "\<And>r. d_long lib (f @ r) = Some (from_sec c, r)"
    by (rule xdr_long [OF lib fit(1)]) (rule that)
  obtain fu where fu: "e_long lib (from_usec c) = Some fu" "\<And>r. d_long lib (fu @ r) = Some (from_usec c, r)"
    by (rule xdr_long [OF lib fit(2)]) (rule that)
  obtain t where t: "e_long lib (to_sec c) = Some t" "\<And>r. d_long lib (t @ r) = Some (to_sec c, r)"
    by (rule xdr_long [OF lib fit(3)]) (rule that)
  obtain tu where tu: "e_long lib (to_usec c) = Some tu" "\<And>r. d_long lib (tu @ r) = Some (to_usec c, r)"
    by (rule xdr_long [OF lib fit(4)]) (rule that)
  obtain b where b: "enc_specs lib (specs c) = Some b" "\<And>r. dec_specs lib (length (specs c)) (b @ r) = Some (specs c, r)"
    using enc_specs_spec [OF lib sps] by blast
  have un: "unat (word_of_nat (length (specs c)) :: 32 word) = length (specs c)"
    using n by (simp add: unat_of_nat)
  define bs where "bs = f @ fu @ t @ tu @ e_uint lib (word_of_nat (length (specs c))) @ b"
  show ?thesis
  proof (rule that)
    show "enc_prod_class lib c = Some bs"
      unfolding enc_prod_class_def bs_def by (simp add: f t fu tu b)
    show "dec_prod_class lib (bs @ r) = Some (c, r)" for r
      unfolding dec_prod_class_def bs_def by (simp add: f t fu tu xdr_uint [OF lib] un b)
  qed
qed

lemma enc_feedpar_spec:
  assumes lib: "xdr_lib_ok lib" and w: "wire_class (fst fp)"
  obtains bs where "enc_feedpar lib fp = Some bs" "\<And>r. dec_feedpar lib (bs @ r) = Some (fp, r)"
proof -
  obtain b where b: "enc_prod_class lib (fst fp) = Some b" "\<And>r. dec_prod_class lib (b @ r) = Some (fst fp, r)"
    by (rule enc_prod_class_spec [OF lib w]) (rule that)
  show ?thesis
    by (rule that [of "b @ e_uint lib (snd fp)"]) (simp_all add: enc_feedpar_def dec_feedpar_def b xdr_uint [OF lib])
qed

text \<open>Every status but an unnamed one that hides an enumerator survives the two casts.\<close>

definition proper_status :: "ReplyStatus \<Rightarrow> bool" where
  "proper_status s \<longleftrightarrow> status_of (status_code s) = s"

lemma proper_enumerators:
  "proper_status OK" "proper_status SHUTTING_DOWN" "proper_status BAD_PATTERN" "proper_status DONT_SEND" "proper_status RESEND"
  "proper_status RESTART" "proper_status REDIRECT" "proper_status RECLASS" "proper_status SYSTEM_ERROR"
  unfolding proper_status_def by (simp_all add: status_of_def status_code_def)

lemma status_codes: "status_code OK = 0" "status_code RECLASS = 7" "status_of 0 = OK" "status_of 7 = RECLASS"
  by (simp_all add: status_of_def status_code_def)

lemma proper_status_code:
  assumes "proper_status s"
  shows "status_code s = 0 \<longleftrightarrow> s = OK" "status_code s = 7 \<longleftrightarrow> s = RECLASS"
  using assms status_codes(3,4) unfolding proper_status_def by (auto simp: status_code_def)

text \<open>A reply reaches the other side: the fields that its status does not carry keep the receiver's values.\<close>

definition received_fornme :: "FeedResponse \<Rightarrow> FeedResponse \<Rightarrow> FeedResponse" where
  "received_fornme r0 r = r0\<lparr>fr_statusCode := fr_statusCode r,
     feedProcessId := (if fr_statusCode r = OK then feedProcessId r else feedProcessId r0),
     allowedClass := (if fr_statusCode r = RECLASS then allowedClass r else allowedClass r0)\<rparr>"

definition received_hiya :: "HiyaResponse \<Rightarrow> HiyaResponse \<Rightarrow> HiyaResponse" where
  "received_hiya r0 r = r0\<lparr>hr_statusCode := hr_statusCode r,
     maxHereis := (if hr_statusCode r \<in> {OK, RECLASS} then maxHereis r else maxHereis r0),
     acceptedClass := (if hr_statusCode r = RECLASS then acceptedClass r else acceptedClass r0)\<rparr>"

lemma enc_fornme_reply_spec:
  assumes lib: "xdr_lib_ok lib" and st: "proper_status (fr_statusCode r)" and w: "wire_class (allowedClass r)"
  shows "\<exists>bs. enc_fornme_reply lib r = Some bs \<and> (\<forall>x. dec_fornme_reply lib r0 (bs @ x) = Some (received_fornme r0 r, x))"
proof -
  obtain b where b: "enc_prod_class lib (allowedClass r) = Some b" "\<And>x. dec_prod_class lib (b @ x) = Some (allowedClass r, x)"
    by (rule enc_prod_class_spec [OF lib w]) (rule that)
  note codes = proper_status_code [OF st] st [unfolded proper_status_def]
  show ?thesis
    by (cases "fr_statusCode r = OK"; cases "fr_statusCode r = RECLASS")
      (simp_all add: enc_fornme_reply_def dec_fornme_reply_def received_fornme_def xdr_uint [OF lib] b codes
        status_codes proper_enumerators [unfolded proper_status_def])
qed

lemma enc_hiya_reply_spec:
  assumes lib: "xdr_lib_ok lib" and st: "proper_status (hr_statusCode r)" and w: "wire_class (acceptedClass r)"
  shows "\<exists>bs. enc_hiya_reply lib r = Some bs \<and> (\<forall>x. dec_hiya_reply lib r0 (bs @ x) = Some (received_hiya r0 r, x))"
proof -
  obtain b where b: "enc_feedpar lib (acceptedClass r, maxHereis r) = Some b"
    "\<And>x. dec_feedpar lib (b @ x) = Some ((acceptedClass r, maxHereis r), x)"
    by (rule enc_feedpar_spec [OF lib, of "(acceptedClass r, maxHereis r)"]) (auto simp: w intro: that)
  note codes = proper_status_code [OF st] st [unfolded proper_status_def]
  show ?thesis
    by (cases "hr_statusCode r = OK"; cases "hr_statusCode r = RECLASS")
      (simp_all add: enc_hiya_reply_def dec_hiya_reply_def received_hiya_def xdr_uint [OF lib] b codes
        status_codes proper_enumerators [unfolded proper_status_def])
qed

lemma enc_datapkt_spec:
  assumes lib: "xdr_lib_ok lib" and "length (signaturep k) = 16" "length (dbuf k) < 2 ^ 32"
  shows "dec_datapkt lib (enc_datapkt lib k @ r) = Some (k, r)"
proof -
  have un: "unat (word_of_nat (length (dbuf k)) :: 32 word) = length (dbuf k)"
    using assms(3) by (simp add: unat_of_nat)
  show ?thesis
    unfolding dec_datapkt_def enc_datapkt_def
    by (simp add: xdr_opaque16 [OF lib assms(2)] xdr_uint [OF lib] un xdr_opaque(3) [OF lib])
qed


subsection \<open>A codec after RFC 4506\<close>

text \<open>
  Big-endian words, opaque data padded with zeros to a multiple of four, strings preceded by their length:
  a library for which the hypotheses hold.
\<close>

definition be_uint :: "32 word \<Rightarrow> byte list" where
  "be_uint w = [word_of_nat (unat w div 2 ^ 24), word_of_nat (unat w div 2 ^ 16), word_of_nat (unat w div 2 ^ 8), word_of_nat (unat w)]"

fun be_d_uint :: "byte list \<Rightarrow> (32 word \<times> byte list) option" where
  "be_d_uint (a # b # c # d # r) = Some (word_of_nat (((unat a * 256 + unat b) * 256 + unat c) * 256 + unat d), r)"
| "be_d_uint _ = None"

definition be_opaque :: "byte list \<Rightarrow> byte list" where
  "be_opaque b = b @ replicate (rndup (length b) - length b) 0"

definition be_d_opaque :: "nat \<Rightarrow> byte list \<Rightarrow> (byte list \<times> byte list) option" where
  "be_d_opaque n bs = (if rndup n \<le> length bs then Some (take n bs, drop (rndup n) bs) else None)"

definition be_string :: "nat \<Rightarrow> string \<Rightarrow> byte list option" where
  "be_string m s = (if length s \<le> m then Some (be_opaque (be_uint (word_of_nat (length s)) @ map (\<lambda>c. word_of_nat (code c)) s)) else None)"

definition be_d_string :: "nat \<Rightarrow> byte list \<Rightarrow> (string \<times> byte list) option" where
  "be_d_string m bs = do {
     (n, bs) \<leftarrow> be_d_uint bs;
     if unat n \<le> m then do { (d, bs) \<leftarrow> be_d_opaque (unat n) bs; Some (map (\<lambda>w. char_of (unat w)) d, bs) } else None }"

definition be_lib :: xdr_lib where
  "be_lib = \<lparr>e_long = (\<lambda>v. if fits_long v then Some (be_uint (word_of_int v)) else None),
     d_long = (\<lambda>bs. map_option (\<lambda>(w, r). (sint w, r)) (be_d_uint bs)),
     e_uint = be_uint, d_uint = be_d_uint, e_opaque = be_opaque, d_opaque = be_d_opaque,
     e_string = be_string, d_string = be_d_string\<rparr>"


lemma base256:
  fixes n :: nat
  shows "((n div 2 ^ 24 mod 256 * 256 + n div 2 ^ 16 mod 256) * 256 + n div 2 ^ 8 mod 256) * 256 + n mod 256 = n mod 2 ^ 32"
proof -
  have "n mod 2 ^ 16 = n div 2 ^ 8 mod 256 * 256 + n mod 256"
    using mod_mult2_eq [of n "2 ^ 8" "2 ^ 8"] by simp
  moreover have "n div 2 ^ 16 mod 2 ^ 16 = n div 2 ^ 24 mod 256 * 256 + n div 2 ^ 16 mod 256"
    using mod_mult2_eq [of "n div 2 ^ 16" "2 ^ 8" "2 ^ 8"] by (simp add: div_mult2_eq [symmetric])
  moreover have "n mod 2 ^ 32 = n div 2 ^ 16 mod 2 ^ 16 * 2 ^ 16 + n mod 2 ^ 16"
    using mod_mult2_eq [of n "2 ^ 16" "2 ^ 16"] by simp
  ultimately show ?thesis by simp
qed

lemma be_uint_laws:
  "length (be_uint w) = 4" "be_d_uint (be_uint w @ r) = Some (w, r)"
proof -
  have "unat (word_of_nat n :: byte) = n mod 256" for n by (simp add: unat_of_nat)
  then have "be_d_uint (be_uint w @ r) = Some (word_of_nat (unat w mod 2 ^ 32), r)"
    unfolding be_uint_def by (simp only: append_Cons append_Nil be_d_uint.simps base256)
  moreover have "unat w mod 2 ^ 32 = unat w" using unsigned_less [where 'a = nat, of w] by simp
  ultimately show "be_d_uint (be_uint w @ r) = Some (w, r)" by simp
qed (simp add: be_uint_def)

lemma rndup_props: "n \<le> rndup n" "rndup (4 + n) = 4 + rndup n"
  unfolding rndup_def XDR_UNIT_def by presburger+

lemma be_opaque_laws:
  "length (be_opaque b) = rndup (length b)" "take (length b) (be_opaque b) = b"
  "be_d_opaque (length b) (be_opaque b @ r) = Some (b, r)"
  "be_d_opaque n bs = Some (d, x) \<Longrightarrow> length d = n"
  using rndup_props(1) [of "length b"] rndup_props(1) [of n]
  by (auto simp: be_opaque_def be_d_opaque_def split: if_splits)

lemma be_char: "char_of (unat (word_of_nat (code c) :: byte)) = c"
  by (simp add: unat_of_nat)

lemma be_string_laws:
  assumes "length s \<le> m" "m < 2 ^ 32"
  shows "\<exists>bs. be_string m s = Some bs \<and> length bs = xlen_string (length s) \<and> (\<forall>r. be_d_string m (bs @ r) = Some (s, r))"
proof -
  define d :: "byte list" where "d = map (\<lambda>c. word_of_nat (code c)) s"
  have d: "length d = length s" "map (\<lambda>w. char_of (unat w)) d = s"
    unfolding d_def by (simp, simp add: comp_def be_char)
  define h where "h = be_uint (word_of_nat (length s))"
  have un: "unat (word_of_nat (length s) :: 32 word) = length s" using assms by (simp add: unat_of_nat)
  have bs: "be_string m s = Some (h @ be_opaque d)"
    using assms(1) rndup_props(2) [of "length s"] be_uint_laws(1)
    unfolding be_string_def be_opaque_def d_def h_def by simp
  have "be_d_string m ((h @ be_opaque d) @ r) = Some (s, r)" for r
    using assms(1) be_opaque_laws(3) [of d r]
    unfolding be_d_string_def h_def by (simp add: be_uint_laws(2) un d)
  moreover have "length (h @ be_opaque d) = xlen_string (length s)"
    unfolding h_def xlen_string_def XDR_UNIT_def by (simp add: be_uint_laws be_opaque_laws d)
  ultimately show ?thesis using bs by blast
qed

lemma be_long_laws:
  assumes "fits_long v"
  shows "d_long be_lib (be_uint (word_of_int v) @ r) = Some (v, r)"
proof -
  have "signed_take_bit 31 v = v"
    using assms unfolding fits_long_def by (simp add: signed_take_bit_int_eq_self)
  then show ?thesis unfolding be_lib_def by (simp add: be_uint_laws sint_sbintrunc')
qed


lemma be_lib_ok: "xdr_lib_ok be_lib"
  unfolding xdr_lib_ok_def
proof (intro conjI allI impI)
  fix v assume "fits_long v"
  then show "\<exists>bs. e_long be_lib v = Some bs \<and> length bs = 4 \<and> (\<forall>r. d_long be_lib (bs @ r) = Some (v, r))"
    using be_long_laws be_uint_laws(1) by (simp add: be_lib_def)
next
  fix m and s :: string assume "length s \<le> m" "m < (2 :: nat) ^ 32"
  then show "\<exists>bs. e_string be_lib m s = Some bs \<and> length bs = xlen_string (length s) \<and> (\<forall>r. d_string be_lib m (bs @ r) = Some (s, r))"
    using be_string_laws [of s m] by (simp add: be_lib_def)
qed (use be_uint_laws be_opaque_laws in \<open>simp_all add: be_lib_def\<close>)

subsection \<open>The properties\<close>

lemma clipped_size: "GetEncodedInfoSize (clipped info) \<le> GetEncodedInfoSize info"
  unfolding GetEncodedInfoSize_def clipped_def xlen_string_def rndup_def
  by (auto intro!: add_mono mult_le_mono1 div_le_mono)

lemma EncodeProdInfo_spec:
  assumes lib: "xdr_lib_ok lib" and w: "wire_info info" and room: "GetEncodedInfoSize info \<le> length buffer"
  obtains b n where "EncodeProdInfo lib buffer info = Some (b, n)" "n = GetEncodedInfoSize (clipped info)" "length b = length buffer"
    "DecodeProdInfo lib b = Some (clipped info, n)" "drop n b = drop n buffer"
    "\<And>sg. length sg = 16 \<Longrightarrow> fst (UpdateSignature b sg) \<and>
       DecodeProdInfo lib (snd (UpdateSignature b sg)) = Some ((clipped info)\<lparr>signature := sg\<rparr>, n)"
proof -
  obtain t body where e: "enc_prod_info lib info = Some (t @ signature info @ body)" "length t = 8"
    "length t + 16 + length body = GetEncodedInfoSize (clipped info)"
    and d: "\<And>r. dec_prod_info lib (t @ signature info @ body @ r) = Some (clipped info, r)"
    "\<And>sg r. length sg = 16 \<Longrightarrow> dec_prod_info lib (t @ sg @ body @ r) = Some ((clipped info)\<lparr>signature := sg\<rparr>, r)"
    by (rule enc_prod_info_spec [OF lib w]) (rule that)
  have sg: "length (signature info) = 16" using w unfolding wire_info_def by simp
  define n where "n = GetEncodedInfoSize (clipped info)"
  define b where "b = t @ signature info @ body @ drop n buffer"
  have len: "length t + (16 + length body) = n" using e(3) unfolding n_def by simp
  have nb: "n \<le> length buffer" using clipped_size [of info] room unfolding n_def by simp
  have enc: "EncodeProdInfo lib buffer info = Some (b, n)"
    unfolding EncodeProdInfo_def e(1) b_def using sg len nb by simp
  have lb: "length b = length buffer" unfolding b_def using sg len nb by simp
  have dec: "DecodeProdInfo lib b = Some (clipped info, n)"
    unfolding DecodeProdInfo_def using d(1) lb nb by (simp add: b_def)
  have upd: "UpdateSignature b x = (True, t @ x @ body @ drop n buffer)" if x: "length x = 16" for x
    unfolding UpdateSignature_def b_def using x sg e(2) by simp
  have dec': "DecodeProdInfo lib (t @ x @ body @ drop n buffer) = Some ((clipped info)\<lparr>signature := x\<rparr>, n)" if x: "length x = 16" for x
    unfolding DecodeProdInfo_def using d(2) [OF x] x len nb by simp
  have "drop n b = drop n buffer" unfolding b_def using sg len by simp
  then show ?thesis using that [OF enc n_def lb dec] upd dec' by simp
qed



definition demo_wire :: ProdInfo where
  "demo_wire = demo_info\<lparr>arrival := Timestamp 1700000000 250000, signature := replicate 16 7\<rparr>"






end
