(* ===== verification/Spec2Isabelle.thy ===== *)
theory Spec2Isabelle
  imports Queue_Lifecycle Access_Control RW_Lock Upstream_Db Xdr_Codec
begin

text \<open>
  A verification library for RDM.
\<close>

end
